(* ===== verification/Mxfs_Prelude.thy ===== *)
theory Mxfs_Prelude
  imports Main "HOL-Library.Word"
begin

text \<open>
  What every other theory shares: the machine types of the C++ code, the outcomes of a call that
  may not return a value (\<open>fault\<close>), sequencing of such calls (\<open>bindR\<close>, \<open>foldR\<close>), memory as byte
  lists with checked reads and writes (every \<open>memcpy\<close> of the source is one of them), the
  little-endian layout of integers, and bit fields inside a word. Nothing here is specific to MXFS.
\<close>

unbundle bit_operations_syntax

section \<open>Machine types and outcomes\<close>

type_synonym byte = "8 word"
type_synonym u16 = "16 word"
type_synonym u32 = "32 word"
type_synonym u64 = "64 word"

text \<open>
  The ways a call can fail to return at all: an access outside the object it is made on,
  a division by zero, a busy-wait (or a lock) that never lets go, an abort (the \<open>abort()\<close> of \<open>PANIC\<close>, or an
  exception that nothing catches), and the \<open>exit(1)\<close> of the parent tool.
  Error codes that the code returns are ordinary results, not faults.
\<close>

datatype fault = Out_of_bounds | Div_by_zero | Spins | Panic | Exits

type_synonym 'a res = "fault + 'a"

definition bindR :: "'a res \<Rightarrow> ('a \<Rightarrow> 'b res) \<Rightarrow> 'b res" where
  "bindR m f = (case m of Inl e \<Rightarrow> Inl e | Inr x \<Rightarrow> f x)"

fun foldR :: "('x \<Rightarrow> 'a \<Rightarrow> 'a res) \<Rightarrow> 'x list \<Rightarrow> 'a \<Rightarrow> 'a res" where
  "foldR f [] a = Inr a"
| "foldR f (x # xs) a = bindR (f x a) (foldR f xs)"

text \<open>A loop with an early \<open>return\<close>: the body returns a result or goes on with the next state.\<close>

fun loopR :: "('x \<Rightarrow> 'a \<Rightarrow> ('r + 'a) res) \<Rightarrow> 'x list \<Rightarrow> 'a \<Rightarrow> ('r + 'a) res" where
  "loopR f [] a = Inr (Inr a)"
| "loopR f (x # xs) a =
     bindR (f x a) (\<lambda>r. case r of Inl ret \<Rightarrow> Inr (Inl ret) | Inr a' \<Rightarrow> loopR f xs a')"

definition of_option :: "fault \<Rightarrow> 'a option \<Rightarrow> 'a res" where
  "of_option e m = (case m of None \<Rightarrow> Inl e | Some x \<Rightarrow> Inr x)"

section \<open>Memory\<close>

definition mem_read :: "byte list \<Rightarrow> nat \<Rightarrow> nat \<Rightarrow> byte list res" where
  "mem_read m off n =
     (if off + n \<le> length m then Inr (take n (drop off m)) else Inl Out_of_bounds)"

definition mem_write :: "byte list \<Rightarrow> nat \<Rightarrow> byte list \<Rightarrow> byte list res" where
  "mem_write m off bs =
     (if off + length bs \<le> length m
      then Inr (take off m @ bs @ drop (off + length bs) m)
      else Inl Out_of_bounds)"

section \<open>Little-endian integers\<close>

primrec le_bytes :: "nat \<Rightarrow> 'a::len word \<Rightarrow> byte list" where
  "le_bytes 0 w = []"
| "le_bytes (Suc n) w = ucast w # le_bytes n (drop_bit 8 w)"

primrec le_word :: "byte list \<Rightarrow> 'a::len word" where
  "le_word [] = 0"
| "le_word (b # bs) = ucast b OR push_bit 8 (le_word bs)"

section \<open>Bit fields\<close>

definition get_bits :: "nat \<Rightarrow> nat \<Rightarrow> 'a::len word \<Rightarrow> 'a word" where
  "get_bits off n w = take_bit n (drop_bit off w)"

definition set_bits :: "nat \<Rightarrow> nat \<Rightarrow> 'a::len word \<Rightarrow> 'a word \<Rightarrow> 'a word" where
  "set_bits off n v w = (w AND NOT (push_bit off (mask n))) OR push_bit off (take_bit n v)"

section \<open>Lemmas on outcomes\<close>

named_theorems res_simps "unfolding of sequenced calls"

lemma bindR_Inl [simp]: "bindR (Inl e) f = Inl e"
  by (simp add: bindR_def)

lemma bindR_Inr [simp]: "bindR (Inr x) f = f x"
  by (simp add: bindR_def)

lemma bindR_cong [fundef_cong]:
  "m = m' \<Longrightarrow> (\<And>x. m' = Inr x \<Longrightarrow> f x = f' x) \<Longrightarrow> bindR m f = bindR m' f'"
  by (simp add: bindR_def split: sum.splits)

lemma bindR_eq_Inr [res_simps]: "bindR m f = Inr y \<longleftrightarrow> (\<exists>x. m = Inr x \<and> f x = Inr y)"
  by (simp add: bindR_def split: sum.splits)

lemma bindR_eq_Inl [res_simps]: "bindR m f = Inl e \<longleftrightarrow> m = Inl e \<or> (\<exists>x. m = Inr x \<and> f x = Inl e)"
  by (simp add: bindR_def split: sum.splits)

lemma bindR_assoc: "bindR (bindR m f) g = bindR m (\<lambda>x. bindR (f x) g)"
  by (simp add: bindR_def split: sum.splits)

lemma foldR_append: "foldR f (xs @ ys) a = bindR (foldR f xs a) (foldR f ys)"
  by (induction xs arbitrary: a) (auto simp: bindR_assoc intro!: bindR_cong)

lemma foldR_cong:
  "(\<And>x a. x \<in> set xs \<Longrightarrow> f x a = g x a) \<Longrightarrow> foldR f xs a = foldR g xs a"
  by (induction xs arbitrary: a) (auto intro!: bindR_cong)

section \<open>Lemmas on memory\<close>

lemma mem_read_append [simp]:
  "n = length pre \<Longrightarrow> k = length xs \<Longrightarrow> mem_read (pre @ xs @ post) n k = Inr xs"
  by (simp add: mem_read_def)

lemma mem_read_eq_Inr:
  "mem_read m off n = Inr bs \<longleftrightarrow> off + n \<le> length m \<and> bs = take n (drop off m)"
  by (auto simp: mem_read_def)

lemma mem_read_length: "mem_read m off n = Inr bs \<Longrightarrow> length bs = n"
  by (auto simp: mem_read_def split: if_splits)

lemma mem_write_eq_Inr:
  "mem_write m off bs = Inr m' \<longleftrightarrow>
     off + length bs \<le> length m \<and> m' = take off m @ bs @ drop (off + length bs) m"
  by (auto simp: mem_write_def)

text \<open>Two consecutive writes are one write of both pieces.\<close>

lemma mem_write_mem_write:
  "bindR (mem_write m off xs) (\<lambda>m'. mem_write m' (off + length xs) ys) = mem_write m off (xs @ ys)"
  by (auto simp: mem_write_def add_ac)

section \<open>Lemmas on words\<close>

lemma unat_of_nat_small: "n < 2 ^ LENGTH('a) \<Longrightarrow> unat (of_nat n :: 'a::len word) = n"
  by (simp add: unsigned_of_nat take_bit_nat_eq_self)

lemma of_nat_eq_0_small: "n < 2 ^ LENGTH('a) \<Longrightarrow> (of_nat n :: 'a::len word) = 0 \<longleftrightarrow> n = 0"
  by (metis unat_eq_0 unat_of_nat_small)

lemma unat_ucast_up:
  "LENGTH('a) \<le> LENGTH('b) \<Longrightarrow> unat (ucast (w :: 'a::len word) :: 'b::len word) = unat w"
proof -
  assume "LENGTH('a) \<le> LENGTH('b)"
  then have "2 ^ LENGTH('a) \<le> (2 :: nat) ^ LENGTH('b)" by (rule power_increasing) simp
  moreover have "unat w < 2 ^ LENGTH('a)" by (rule unsigned_less)
  ultimately have "unat w < 2 ^ LENGTH('b)" by linarith
  then show ?thesis by (simp add: unsigned_ucast_eq take_bit_nat_eq_self)
qed

section \<open>Lemmas on little-endian integers\<close>

lemma length_le_bytes [simp]: "length (le_bytes n w) = n"
  by (induction n arbitrary: w) simp_all

lemma le_word_le_bytes_take: "le_word (le_bytes n (w::'a::len word)) = take_bit (8 * n) w"
proof (induction n arbitrary: w)
  case 0
  show ?case by simp
next
  case (Suc n)
  have "le_word (le_bytes (Suc n) w) = ucast (ucast w :: byte) OR push_bit 8 (take_bit (8 * n) (drop_bit 8 w))"
    by (simp add: Suc.IH)
  also have "\<dots> = take_bit (8 * Suc n) w"
    by (rule bit_word_eqI) (auto simp: bit_simps)
  finally show ?case .
qed

lemma le_word_le_bytes [simp]: "LENGTH('a) \<le> 8 * n \<Longrightarrow> le_word (le_bytes n (w::'a::len word)) = w"
  by (simp add: le_word_le_bytes_take take_bit_word_eq_self)

lemma bit_le_word:
  "bit (le_word bs :: 'a::len word) i \<longleftrightarrow> i < LENGTH('a) \<and> i div 8 < length bs \<and> bit (bs ! (i div 8)) (i mod 8)"
proof (induction bs arbitrary: i)
  case Nil
  show ?case by simp
next
  case (Cons b bs)
  show ?case
  proof (cases "i < 8")
    case True
    then show ?thesis by (auto simp: bit_simps)
  next
    case False
    then have "i div 8 = Suc ((i - 8) div 8)" and "(i - 8) mod 8 = i mod 8"
      by (simp_all add: le_div_geq le_mod_geq)
    with False show ?thesis
      by (auto simp: bit_simps Cons.IH dest: bit_imp_le_length)
  qed
qed

lemma nth_le_bytes: "i < n \<Longrightarrow> le_bytes n w ! i = ucast (drop_bit (8 * i) w)"
  by (induction n arbitrary: w i) (auto simp: nth_Cons' drop_bit_drop_bit algebra_simps)

lemma le_bytes_le_word:
  assumes "length bs = n" and "8 * n \<le> LENGTH('a)"
  shows "le_bytes n (le_word bs :: 'a::len word) = bs"
proof (rule nth_equalityI)
  show "length (le_bytes n (le_word bs :: 'a word)) = length bs" using assms by simp
next
  fix i assume "i < length (le_bytes n (le_word bs :: 'a word))"
  then have i: "i < n" by simp
  show "le_bytes n (le_word bs :: 'a word) ! i = bs ! i"
  proof (rule bit_word_eqI)
    fix k assume "k < LENGTH(8)"
    then have "(8 * i + k) div 8 = i" and "(8 * i + k) mod 8 = k" and "8 * i + k < LENGTH('a)"
      using i assms(2) by auto
    then show "bit (le_bytes n (le_word bs :: 'a word) ! i) k = bit (bs ! i) k"
      using i assms(1) \<open>k < LENGTH(8)\<close> by (simp add: nth_le_bytes bit_simps bit_le_word)
  qed
qed

section \<open>Lemmas on bit fields\<close>

lemma bit_get_bits:
  "bit (get_bits off n w) i \<longleftrightarrow> i < n \<and> bit w (off + i)"
  by (simp add: get_bits_def bit_simps)

lemma bit_set_bits:
  "bit (set_bits off n v (w::'a::len word)) i \<longleftrightarrow>
     i < LENGTH('a) \<and> (if off \<le> i \<and> i < off + n then bit v (i - off) else bit w i)"
  by (auto simp: set_bits_def bit_simps dest: bit_imp_le_length)

lemma get_set_same [simp]:
  "off + n \<le> LENGTH('a) \<Longrightarrow> get_bits off n (set_bits off n v (w::'a::len word)) = take_bit n v"
  by (rule bit_word_eqI) (auto simp: bit_get_bits bit_set_bits bit_simps)

lemma get_set_other:
  "off + n \<le> off' \<or> off' + n' \<le> off \<Longrightarrow>
     get_bits off' n' (set_bits off n v (w::'a::len word)) = get_bits off' n' w"
  by (rule bit_word_eqI) (auto simp: bit_get_bits bit_set_bits dest: bit_imp_le_length)

lemma get_bits_zero [simp]: "get_bits off n 0 = 0"
  by (simp add: get_bits_def)

lemma take_bit_small: "unat v < 2 ^ n \<Longrightarrow> take_bit n (v::'a::len word) = v"
  by (metis take_bit_nat_eq_self unsigned_take_bit_eq word_eq_iff_unsigned)

text \<open>The only element of a kind.\<close>

lemma filter_single: "distinct xs \<Longrightarrow> a \<in> set xs \<Longrightarrow> filter (\<lambda>x. x = a) xs = [a]"
  by (induction xs) (auto simp: filter_empty_conv)

end
