(* ===== verification/Mxfs_Types.thy ===== *)
theory Mxfs_Types
  imports Mxfs_Prelude
begin

text \<open>
  The data of \<open>sw/child/inc/mxfs_def.h\<close>: the constants, the 16-byte record header
  \<open>compress_t\<close> with its bit fields and its byte layout, the per-page and per-block status, the
  file-system instance, and what a build configuration fixes. Arrays indexed by layer, block or
  page are functions on \<open>nat\<close>; every access whose index the code does not bound is guarded by the
  operation that makes it. The instance is polymorphic in the page status, which the
  preprocessor makes a byte or a \<open>mxfs_page_status_t\<close>.
\<close>

section \<open>Constants\<close>

abbreviation (input) OK :: int where "OK \<equiv> 0"
abbreviation (input) ERR :: int where "ERR \<equiv> -1"
abbreviation (input) NEED_MORE_BUFFER :: int where "NEED_MORE_BUFFER \<equiv> -2"

definition MAGIC :: u32 where "MAGIC = 0xdeadc0de"

abbreviation (input) PAGE_SIZE :: nat where "PAGE_SIZE \<equiv> 2048"
abbreviation (input) BLOCK_COUNT :: nat where "BLOCK_COUNT \<equiv> 1024"
abbreviation (input) PAGE_COUNT :: nat where "PAGE_COUNT \<equiv> 64"
abbreviation (input) BLOCK_START_DATA_AREA :: nat where "BLOCK_START_DATA_AREA \<equiv> 1"

abbreviation (input) ANTP_RECORD_SIZE :: nat where "ANTP_RECORD_SIZE \<equiv> 18"
abbreviation (input) GYRO_RECORD_SIZE :: nat where "GYRO_RECORD_SIZE \<equiv> 6"
abbreviation (input) TEMPERATURE_RECORD_SIZE :: nat where "TEMPERATURE_RECORD_SIZE \<equiv> 2"

abbreviation (input) BLOCK_VALID :: u32 where "BLOCK_VALID \<equiv> 0"
abbreviation (input) BLOCK_INVALID :: u32 where "BLOCK_INVALID \<equiv> 1"
abbreviation (input) PAGE_VALID :: u32 where "PAGE_VALID \<equiv> 0"
abbreviation (input) PAGE_INVALID :: u32 where "PAGE_INVALID \<equiv> 1"

abbreviation (input) LAYER_ANTP_SPEED :: nat where "LAYER_ANTP_SPEED \<equiv> 0"
abbreviation (input) LAYER_ANTP_POWER :: nat where "LAYER_ANTP_POWER \<equiv> 1"
abbreviation (input) LAYER_ANTP_CADENCE :: nat where "LAYER_ANTP_CADENCE \<equiv> 2"
abbreviation (input) LAYER_GYRO :: nat where "LAYER_GYRO \<equiv> 3"
abbreviation (input) LAYER_ACCELEROMETER :: nat where "LAYER_ACCELEROMETER \<equiv> 4"
abbreviation (input) LAYER_TEMPERATURE :: nat where "LAYER_TEMPERATURE \<equiv> 5"
abbreviation (input) LAYER_MAX :: nat where "LAYER_MAX \<equiv> 6"
abbreviation (input) LAYER_CONFIG :: nat where "LAYER_CONFIG \<equiv> 6"
abbreviation (input) LAYER_DIRECT :: nat where "LAYER_DIRECT \<equiv> 6"

text \<open>The array \<open>page_flags_array\<close>: \<open>PAGE_IN_ANTP_SPEED\<close> to \<open>PAGE_IN_TEMPERATURE\<close>, by layer.\<close>

definition page_flags_array :: "u32 list" where
  "page_flags_array = [4, 8, 16, 32, 64, 128]"

section \<open>The record header\<close>

text \<open>
  \<open>compress_t\<close> is four packed 32-bit words: \<open>magic\<close>, \<open>time\<close>, the word holding
  \<open>comp:1, type:5, step:16, msec:10\<close>, and the union of \<open>ant\<close>, \<open>gyr\<close> and \<open>tmp\<close>. Bit fields are
  allocated from the least significant bit.
\<close>

record compress =
  cp_magic :: u32
  cp_time :: u32
  cp_bits :: u32
  cp_union :: u32

definition cp_comp :: "compress \<Rightarrow> u32" where "cp_comp cp = get_bits 0 1 (cp_bits cp)"
definition cp_type :: "compress \<Rightarrow> u32" where "cp_type cp = get_bits 1 5 (cp_bits cp)"
definition cp_step :: "compress \<Rightarrow> u32" where "cp_step cp = get_bits 6 16 (cp_bits cp)"
definition cp_msec :: "compress \<Rightarrow> u32" where "cp_msec cp = get_bits 22 10 (cp_bits cp)"
definition ant_length :: "compress \<Rightarrow> u32" where "ant_length cp = get_bits 0 9 (cp_union cp)"
definition gyr_dim :: "compress \<Rightarrow> u32" where "gyr_dim cp = get_bits 0 3 (cp_union cp)"
definition gyr_count :: "compress \<Rightarrow> u32" where "gyr_count cp = get_bits 3 11 (cp_union cp)"
definition gyr_base :: "compress \<Rightarrow> u32" where "gyr_base cp = get_bits 14 16 (cp_union cp)"
definition tmp_base :: "compress \<Rightarrow> u32" where "tmp_base cp = get_bits 0 16 (cp_union cp)"
definition tmp_count :: "compress \<Rightarrow> u32" where "tmp_count cp = get_bits 16 16 (cp_union cp)"

definition set_type :: "u32 \<Rightarrow> compress \<Rightarrow> compress" where
  "set_type v cp = cp\<lparr>cp_bits := set_bits 1 5 v (cp_bits cp)\<rparr>"
definition set_step :: "u32 \<Rightarrow> compress \<Rightarrow> compress" where
  "set_step v cp = cp\<lparr>cp_bits := set_bits 6 16 v (cp_bits cp)\<rparr>"
definition set_msec :: "u32 \<Rightarrow> compress \<Rightarrow> compress" where
  "set_msec v cp = cp\<lparr>cp_bits := set_bits 22 10 v (cp_bits cp)\<rparr>"
definition set_ant_length :: "u32 \<Rightarrow> compress \<Rightarrow> compress" where
  "set_ant_length v cp = cp\<lparr>cp_union := set_bits 0 9 v (cp_union cp)\<rparr>"
definition set_gyr_dim :: "u32 \<Rightarrow> compress \<Rightarrow> compress" where
  "set_gyr_dim v cp = cp\<lparr>cp_union := set_bits 0 3 v (cp_union cp)\<rparr>"
definition set_gyr_count :: "u32 \<Rightarrow> compress \<Rightarrow> compress" where
  "set_gyr_count v cp = cp\<lparr>cp_union := set_bits 3 11 v (cp_union cp)\<rparr>"
definition set_gyr_base :: "u32 \<Rightarrow> compress \<Rightarrow> compress" where
  "set_gyr_base v cp = cp\<lparr>cp_union := set_bits 14 16 v (cp_union cp)\<rparr>"
definition set_tmp_base :: "u32 \<Rightarrow> compress \<Rightarrow> compress" where
  "set_tmp_base v cp = cp\<lparr>cp_union := set_bits 0 16 v (cp_union cp)\<rparr>"
definition set_tmp_count :: "u32 \<Rightarrow> compress \<Rightarrow> compress" where
  "set_tmp_count v cp = cp\<lparr>cp_union := set_bits 16 16 v (cp_union cp)\<rparr>"

text \<open>
  The aggregate initialiser \<open>compress_t cp{ MAGIC, time, comp, type, }\<close>: the members without an
  initialiser, the union among them, are zero.
\<close>

definition compress_init :: "u32 \<Rightarrow> u32 \<Rightarrow> u32 \<Rightarrow> compress" where
  "compress_init tm cmp ty =
     \<lparr>cp_magic = MAGIC, cp_time = tm,
      cp_bits = set_bits 1 5 ty (set_bits 0 1 cmp 0), cp_union = 0\<rparr>"

text \<open>The bytes of a header in memory, and a header read through a cast pointer.\<close>

definition compress_bytes :: "compress \<Rightarrow> byte list" where
  "compress_bytes cp =
     le_bytes 4 (cp_magic cp) @ le_bytes 4 (cp_time cp) @ le_bytes 4 (cp_bits cp) @ le_bytes 4 (cp_union cp)"

definition compress_of :: "byte list \<Rightarrow> compress" where
  "compress_of bs =
     \<lparr>cp_magic = le_word (take 4 bs), cp_time = le_word (take 4 (drop 4 bs)),
      cp_bits = le_word (take 4 (drop 8 bs)), cp_union = le_word (take 4 (drop 12 bs))\<rparr>"

section \<open>Status, instance, configuration\<close>

record timerange =
  tr_start_time :: u64
  tr_last_time :: u64
  tr_block :: u16
  tr_page :: u16
  tr_record_count :: u16

record page_status =
  ps_flags :: u32
  ps_start_time :: u64
  ps_last_time :: u64

record 'p block_status =
  bs_flags :: u32
  bs_start_time :: u64
  bs_pages :: "nat \<Rightarrow> 'p"

record 'p mxfs_inst =
  mxfs_current_block :: u16
  mxfs_invalid_block :: u16
  mxfs_current_page :: u16
  mxfs_buffer :: "nat \<Rightarrow> byte list"
  mxfs_length :: "nat \<Rightarrow> u16"
  mxfs_count :: "nat \<Rightarrow> u16"
  blocks :: "nat \<Rightarrow> 'p block_status"

text \<open>
  What the preprocessor fixes for a target: \<open>MXFS_BUFFER_SIZE\<close>, and how a flushed page is recorded
  in \<open>blocks[block].pages[page]\<close> from its flags and its first and last timestamp.
\<close>

record 'p build =
  MXFS_BUFFER_SIZE :: nat
  mark_page :: "u32 \<Rightarrow> u64 \<Rightarrow> u64 \<Rightarrow> 'p"

definition build_rp2040 :: "byte build" where
  "build_rp2040 = \<lparr>MXFS_BUFFER_SIZE = PAGE_SIZE * 4, mark_page = (\<lambda>flags start last. ucast flags)\<rparr>"

definition build_macos :: "byte build" where
  "build_macos = \<lparr>MXFS_BUFFER_SIZE = PAGE_SIZE * 8, mark_page = (\<lambda>flags start last. ucast flags)\<rparr>"

definition build_linux :: "page_status build" where
  "build_linux = \<lparr>MXFS_BUFFER_SIZE = PAGE_SIZE * 8,
     mark_page = (\<lambda>flags start last. \<lparr>ps_flags = flags, ps_start_time = start, ps_last_time = last\<rparr>)\<rparr>"

section \<open>Lemmas on headers\<close>

named_theorems cp_simps "reading header fields back after setting them"

lemmas cp_field_defs = cp_comp_def cp_type_def cp_step_def cp_msec_def ant_length_def gyr_dim_def
  gyr_count_def gyr_base_def tmp_base_def tmp_count_def
lemmas cp_set_defs = set_type_def set_step_def set_msec_def set_ant_length_def set_gyr_dim_def
  set_gyr_count_def set_gyr_base_def set_tmp_base_def set_tmp_count_def

lemma length_compress_bytes [simp]: "length (compress_bytes cp) = 16"
  by (simp add: compress_bytes_def)

lemma compress_of_bytes [simp]: "compress_of (compress_bytes cp) = cp"
  by (simp add: compress_of_def compress_bytes_def)

lemma compress_of_bytes_append [simp]: "compress_of (compress_bytes cp @ rest) = cp"
  by (simp add: compress_of_def compress_bytes_def)

lemma magic_of_bytes_append [simp]: "le_word (take 4 (compress_bytes cp @ rest)) = cp_magic cp"
  by (simp add: compress_bytes_def)

lemma cp_init_fields [cp_simps]:
  "cp_magic (compress_init t c ty) = MAGIC" "cp_time (compress_init t c ty) = t"
  "cp_comp (compress_init t c ty) = take_bit 1 c" "cp_type (compress_init t c ty) = take_bit 5 ty"
  "cp_step (compress_init t c ty) = 0" "cp_msec (compress_init t c ty) = 0"
  "cp_union (compress_init t c ty) = 0"
  by (simp_all add: compress_init_def cp_field_defs get_set_other)

lemma cp_set_frame [cp_simps]:
  "cp_magic (set_type v cp) = cp_magic cp" "cp_time (set_type v cp) = cp_time cp"
  "cp_union (set_type v cp) = cp_union cp"
  "cp_magic (set_step v cp) = cp_magic cp" "cp_time (set_step v cp) = cp_time cp"
  "cp_union (set_step v cp) = cp_union cp"
  "cp_magic (set_msec v cp) = cp_magic cp" "cp_time (set_msec v cp) = cp_time cp"
  "cp_union (set_msec v cp) = cp_union cp"
  "cp_magic (set_ant_length v cp) = cp_magic cp" "cp_time (set_ant_length v cp) = cp_time cp"
  "cp_bits (set_ant_length v cp) = cp_bits cp"
  "cp_magic (set_gyr_dim v cp) = cp_magic cp" "cp_time (set_gyr_dim v cp) = cp_time cp"
  "cp_bits (set_gyr_dim v cp) = cp_bits cp"
  "cp_magic (set_gyr_count v cp) = cp_magic cp" "cp_time (set_gyr_count v cp) = cp_time cp"
  "cp_bits (set_gyr_count v cp) = cp_bits cp"
  "cp_magic (set_gyr_base v cp) = cp_magic cp" "cp_time (set_gyr_base v cp) = cp_time cp"
  "cp_bits (set_gyr_base v cp) = cp_bits cp"
  "cp_magic (set_tmp_base v cp) = cp_magic cp" "cp_time (set_tmp_base v cp) = cp_time cp"
  "cp_bits (set_tmp_base v cp) = cp_bits cp"
  "cp_magic (set_tmp_count v cp) = cp_magic cp" "cp_time (set_tmp_count v cp) = cp_time cp"
  "cp_bits (set_tmp_count v cp) = cp_bits cp"
  by (simp_all add: cp_set_defs)

lemma cp_get_bits_set [cp_simps]:
  "cp_type (set_type v cp) = take_bit 5 v" "cp_type (set_step v cp) = cp_type cp"
  "cp_type (set_msec v cp) = cp_type cp" "cp_type (set_ant_length v cp) = cp_type cp"
  "cp_type (set_gyr_dim v cp) = cp_type cp" "cp_type (set_gyr_count v cp) = cp_type cp"
  "cp_type (set_gyr_base v cp) = cp_type cp" "cp_type (set_tmp_base v cp) = cp_type cp"
  "cp_type (set_tmp_count v cp) = cp_type cp"
  "cp_step (set_step v cp) = take_bit 16 v" "cp_step (set_msec v cp) = cp_step cp"
  "cp_step (set_ant_length v cp) = cp_step cp" "cp_step (set_gyr_dim v cp) = cp_step cp"
  "cp_step (set_gyr_count v cp) = cp_step cp" "cp_step (set_gyr_base v cp) = cp_step cp"
  "cp_step (set_tmp_base v cp) = cp_step cp" "cp_step (set_tmp_count v cp) = cp_step cp"
  "cp_msec (set_msec v cp) = take_bit 10 v" "cp_msec (set_step v cp) = cp_msec cp"
  "cp_msec (set_ant_length v cp) = cp_msec cp" "cp_msec (set_gyr_dim v cp) = cp_msec cp"
  "cp_msec (set_gyr_count v cp) = cp_msec cp" "cp_msec (set_gyr_base v cp) = cp_msec cp"
  "cp_msec (set_tmp_base v cp) = cp_msec cp" "cp_msec (set_tmp_count v cp) = cp_msec cp"
  by (simp_all add: cp_set_defs cp_field_defs get_set_other)

lemma cp_get_union_set [cp_simps]:
  "ant_length (set_ant_length v cp) = take_bit 9 v" "ant_length (set_step v cp) = ant_length cp"
  "ant_length (set_msec v cp) = ant_length cp"
  "gyr_count (set_gyr_count v cp) = take_bit 11 v" "gyr_count (set_gyr_base v cp) = gyr_count cp"
  "gyr_count (set_gyr_dim v cp) = gyr_count cp" "gyr_count (set_step v cp) = gyr_count cp"
  "gyr_count (set_msec v cp) = gyr_count cp"
  "gyr_dim (set_gyr_dim v cp) = take_bit 3 v" "gyr_dim (set_gyr_count v cp) = gyr_dim cp"
  "gyr_dim (set_gyr_base v cp) = gyr_dim cp" "gyr_base (set_gyr_base v cp) = take_bit 16 v"
  "tmp_count (set_tmp_count v cp) = take_bit 16 v" "tmp_count (set_tmp_base v cp) = tmp_count cp"
  "tmp_count (set_step v cp) = tmp_count cp" "tmp_count (set_msec v cp) = tmp_count cp"
  "tmp_base (set_tmp_base v cp) = take_bit 16 v" "tmp_base (set_tmp_count v cp) = tmp_base cp"
  "tmp_base (set_step v cp) = tmp_base cp" "tmp_base (set_msec v cp) = tmp_base cp"
  by (simp_all add: cp_set_defs cp_field_defs get_set_other)

lemma cp_get_comp_set [cp_simps]:
  "cp_comp (set_type v cp) = cp_comp cp" "cp_comp (set_step v cp) = cp_comp cp"
  "cp_comp (set_msec v cp) = cp_comp cp" "cp_comp (set_ant_length v cp) = cp_comp cp"
  "cp_comp (set_gyr_dim v cp) = cp_comp cp" "cp_comp (set_gyr_count v cp) = cp_comp cp"
  "cp_comp (set_gyr_base v cp) = cp_comp cp" "cp_comp (set_tmp_base v cp) = cp_comp cp"
  "cp_comp (set_tmp_count v cp) = cp_comp cp" "gyr_dim (set_gyr_base v cp) = gyr_dim cp"
  by (simp_all add: cp_set_defs cp_field_defs get_set_other)

text \<open>Neither erased flash (\<open>0xFF\<close>) nor zero padding reads as a magic number.\<close>

lemma replicate_4: "replicate 4 x = [x, x, x, x]"
  by (simp add: numeral_eq_Suc)

lemma MAGIC_neq_blank [simp]: "le_word (replicate 4 0xFF) \<noteq> MAGIC"
  by (simp add: MAGIC_def replicate_4)

lemma MAGIC_neq_zero [simp]: "le_word (replicate 4 0) \<noteq> MAGIC"
  by (simp add: MAGIC_def replicate_4)

text \<open>Where a struct is copied out and cast back, no field changes.\<close>

lemma mem_read_compress [simp]:
  "n = length pre \<Longrightarrow> mem_read (pre @ compress_bytes cp @ post) n 16 = Inr (compress_bytes cp)"
  by simp

end
