(* ===== verification/Flash_Driver.thy ===== *)
theory Flash_Driver
  imports Mxfs_Types
begin

text \<open>
  The driver interface of \<open>sw/child/src/drivers/inc/drivers_def.h\<close>, chosen at link time: a record of
  the seven entry points over a device state. Each returns its \<open>int\<close>, the memory it writes through
  its buffer argument and the next device state, or a fault where it does not return.

  The locale \<open>flash_driver\<close> is the contract the file system relies on: page images that survive
  reads, a write into an erased page that stores the bytes given and fills the rest with one idle
  byte, and an erase that blanks exactly one block.
\<close>

section \<open>The interface\<close>

record 'd driver =
  drv_read :: "'d \<Rightarrow> u16 \<Rightarrow> u16 \<Rightarrow> byte list \<Rightarrow> u16 \<Rightarrow> (int \<times> byte list \<times> 'd) res"
  drv_write :: "'d \<Rightarrow> u16 \<Rightarrow> u16 \<Rightarrow> byte list \<Rightarrow> u16 \<Rightarrow> (int \<times> 'd) res"
  drv_erase :: "'d \<Rightarrow> u16 \<Rightarrow> (int \<times> 'd) res"
  drv_create_gpio :: "'d \<Rightarrow> (int \<times> 'd) res"
  drv_release_gpio :: "'d \<Rightarrow> (int \<times> 'd) res"
  drv_create_spi :: "'d \<Rightarrow> (int \<times> 'd) res"
  drv_release_spi :: "'d \<Rightarrow> (int \<times> 'd) res"

section \<open>The contract\<close>

type_synonym flash_image = "nat \<Rightarrow> nat \<Rightarrow> byte list"

abbreviation valid_pos :: "nat \<Rightarrow> nat \<Rightarrow> bool" where
  "valid_pos b p \<equiv> b < BLOCK_COUNT \<and> p < PAGE_COUNT"

definition blank_page :: "byte list" where
  "blank_page = replicate PAGE_SIZE 0xFF"

definition same_flash :: "flash_image \<Rightarrow> flash_image \<Rightarrow> bool" where
  "same_flash f g \<longleftrightarrow> (\<forall>b p. valid_pos b p \<longrightarrow> f b p = g b p)"

definition programmed :: "byte list \<Rightarrow> byte \<Rightarrow> byte list" where
  "programmed data fill = data @ replicate (PAGE_SIZE - length data) fill"

definition idle_byte :: "byte \<Rightarrow> bool" where
  "idle_byte f \<longleftrightarrow> f = 0 \<or> f = 0xFF"

locale flash_driver =
  fixes drv :: "'d driver"
    and img :: "'d \<Rightarrow> flash_image"
    and ready :: "'d \<Rightarrow> bool"
  assumes img_length: "ready d \<Longrightarrow> valid_pos blk pg \<Longrightarrow> length (img d blk pg) = PAGE_SIZE"
    and read_law: "ready d \<Longrightarrow> valid_pos (unat b) (unat p) \<Longrightarrow> unat n \<le> PAGE_SIZE \<Longrightarrow>
      unat n \<le> length buf \<Longrightarrow>
      \<exists>d'. drv_read drv d b p buf n =
             Inr (OK, take (unat n) (img d (unat b) (unat p)) @ drop (unat n) buf, d') \<and>
           ready d' \<and> same_flash (img d') (img d)"
    and write_law: "ready d \<Longrightarrow> valid_pos (unat b) (unat p) \<Longrightarrow> unat n \<le> PAGE_SIZE \<Longrightarrow>
      unat n \<le> length data \<Longrightarrow> img d (unat b) (unat p) = blank_page \<Longrightarrow>
      \<exists>d' fill. drv_write drv d b p data n = Inr (OK, d') \<and> ready d' \<and> idle_byte fill \<and>
           same_flash (img d')
             ((img d)(unat b := (img d (unat b))(unat p := programmed (take (unat n) data) fill)))"
    and erase_law: "ready d \<Longrightarrow> unat b < BLOCK_COUNT \<Longrightarrow>
      \<exists>d'. drv_erase drv d b = Inr (OK, d') \<and> ready d' \<and>
           same_flash (img d') ((img d)(unat b := (\<lambda>p. blank_page)))"

section \<open>Lemmas on page images\<close>

lemma length_blank_page [simp]: "length blank_page = PAGE_SIZE"
  by (simp add: blank_page_def)

lemma length_programmed [simp]: "length data \<le> PAGE_SIZE \<Longrightarrow> length (programmed data f) = PAGE_SIZE"
  by (simp add: programmed_def)

lemma same_flash_refl [simp]: "same_flash f f"
  by (simp add: same_flash_def)

lemma same_flash_trans: "same_flash f g \<Longrightarrow> same_flash g h \<Longrightarrow> same_flash f h"
  by (simp add: same_flash_def)

lemma same_flashD: "same_flash f g \<Longrightarrow> valid_pos b p \<Longrightarrow> f b p = g b p"
  by (simp add: same_flash_def)

text \<open>What an idle byte leaves behind the data never starts with a magic number.\<close>

lemma idle_fill_no_magic:
  assumes "idle_byte f" and "4 \<le> n"
  shows "le_word (take 4 (replicate n f)) \<noteq> MAGIC"
  using assms by (auto simp: idle_byte_def)

end
