(* ===== verification/Spi_Bus.thy ===== *)
theory Spi_Bus
  imports Flash_Driver
begin

text \<open>
  The SPI bus and the NAND instruction set that the RP2040 and BCM2711 drivers and the parent tool
  share (\<open>rp2040_def.h\<close>, \<open>bcm2711_def.h\<close>, \<open>spinand_def.h\<close>). The state of a bus is the list of what
  happened on it. The chip is not part of the repository: it is an argument, a function from
  that history to the bytes it answers with, and to whether a Linux transfer succeeds. A busy-wait is \<open>poll\<close>, a
  \<open>partial_function\<close>: a chip that never becomes ready makes it return nothing.
\<close>

section \<open>The bus and the chip\<close>

text \<open>Chip select, bytes sent, bytes received, a delay in microseconds, any other call into the hardware.\<close>

datatype bus_event = Cs bool | Tx "byte list" | Rx "byte list" | Delay nat | Hw string "nat list"

type_synonym bus = "bus_event list"

record chip =
  rx_byte :: "bus \<Rightarrow> nat \<Rightarrow> byte"
  tx_ok :: "bus \<Rightarrow> bool"
  rx_ok :: "bus \<Rightarrow> bool"

definition rx_bytes :: "chip \<Rightarrow> bus \<Rightarrow> nat \<Rightarrow> byte list" where
  "rx_bytes chip h n = map (rx_byte chip h) [0..<n]"

section \<open>Instructions and registers\<close>

abbreviation (input) DEVICE_RESET :: byte where "DEVICE_RESET \<equiv> 0xFF"
abbreviation (input) JEDEC_ID :: byte where "JEDEC_ID \<equiv> 0x9F"
abbreviation (input) READ_STATUS_REGISTER_L :: byte where "READ_STATUS_REGISTER_L \<equiv> 0x0F"
abbreviation (input) WRITE_STATUS_REGISTER_L :: byte where "WRITE_STATUS_REGISTER_L \<equiv> 0x1F"
abbreviation (input) WRITE_ENABLE :: byte where "WRITE_ENABLE \<equiv> 0x06"
abbreviation (input) WRITE_DISABLE :: byte where "WRITE_DISABLE \<equiv> 0x04"
abbreviation (input) BLOCK_ERASE :: byte where "BLOCK_ERASE \<equiv> 0xD8"
abbreviation (input) RANDOM_PG_DATA_LOAD :: byte where "RANDOM_PG_DATA_LOAD \<equiv> 0x84"
abbreviation (input) PG_EXECUTE :: byte where "PG_EXECUTE \<equiv> 0x10"
abbreviation (input) PG_DATA_READ :: byte where "PG_DATA_READ \<equiv> 0x13"
abbreviation (input) READ_DATA :: byte where "READ_DATA \<equiv> 0x03"

abbreviation (input) STATUS_REGISTER_1_ADDR :: byte where "STATUS_REGISTER_1_ADDR \<equiv> 0xA0"
abbreviation (input) STATUS_REGISTER_2_ADDR :: byte where "STATUS_REGISTER_2_ADDR \<equiv> 0xB0"
abbreviation (input) STATUS_REGISTER_3_ADDR :: byte where "STATUS_REGISTER_3_ADDR \<equiv> 0xC0"
abbreviation (input) STATUS_REGISTER_2_ECC_E :: byte where "STATUS_REGISTER_2_ECC_E \<equiv> 0x10"
abbreviation (input) STATUS_REGISTER_2_BUF :: byte where "STATUS_REGISTER_2_BUF \<equiv> 0x08"
abbreviation (input) STATUS_REGISTER_3_BUSY :: byte where "STATUS_REGISTER_3_BUSY \<equiv> 0x01"
abbreviation (input) STATUS_REGISTER_3_WEL :: byte where "STATUS_REGISTER_3_WEL \<equiv> 0x02"

definition not_busy :: "byte \<Rightarrow> bool" where
  "not_busy st \<longleftrightarrow> st AND STATUS_REGISTER_3_BUSY = 0"

definition write_enabled :: "byte \<Rightarrow> bool" where
  "write_enabled st \<longleftrightarrow> st AND STATUS_REGISTER_3_BUSY = 0 \<and> st AND STATUS_REGISTER_3_WEL \<noteq> 0"

text \<open>The row address of a page, and the value of the \<open>read mode\<close> register write.\<close>

definition row_bytes :: "u16 \<Rightarrow> u16 \<Rightarrow> byte list" where
  "row_bytes block page =
     [0, ucast (drop_bit 2 block AND 0x00FF), ucast (push_bit 6 block AND 0x00C0) OR ucast (page AND 0x003F)]"

definition read_mode :: "byte \<Rightarrow> byte" where
  "read_mode flg_protected = (flg_protected AND NOT STATUS_REGISTER_2_ECC_E) OR STATUS_REGISTER_2_BUF"

section \<open>Busy-waiting\<close>

text \<open>
  \<open>rd\<close> reads the status register into a variable that holds \<open>st\<close> (a failed transfer leaves it so);
  between two reads the loop sleeps.
\<close>

partial_function (option) poll ::
  "(byte \<Rightarrow> bool) \<Rightarrow> nat \<Rightarrow> (byte \<Rightarrow> bus \<Rightarrow> byte \<times> bus) \<Rightarrow> byte \<Rightarrow> bus \<Rightarrow> (byte \<times> bus) option" where
  "poll ready us rd st h =
     (case rd st h of (st', h') \<Rightarrow>
        if ready st' then Some (st', h') else poll ready us rd st' (h' @ [Delay us]))"

section \<open>What a history shows\<close>

text \<open>The instructions sent, except the reads of the registers.\<close>

definition register_read :: "byte list \<Rightarrow> bool" where
  "register_read bs \<longleftrightarrow> bs \<noteq> [] \<and> hd bs = READ_STATUS_REGISTER_L"

fun commands :: "bus \<Rightarrow> byte list list" where
  "commands [] = []"
| "commands (Tx bs # h) =
     (if register_read bs then commands h else bs # commands h)"
| "commands (e # h) = commands h"

text \<open>
  Chip select: every byte goes over the bus while it is low (\<open>Cs False\<close>), it is high outside instructions, and is not
  pulled low twice.
\<close>

fun framed :: "bool \<Rightarrow> bus \<Rightarrow> bool" where
  "framed low [] \<longleftrightarrow> \<not> low"
| "framed low (Cs high # h) \<longleftrightarrow> (high \<or> \<not> low) \<and> framed (\<not> high) h"
| "framed low (Tx bs # h) \<longleftrightarrow> low \<and> framed low h"
| "framed low (Rx bs # h) \<longleftrightarrow> low \<and> framed low h"
| "framed low (Delay us # h) \<longleftrightarrow> \<not> low \<and> framed low h"
| "framed low (Hw s xs # h) \<longleftrightarrow> \<not> low \<and> framed low h"

text \<open>
  Guarding: the instructions that change the array (execute, erase) go out only when the last thing
  seen on the bus is a status register 3 that is not busy and write enabled. The automaton holds whether
  a read of that register is going on, and its value while no other instruction has been sent.
\<close>

type_synonym guard = "bool \<times> byte option"

fun guard_step :: "guard \<Rightarrow> bus_event \<Rightarrow> guard" where
  "guard_step (q, st) (Tx bs) = (if bs = [READ_STATUS_REGISTER_L, STATUS_REGISTER_3_ADDR] then (True, st) else (False, None))"
| "guard_step (q, st) (Rx rs) = (if q then (False, Some (hd rs)) else (q, st))"
| "guard_step g e = g"

definition changes_array :: "byte list \<Rightarrow> bool" where
  "changes_array bs \<longleftrightarrow> bs \<noteq> [] \<and> hd bs \<in> {PG_EXECUTE, BLOCK_ERASE}"

fun guarded :: "guard \<Rightarrow> bus \<Rightarrow> bool" where
  "guarded g [] \<longleftrightarrow> True"
| "guarded g (Tx bs # h) \<longleftrightarrow>
     (changes_array bs \<longrightarrow> (case snd g of None \<Rightarrow> False | Some st \<Rightarrow> write_enabled st)) \<and> guarded (guard_step g (Tx bs)) h"
| "guarded g (e # h) \<longleftrightarrow> guarded (guard_step g e) h"

definition guard_after :: "bus \<Rightarrow> guard" where
  "guard_after h = foldl guard_step (False, None) h"

definition bus_ok :: "bus \<Rightarrow> bool" where
  "bus_ok h \<longleftrightarrow> framed False h \<and> guarded (False, None) h"

section \<open>Lemmas on histories\<close>

lemma guarded_append: "guarded g (h @ h') \<longleftrightarrow> guarded g h \<and> guarded (foldl guard_step g h) h'"
  by (induction g h rule: guarded.induct) auto

lemma framed_append: "framed low h \<Longrightarrow> framed False h' \<Longrightarrow> framed low (h @ h')"
  by (induction low h rule: framed.induct) auto

lemma bus_ok_append:
  "bus_ok h \<Longrightarrow> framed False h' \<Longrightarrow> guarded (guard_after h) h' \<Longrightarrow> bus_ok (h @ h')"
  by (simp add: bus_ok_def framed_append guarded_append guard_after_def)

lemma guard_after_append: "guard_after (h @ h') = foldl guard_step (guard_after h) h'"
  by (simp add: guard_after_def)

lemma commands_append [simp]: "commands (h @ h') = commands h @ commands h'"
  by (induction h rule: commands.induct) simp_all

lemma framed_snoc [simp]:
  "framed False h \<Longrightarrow> framed False (h @ [Delay us])"
  "framed False h \<Longrightarrow> framed False (h @ [Cs False, Tx bs, Cs True])"
  "framed False h \<Longrightarrow> framed False (h @ [Cs False, Tx bs, Rx rs, Cs True])"
  "framed False h \<Longrightarrow> framed False (h @ [Hw s xs])"
  by (simp_all add: framed_append)

section \<open>Lemmas on busy-waiting\<close>

text \<open>What a poll returns is ready, and what every read and delay keeps, the poll keeps.\<close>

lemma poll_result:
  assumes "poll ready us rd st h = Some r" and "I st h"
    and "\<And>st h. I st h \<Longrightarrow> J (fst (rd st h)) (snd (rd st h))"
    and "\<And>st h. J st h \<Longrightarrow> I st (h @ [Delay us])"
  shows "ready (fst r) \<and> J (fst r) (snd r)"
  using assms
proof (induction ready us rd st h r rule: poll.raw_induct [rotated, consumes 1, case_names 1])
  case (1 poll ready us rd st h r)
  obtain st' h' where rd: "rd st h = (st', h')" by (cases "rd st h")
  have J: "J st' h'" using 1(4) [OF 1(3)] rd by simp
  show ?case
  proof (cases "ready st'")
    case True
    then show ?thesis using 1(2) rd J by auto
  next
    case False
    then have "poll ready us rd st' (h' @ [Delay us]) = Some r" using 1(2) rd by simp
    from 1(1) [OF this 1(5) [OF J] 1(4,5)] show ?thesis .
  qed
qed

text \<open>The state after \<open>n\<close> reads, with \<open>gap\<close> between two; a poll returns when the next read is ready.\<close>

primrec polls :: "nat \<Rightarrow> (bus \<Rightarrow> bus) \<Rightarrow> (byte \<Rightarrow> bus \<Rightarrow> byte \<times> bus) \<Rightarrow> byte \<Rightarrow> bus \<Rightarrow> byte \<times> bus" where
  "polls 0 gap rd st h = (st, h)"
| "polls (Suc n) gap rd st h = (case rd st h of (st', h') \<Rightarrow> polls n gap rd st' (gap h'))"

definition eventually_ready ::
  "(byte \<Rightarrow> bool) \<Rightarrow> (bus \<Rightarrow> bus) \<Rightarrow> (byte \<Rightarrow> bus \<Rightarrow> byte \<times> bus) \<Rightarrow> byte \<Rightarrow> bus \<Rightarrow> bool" where
  "eventually_ready ready gap rd st h \<longleftrightarrow> (\<exists>n. case polls n gap rd st h of (st', h') \<Rightarrow> ready (fst (rd st' h')))"

abbreviation (input) sleeping :: "nat \<Rightarrow> bus \<Rightarrow> bus" where
  "sleeping us \<equiv> \<lambda>h. h @ [Delay us]"

lemma poll_returns:
  assumes "eventually_ready ready (sleeping us) rd st h"
  shows "\<exists>r. poll ready us rd st h = Some r"
proof -
  have "(case polls n (sleeping us) rd st h of (st', h') \<Rightarrow> ready (fst (rd st' h'))) \<Longrightarrow> \<exists>r. poll ready us rd st h = Some r" for n
  proof (induction n arbitrary: st h)
    case 0
    then show ?case by (subst poll.simps) (auto split: prod.splits)
  next
    case (Suc n)
    obtain st' h' where rd: "rd st h = (st', h')" by (cases "rd st h")
    then have "\<exists>r. poll ready us rd st' (h' @ [Delay us]) = Some r" using Suc by simp
    then show ?case using rd by (subst poll.simps) auto
  qed
  then show ?thesis using assms unfolding eventually_ready_def by (elim exE)
qed

section \<open>Instructions and status reads\<close>

definition instr :: "byte list \<Rightarrow> bus \<Rightarrow> bus" where
  "instr cmd h = h @ [Cs False, Tx cmd, Cs True]"

lemma changes_array_simps [simp]:
  "changes_array (PG_EXECUTE # bs)" "changes_array (BLOCK_ERASE # bs)" "\<not> changes_array (WRITE_ENABLE # bs)"
  "\<not> changes_array (WRITE_STATUS_REGISTER_L # bs)" "\<not> changes_array (READ_STATUS_REGISTER_L # bs)"
  "\<not> changes_array (PG_DATA_READ # bs)" "\<not> changes_array (READ_DATA # bs)"
  "\<not> changes_array (RANDOM_PG_DATA_LOAD # bs)" "\<not> changes_array (DEVICE_RESET # bs)" "\<not> changes_array (JEDEC_ID # bs)"
  by (simp_all add: changes_array_def)

lemma register_read_simps [simp]:
  "register_read (c # bs) \<longleftrightarrow> c = READ_STATUS_REGISTER_L" "\<not> register_read []"
  by (simp_all add: register_read_def)

lemma bus_ok_delay [simp]: "bus_ok h \<Longrightarrow> bus_ok (h @ [Delay us])"
  by (rule bus_ok_append) simp_all

lemma instr_ok:
  assumes "bus_ok h" and "changes_array cmd \<longrightarrow> (\<exists>st. guard_after h = (False, Some st) \<and> write_enabled st)"
    and "\<not> register_read cmd"
  shows "bus_ok (instr cmd h) \<and> commands (instr cmd h) = commands h @ [cmd]"
proof -
  have "bus_ok (h @ [Cs False, Tx cmd, Cs True])"
    by (rule bus_ok_append; cases "guard_after h") (use assms in auto)
  then show ?thesis using assms(3) by (simp add: instr_def)
qed

lemma query_ok:
  assumes "bus_ok h" and "\<not> changes_array cmd"
  shows "bus_ok (h @ [Cs False, Tx cmd, Rx bs, Cs True]) \<and>
    commands (h @ [Cs False, Tx cmd, Rx bs, Cs True]) = commands h @ (if register_read cmd then [] else [cmd])"
proof -
  have "bus_ok (h @ [Cs False, Tx cmd, Rx bs, Cs True])"
    by (rule bus_ok_append; cases "guard_after h") (use assms in auto)
  then show ?thesis by simp
qed

text \<open>The events of status reads and delays; they neither arm nor disarm the chip.\<close>

fun status_event :: "bus_event \<Rightarrow> bool" where
  "status_event (Tx bs) \<longleftrightarrow> bs = [READ_STATUS_REGISTER_L, STATUS_REGISTER_3_ADDR]"
| "status_event e \<longleftrightarrow> True"

section \<open>Chips that become ready\<close>

text \<open>
  What the history tells of the chip: whether a read of the status register 3 is going on, whether the chip is idle
  (it was seen not busy, and nothing that makes it busy was sent since), and whether it is armed (a
  write-enable was sent while it was idle, and no other instruction since).
\<close>

fun chip_step :: "bool \<times> bool \<times> bool \<Rightarrow> bus_event \<Rightarrow> bool \<times> bool \<times> bool" where
  "chip_step (q, idle, armed) (Tx bs) =
     (bs = [READ_STATUS_REGISTER_L, STATUS_REGISTER_3_ADDR],
      idle \<and> (bs = [] \<or> hd bs \<notin> {DEVICE_RESET, PG_DATA_READ, PG_EXECUTE, BLOCK_ERASE}),
      if register_read bs then armed else bs = [WRITE_ENABLE] \<and> idle)"
| "chip_step (q, idle, armed) (Rx rs) = (False, idle \<or> q \<and> not_busy (hd rs), armed)"
| "chip_step s e = s"

definition chip_after :: "bus \<Rightarrow> bool \<times> bool \<times> bool" where
  "chip_after h = foldl chip_step (False, False, False) h"

definition idle_after :: "bus \<Rightarrow> bool" where
  "idle_after h \<longleftrightarrow> fst (snd (chip_after h))"

definition armed_after :: "bus \<Rightarrow> bool" where
  "armed_after h \<longleftrightarrow> snd (snd (chip_after h))"

text \<open>
  A chip whose operations end: reading the status again and again, it becomes not busy, and, where it is armed,
  write enabled as well.
\<close>

definition live :: "(bus \<Rightarrow> bus) \<Rightarrow> (byte \<Rightarrow> bus \<Rightarrow> byte \<times> bus) \<Rightarrow> bool" where
  "live gap rd \<longleftrightarrow> (\<forall>st h. bus_ok h \<longrightarrow>
     eventually_ready not_busy gap rd st h \<and> (armed_after h \<longrightarrow> eventually_ready write_enabled gap rd st h))"

lemma chip_after_append: "chip_after (h @ h') = foldl chip_step (chip_after h) h'"
  by (simp add: chip_after_def)

lemma idle_armed_delay [simp]:
  "idle_after (h @ [Delay us]) = idle_after h" "armed_after (h @ [Delay us]) = armed_after h"
  by (simp_all add: idle_after_def armed_after_def chip_after_append)

lemma idle_instr [simp]:
  "idle_after (instr cmd h) \<longleftrightarrow> idle_after h \<and> (cmd = [] \<or> hd cmd \<notin> {DEVICE_RESET, PG_DATA_READ, PG_EXECUTE, BLOCK_ERASE})"
  by (cases "chip_after h") (simp add: idle_after_def chip_after_append instr_def)

lemma armed_instr [simp]: "armed_after (instr [WRITE_ENABLE] h) \<longleftrightarrow> idle_after h"
  by (cases "chip_after h") (simp add: idle_after_def armed_after_def chip_after_append instr_def)

text \<open>A history that ends with a status that is not busy leaves the chip idle.\<close>

lemma guard_chip: "fst (guard_after h) \<longrightarrow> fst (chip_after h)"
  "(case snd (guard_after h) of Some st \<Rightarrow> not_busy st \<longrightarrow> idle_after h | None \<Rightarrow> True)"
proof (induction h rule: rev_induct)
  case Nil
  { case 1 show ?case by (simp add: guard_after_def) next case 2 show ?case by (simp add: guard_after_def) }
next
  case (snoc e h)
  obtain q v where g: "guard_after h = (q, v)" by (cases "guard_after h")
  obtain q' i a where c: "chip_after h = (q', i, a)" by (cases "chip_after h")
  have q: "q \<longrightarrow> q'" and v: "case v of Some st \<Rightarrow> not_busy st \<longrightarrow> i | None \<Rightarrow> True"
    using snoc by (simp_all add: g c idle_after_def split: option.splits)
  { case 1 show ?case using q by (cases e) (simp_all add: guard_after_append chip_after_append g c)
  next case 2 show ?case using q v
      by (cases e) (auto simp: guard_after_append chip_after_append idle_after_def g c split: option.splits) }
qed

lemma idle_after_status: "guard_after h = (False, Some st) \<Longrightarrow> not_busy st \<Longrightarrow> idle_after h"
  using guard_chip(2) [of h] by simp

lemma write_enabled_not_busy: "write_enabled st \<Longrightarrow> not_busy st"
  by (simp add: write_enabled_def not_busy_def)

text \<open>
  The contract of a status read: one framed read of the status register 3, whose byte it returns. A poll over such a
  read keeps the bus in order, sends nothing else, and ends right after a status that is ready.
\<close>

locale status_reader =
  fixes rd :: "byte \<Rightarrow> bus \<Rightarrow> byte \<times> bus"
  assumes status_read: "\<exists>b. rd st h = (b, h @ [Cs False, Tx [READ_STATUS_REGISTER_L, STATUS_REGISTER_3_ADDR], Rx [b], Cs True])"
begin

lemma read_keeps:
  assumes "bus_ok h"
  shows "bus_ok (snd (rd st h)) \<and> commands (snd (rd st h)) = commands h \<and>
    guard_after (snd (rd st h)) = (False, Some (fst (rd st h)))"
proof -
  obtain b where rd: "rd st h = (b, h @ [Cs False, Tx [READ_STATUS_REGISTER_L, STATUS_REGISTER_3_ADDR], Rx [b], Cs True])"
    using status_read by blast
  have "bus_ok (h @ [Cs False, Tx [READ_STATUS_REGISTER_L, STATUS_REGISTER_3_ADDR], Rx [b], Cs True])"
    using assms by (rule bus_ok_append; cases "guard_after h") (simp_all add: changes_array_def)
  then show ?thesis by (cases "guard_after h") (simp add: rd guard_after_append)
qed

lemma read_armed: "armed_after (snd (rd st h)) = armed_after h"
proof -
  obtain b where rd: "rd st h = (b, h @ [Cs False, Tx [READ_STATUS_REGISTER_L, STATUS_REGISTER_3_ADDR], Rx [b], Cs True])"
    using status_read by blast
  then show ?thesis by (cases "chip_after h") (simp add: armed_after_def chip_after_append)
qed

lemma wait_result:
  assumes "poll ready us rd st h = Some (st', h')" and "bus_ok h"
  shows "ready st' \<and> bus_ok h' \<and> commands h' = commands h \<and> guard_after h' = (False, Some st')"
proof -
  have "ready (fst (st', h')) \<and> (bus_ok (snd (st', h')) \<and> commands (snd (st', h')) = commands h \<and>
      guard_after (snd (st', h')) = (False, Some (fst (st', h'))))"
    by (rule poll_result [OF assms(1), where I = "\<lambda>st k. bus_ok k \<and> commands k = commands h"])
      (use assms(2) read_keeps in auto)
  then show ?thesis by simp
qed

text \<open>All a wait adds to the history are status reads and delays.\<close>

lemma wait_events:
  assumes "poll ready us rd st h = Some (st', h')"
  shows "\<exists>es. h' = h @ es \<and> list_all status_event es"
proof -
  have "ready (fst (st', h')) \<and> (\<exists>es. snd (st', h') = h @ es \<and> list_all status_event es)"
  proof (rule poll_result [OF assms, where I = "\<lambda>st k. \<exists>es. k = h @ es \<and> list_all status_event es"])
    fix st k
    assume "\<exists>es. k = h @ es \<and> list_all status_event es"
    then obtain es where "k = h @ es" "list_all status_event es" by blast
    moreover obtain b where "rd st k = (b, k @ [Cs False, Tx [READ_STATUS_REGISTER_L, STATUS_REGISTER_3_ADDR], Rx [b], Cs True])"
      using status_read by blast
    ultimately show "\<exists>es. snd (rd st k) = h @ es \<and> list_all status_event es"
      by (intro exI [of _ "es @ [Cs False, Tx [READ_STATUS_REGISTER_L, STATUS_REGISTER_3_ADDR], Rx [b], Cs True]"]) simp
  next
    fix st k
    assume "\<exists>es. k = h @ es \<and> list_all status_event es"
    then obtain es where "k = h @ es" "list_all status_event es" by blast
    then show "\<exists>es. k @ [Delay us] = h @ es \<and> list_all status_event es" by (intro exI [of _ "es @ [Delay us]"]) simp
  qed simp
  then show ?thesis by simp
qed

text \<open>On a live chip both waits return.\<close>

lemma idle_wait:
  assumes "live (sleeping us) rd" and "bus_ok h"
  shows "\<exists>st' h'. poll not_busy us rd st h = Some (st', h') \<and> idle_after h' \<and> bus_ok h'"
proof -
  obtain st' h' where "poll not_busy us rd st h = Some (st', h')"
    using poll_returns [of not_busy us rd st h] assms by (auto simp: live_def)
  moreover from wait_result [OF this assms(2)] have "idle_after h' \<and> bus_ok h'" using idle_after_status by blast
  ultimately show ?thesis by blast
qed

lemma enabled_wait:
  assumes "live (sleeping us) rd" and "bus_ok h" and "armed_after h"
  shows "\<exists>st' h'. poll write_enabled us rd st h = Some (st', h') \<and> idle_after h' \<and> bus_ok h' \<and>
    guard_after h' = (False, Some st') \<and> write_enabled st'"
proof -
  obtain st' h' where "poll write_enabled us rd st h = Some (st', h')"
    using poll_returns [of write_enabled us rd st h] assms by (auto simp: live_def)
  moreover from wait_result [OF this assms(2)]
  have "idle_after h' \<and> bus_ok h' \<and> guard_after h' = (False, Some st') \<and> write_enabled st'"
    using idle_after_status write_enabled_not_busy by blast
  ultimately show ?thesis by blast
qed

end

text \<open>The instructions of the read of a page, the same in both drivers and the parent tool.\<close>

definition read_commands :: "u16 \<Rightarrow> u16 \<Rightarrow> byte \<Rightarrow> byte list list" where
  "read_commands block page flg_protected =
     [[WRITE_STATUS_REGISTER_L, STATUS_REGISTER_2_ADDR, read_mode flg_protected],
      PG_DATA_READ # row_bytes block page, [READ_DATA, 0, 0, 0]]"

section \<open>Row addresses\<close>

text \<open>The three bytes are the number of the page, \<open>64 * block + page\<close>, most significant byte first.\<close>

lemma row_bytes_address:
  assumes "unat block < BLOCK_COUNT" and "unat page < PAGE_COUNT"
  shows "\<exists>hi lo. row_bytes block page = [0, hi, lo] \<and> unat hi * 256 + unat lo = unat block * 64 + unat page"
proof -
  have b: "unat block < 1024" and p: "unat page < 64" using assms by simp_all
  have m: "(0xFF :: u16) = mask 8" "(0x3F :: u16) = mask 6" "(0xC0 :: u16) = push_bit 6 (mask 2)"
    by (simp_all add: mask_eq_exp_minus_1)
  have hi: "unat (ucast (drop_bit 2 block AND 0xFF) :: byte) = unat block div 4"
    using b unfolding m take_bit_eq_mask [symmetric]
    by (simp only: unsigned_ucast_eq unsigned_take_bit_eq unsigned_drop_bit_eq) (simp add: drop_bit_eq_div take_bit_eq_mod)
  have l1: "(ucast (push_bit 6 block AND 0xC0) :: byte) = push_bit 6 (take_bit 2 (ucast block))"
    unfolding m by (rule bit_word_eqI) (auto simp: bit_simps)
  have l2: "(ucast (page AND 0x3F) :: byte) = take_bit 6 (ucast page)"
    unfolding m by (rule bit_word_eqI) (auto simp: bit_simps)
  let ?a = "push_bit 6 (take_bit 2 (ucast block)) :: byte" and ?b = "take_bit 6 (ucast page) :: byte"
  have "?a AND ?b = 0" by (rule bit_word_eqI) (auto simp: bit_simps)
  then have or: "?a OR ?b = ?a + ?b" by (simp add: disjunctive_add_eq_or)
  have a: "unat ?a = unat block mod 4 * 64"
    by (simp add: unsigned_push_bit_eq unsigned_take_bit_eq unsigned_ucast_eq)
      (simp add: push_bit_eq_mult take_bit_eq_mod mod_mod_cancel)
  have c: "unat ?b = unat page"
    using p by (simp add: unsigned_take_bit_eq unsigned_ucast_eq) (simp add: take_bit_eq_mod mod_mod_cancel)
  have lo: "unat (?a OR ?b) = unat block mod 4 * 64 + unat page"
    unfolding or using p by (simp add: unat_word_ariths a c)
  have "unat block div 4 * 256 + (unat block mod 4 * 64 + unat page) = unat block * 64 + unat page"
    using div_mult_mod_eq [of "unat block" 4] by linarith
  then show ?thesis
    unfolding row_bytes_def l1 l2 by (intro exI conjI) (rule refl, simp only: hi lo)
qed

end
