(* ===== verification/Nand_Chip.thy ===== *)
theory Nand_Chip
  imports Spi_Bus
begin

text \<open>
  The NAND chip at the other end of the bus (a W25N01G, which the drivers identify by its JEDEC id). It is not
  part of the repository: what the drivers rely on is stated here as the locale \<open>nand_chip\<close>, over a chip, the array
  it holds after a history of the bus, and its data buffer. The laws are those of its data sheet for the
  instructions the drivers send. At the end, a chip given by a fold over the history meets them.
\<close>

section \<open>What the history tells of the registers\<close>

text \<open>The value last written to a register since the last reset.\<close>

definition register_write :: "byte \<Rightarrow> byte list \<Rightarrow> byte option \<Rightarrow> byte option" where
  "register_write addr cmd v =
     (if cmd = [DEVICE_RESET] then None
      else if length cmd = 3 \<and> cmd ! 0 = WRITE_STATUS_REGISTER_L \<and> cmd ! 1 = addr then Some (cmd ! 2) else v)"

definition last_written :: "byte \<Rightarrow> bus \<Rightarrow> byte option" where
  "last_written addr h = fold (register_write addr) (commands h) None"

definition unprotected :: "bus \<Rightarrow> bool" where
  "unprotected h \<longleftrightarrow> last_written STATUS_REGISTER_1_ADDR h = Some 0"

text \<open>The buffer read mode, with the one-time-programmable area not selected (bit 6).\<close>

definition buffer_mode :: "bus \<Rightarrow> bool" where
  "buffer_mode h \<longleftrightarrow> (\<exists>v. last_written STATUS_REGISTER_2_ADDR h = Some v \<and>
     v AND 0x40 = 0 \<and> v AND STATUS_REGISTER_2_BUF \<noteq> 0)"

section \<open>Which events leave the array and the buffer alone\<close>

abbreviation (input) quiet_codes :: "byte set" where
  "quiet_codes \<equiv> {READ_STATUS_REGISTER_L, WRITE_STATUS_REGISTER_L, WRITE_ENABLE, WRITE_DISABLE, JEDEC_ID, READ_DATA}"

fun quiet :: "bus_event \<Rightarrow> bool" where
  "quiet (Tx bs) \<longleftrightarrow> bs \<noteq> [] \<and> hd bs \<in> quiet_codes"
| "quiet e \<longleftrightarrow> True"

fun keeps_array :: "bus_event \<Rightarrow> bool" where
  "keeps_array (Tx bs) \<longleftrightarrow> bs \<noteq> [] \<and> hd bs \<in> quiet_codes \<union> {DEVICE_RESET, PG_DATA_READ, RANDOM_PG_DATA_LOAD}"
| "keeps_array e \<longleftrightarrow> True"

definition replace_page :: "flash_image \<Rightarrow> nat \<Rightarrow> nat \<Rightarrow> byte list \<Rightarrow> flash_image" where
  "replace_page f b p bs = f(b := (f b)(p := bs))"

text \<open>Programming can only clear bits: what was in the page stays where the new data has ones.\<close>

definition overlay :: "byte list \<Rightarrow> byte list \<Rightarrow> byte list" where
  "overlay old new = map2 (AND) old new"

lemma length_overlay [simp]: "length (overlay old new) = min (length old) (length new)"
  by (simp add: overlay_def)

lemma overlay_blank: "length new = PAGE_SIZE \<Longrightarrow> overlay blank_page new = new"
proof -
  assume l: "length new = PAGE_SIZE"
  have m: "0xFF = (- 1 :: byte)" by simp
  have "0xFF AND x = x" for x :: byte unfolding m by simp
  then show ?thesis using l by (intro nth_equalityI) (simp_all add: overlay_def blank_page_def)
qed

section \<open>The contract\<close>

locale nand_chip =
  fixes chip :: chip
    and arr :: "bus \<Rightarrow> flash_image"
    and cache :: "bus \<Rightarrow> byte list"
  assumes arr_length: "valid_pos b p \<Longrightarrow> length (arr h b p) = PAGE_SIZE"
    and cache_length: "length (cache h) = 2112"
    and arr_kept: "list_all keeps_array es \<Longrightarrow> same_flash (arr (h @ es)) (arr h)"
    and cache_kept: "list_all quiet es \<Longrightarrow> cache (h @ es) = cache h"
    and load: "idle_after h \<Longrightarrow> length data \<le> 2112 \<Longrightarrow>
      cache (instr ([RANDOM_PG_DATA_LOAD, 0, 0] @ data) h) = data @ drop (length data) (cache h)"
    and page_read: "idle_after h \<Longrightarrow> buffer_mode h \<Longrightarrow> valid_pos (unat block) (unat page) \<Longrightarrow>
      take PAGE_SIZE (cache (instr (PG_DATA_READ # row_bytes block page) h)) = arr h (unat block) (unat page)"
    and program: "armed_after h \<Longrightarrow> guard_after h = (False, Some st) \<Longrightarrow> write_enabled st \<Longrightarrow> unprotected h \<Longrightarrow>
      valid_pos (unat block) (unat page) \<Longrightarrow>
      same_flash (arr (instr (PG_EXECUTE # row_bytes block page) h))
        (replace_page (arr h) (unat block) (unat page) (overlay (arr h (unat block) (unat page)) (take PAGE_SIZE (cache h))))"
    and erase: "armed_after h \<Longrightarrow> guard_after h = (False, Some st) \<Longrightarrow> write_enabled st \<Longrightarrow> unprotected h \<Longrightarrow>
      unat block < BLOCK_COUNT \<Longrightarrow>
      same_flash (arr (instr (BLOCK_ERASE # row_bytes block 0) h)) ((arr h)(unat block := (\<lambda>p. blank_page)))"
    and read_data: "idle_after h \<Longrightarrow> buffer_mode h \<Longrightarrow> i < 2112 \<Longrightarrow>
      rx_byte chip (h @ [Cs False, Tx [READ_DATA, 0, 0, 0]]) i = cache h ! i"
    and protection: "unprotected h \<Longrightarrow> rx_byte chip (h @ [Cs False, Tx [READ_STATUS_REGISTER_L, STATUS_REGISTER_1_ADDR]]) 0 = 0"
    and jedec: "i < 3 \<Longrightarrow> rx_byte chip (h @ [Cs False, Tx [JEDEC_ID, 0]]) i = [0xEF, 0xAA, 0x21] ! i"

section \<open>Lemmas on histories\<close>

lemma last_written_append:
  "last_written addr (h @ es) = fold (register_write addr) (commands es) (last_written addr h)"
  by (simp add: last_written_def)

lemma commands_status: "list_all status_event es \<Longrightarrow> commands es = []"
  by (induction es rule: commands.induct) auto

lemma status_quiet: "list_all status_event es \<Longrightarrow> list_all quiet es"
  by (induction es) (auto elim: status_event.elims)

lemma quiet_keeps_array: "quiet e \<Longrightarrow> keeps_array e"
  by (cases e) auto

lemma quiet_list_keeps: "list_all quiet es \<Longrightarrow> list_all keeps_array es"
  by (auto simp: list_all_iff quiet_keeps_array)

lemma last_written_instr [simp]:
  "\<not> register_read cmd \<Longrightarrow> last_written addr (instr cmd h) = register_write addr cmd (last_written addr h)"
  by (simp add: last_written_append instr_def)

lemma last_written_query [simp]:
  "last_written addr (h @ [Cs False, Tx cmd, Rx bs, Cs True]) =
     (if register_read cmd then last_written addr h else register_write addr cmd (last_written addr h))"
  by (simp add: last_written_append)

lemma idle_query [simp]:
  "cmd \<noteq> [] \<Longrightarrow> hd cmd \<notin> {DEVICE_RESET, PG_DATA_READ, PG_EXECUTE, BLOCK_ERASE} \<Longrightarrow>
   idle_after h \<Longrightarrow> idle_after (h @ [Cs False, Tx cmd, Rx bs, Cs True])"
  by (cases "chip_after h") (simp add: idle_after_def chip_after_append)

lemma status_armed: "list_all status_event es \<Longrightarrow> armed_after (h @ es) = armed_after h"
proof (induction es rule: rev_induct)
  case (snoc e es)
  obtain q i a where c: "chip_after (h @ es) = (q, i, a)" by (cases "chip_after (h @ es)")
  have "chip_after (h @ es @ [e]) = chip_step (q, i, a) e"
    using chip_after_append [of "h @ es" "[e]"] by (simp add: c)
  then have "armed_after (h @ es @ [e]) = armed_after (h @ es)"
    using snoc.prems by (cases e) (simp_all add: armed_after_def c)
  then show ?case using snoc by simp
qed simp

lemma replace_same_flash: "same_flash f g \<Longrightarrow> same_flash (replace_page f b p bs) (replace_page g b p bs)"
  by (simp add: same_flash_def replace_page_def)

section \<open>Steps that leave the chip alone\<close>

context nand_chip
begin

text \<open>On a blank page, programming stores the data.\<close>

lemma execute:
  assumes "armed_after h" and "guard_after h = (False, Some st)" and "write_enabled st" and "unprotected h"
    and "valid_pos (unat block) (unat page)" and blank: "arr h (unat block) (unat page) = blank_page"
  shows "same_flash (arr (instr (PG_EXECUTE # row_bytes block page) h))
    (replace_page (arr h) (unat block) (unat page) (take PAGE_SIZE (cache h)))"
  using program [OF assms(1-5)] cache_length [of h] by (simp add: blank overlay_blank)

text \<open>What a step leaves as it was.\<close>

definition same_chip :: "bus \<Rightarrow> bus \<Rightarrow> bool" where
  "same_chip h h' \<longleftrightarrow> same_flash (arr h') (arr h) \<and> cache h' = cache h \<and> commands h' = commands h"

lemma events_same_chip: "list_all quiet es \<Longrightarrow> commands es = [] \<Longrightarrow> same_chip h (h @ es)"
  by (simp add: same_chip_def arr_kept cache_kept quiet_list_keeps)

lemma same_chipD:
  assumes "same_chip h h'"
  shows "same_flash (arr h') (arr h)" "cache h' = cache h" "last_written addr h' = last_written addr h"
    "unprotected h' = unprotected h" "buffer_mode h' = buffer_mode h"
  using assms by (auto simp: same_chip_def unprotected_def buffer_mode_def last_written_def)

text \<open>A quiet instruction changes neither array nor buffer; only the registers.\<close>

lemma quiet_instr:
  assumes "bus_ok h" and "cmd \<noteq> []" and "hd cmd \<in> {WRITE_STATUS_REGISTER_L, WRITE_ENABLE}"
  shows "bus_ok (instr cmd h)" "same_flash (arr (instr cmd h)) (arr h)" "cache (instr cmd h) = cache h"
    "last_written addr (instr cmd h) = register_write addr cmd (last_written addr h)"
proof -
  obtain c bs where cmd: "cmd = c # bs" using assms(2) by (cases cmd) simp_all
  then have "\<not> register_read cmd" "\<not> changes_array cmd" using assms(3) by (auto simp: changes_array_def)
  then show "bus_ok (instr cmd h)" "last_written addr (instr cmd h) = register_write addr cmd (last_written addr h)"
    using instr_ok [OF assms(1), of cmd] by simp_all
  have q: "list_all quiet [Cs False, Tx cmd, Cs True]" using assms(2,3) by auto
  show "same_flash (arr (instr cmd h)) (arr h)" "cache (instr cmd h) = cache h"
    unfolding instr_def by (rule arr_kept [OF quiet_list_keeps [OF q]]) (rule cache_kept [OF q])
qed

lemma unprotect_instr: "last_written STATUS_REGISTER_1_ADDR (instr [WRITE_STATUS_REGISTER_L, STATUS_REGISTER_1_ADDR, 0] h) = Some 0"
  by (simp add: register_write_def)

lemma enable_unprotected: "unprotected (instr [WRITE_ENABLE] h) = unprotected h"
  by (simp add: unprotected_def register_write_def)

lemma query_same_chip:
  "quiet (Tx cmd) \<Longrightarrow> register_read cmd \<Longrightarrow> same_chip h (h @ [Cs False, Tx cmd, Rx bs, Cs True])"
  by (rule events_same_chip) simp_all

end

section \<open>Polling a chip\<close>

text \<open>A driver that reads the status with \<open>rd\<close>, sleeping \<open>us\<close> microseconds between two reads, on a chip whose operations end.\<close>

locale polled_chip = nand_chip chip arr cache + status_reader rd
  for chip :: chip and arr :: "bus \<Rightarrow> flash_image" and cache :: "bus \<Rightarrow> byte list" and rd :: "byte \<Rightarrow> bus \<Rightarrow> byte \<times> bus" +
  fixes us :: nat
  assumes polls_end: "live (sleeping us) rd"
begin

lemma polled_same:
  assumes "poll ready us rd st h = Some (st', h')"
  shows "same_chip h h'" "armed_after h' = armed_after h"
proof -
  obtain es where h': "h' = h @ es" and es: "list_all status_event es" using wait_events [OF assms] by blast
  show "same_chip h h'" unfolding h' using events_same_chip [OF status_quiet [OF es] commands_status [OF es]] .
  show "armed_after h' = armed_after h" unfolding h' by (rule status_armed [OF es])
qed

lemma idle_poll:
  assumes "bus_ok h"
  shows "\<exists>st' h'. poll not_busy us rd st h = Some (st', h') \<and> bus_ok h' \<and> idle_after h' \<and> same_chip h h'"
  using idle_wait [OF polls_end assms, of st] polled_same(1) by blast

text \<open>A write-enable sent to an idle chip, and the wait for it.\<close>

lemma enable_poll:
  assumes "bus_ok h" and "idle_after h"
  shows "\<exists>st' h'. poll write_enabled us rd st (instr [WRITE_ENABLE] h) = Some (st', h') \<and> bus_ok h' \<and> idle_after h' \<and>
    same_chip (instr [WRITE_ENABLE] h) h' \<and> armed_after h' \<and> guard_after h' = (False, Some st') \<and> write_enabled st'"
proof -
  have "bus_ok (instr [WRITE_ENABLE] h)" using instr_ok [OF assms(1), of "[WRITE_ENABLE]"] by simp
  moreover have "armed_after (instr [WRITE_ENABLE] h)" using assms(2) by simp
  ultimately show ?thesis using enabled_wait [OF polls_end, of "instr [WRITE_ENABLE] h" st] polled_same by blast
qed

end

end
