(* ===== verification/Driver_Rp2040.thy ===== *)
theory Driver_Rp2040
  imports Spi_Bus
begin

text \<open>
  The RP2040 driver (\<open>sw/child/src/drivers/rp2040\<close>): every instruction is written to the bus between
  two changes of the chip select; the status register 3 is polled before the next one. The calls of
  the pico SDK are events of the bus, and \<open>spi_read_blocking\<close> takes its bytes from the chip. A pointer
  that may be \<open>NULL\<close> is an option.
\<close>

section \<open>rp2040_spi.cc\<close>

definition rp_query :: "chip \<Rightarrow> byte list \<Rightarrow> nat \<Rightarrow> bus \<Rightarrow> byte list \<times> bus" where
  "rp_query chip cmd n h =
     (let bs = rx_bytes chip (h @ [Cs False, Tx cmd]) n in (bs, h @ [Cs False, Tx cmd, Rx bs, Cs True]))"

definition rp_register :: "chip \<Rightarrow> byte \<Rightarrow> byte option \<Rightarrow> bus \<Rightarrow> byte option \<times> bus" where
  "rp_register chip addr flg h =
     (case flg of
        None \<Rightarrow> (None, h)
      | Some old \<Rightarrow> (case rp_query chip [READ_STATUS_REGISTER_L, addr] 1 h of (bs, h') \<Rightarrow> (Some (hd bs), h')))"

definition rp_read_registers ::
  "chip \<Rightarrow> byte option \<Rightarrow> byte option \<Rightarrow> byte option \<Rightarrow> bus \<Rightarrow> (byte option \<times> byte option \<times> byte option) \<times> bus" where
  "rp_read_registers chip flg_protected flg_config flg_status h =
     (case rp_register chip STATUS_REGISTER_1_ADDR flg_protected h of (p, h1) \<Rightarrow>
      case rp_register chip STATUS_REGISTER_2_ADDR flg_config h1 of (c, h2) \<Rightarrow>
      case rp_register chip STATUS_REGISTER_3_ADDR flg_status h2 of (s, h3) \<Rightarrow> ((p, c, s), h3))"

definition rp_status :: "chip \<Rightarrow> byte \<Rightarrow> bus \<Rightarrow> byte \<times> bus" where
  "rp_status chip st h =
     (case rp_read_registers chip None None (Some st) h of ((p, c, s), h') \<Rightarrow> (the s, h'))"

text \<open>The two loops: until not busy, and until not busy and write enabled.\<close>

definition rp_wait :: "(byte \<Rightarrow> bool) \<Rightarrow> chip \<Rightarrow> byte \<times> bus \<Rightarrow> (byte \<times> bus) res" where
  "rp_wait ready chip = (\<lambda>(st, h). of_option Spins (poll ready 1000 (rp_status chip) st h))"

definition rp_blink :: "nat \<Rightarrow> bus \<Rightarrow> bus" where
  "rp_blink ms h = h @ concat (replicate 5 [Hw ''led'' [1], Delay (ms * 1000), Hw ''led'' [0], Delay (ms * 1000)])"

definition rp_create_spi :: "chip \<Rightarrow> bus \<Rightarrow> (int \<times> bus) res" where
  "rp_create_spi chip h0 =
     (let h1 = rp_blink 200 (h0 @ [Hw ''spi_init'' [8000000], Hw ''spi_set_slave'' [0], Hw ''spi_set_format'' [8, 0, 0],
            Hw ''gpio_set_function'' [18], Hw ''gpio_set_function'' [19], Hw ''gpio_set_function'' [16]]) in
      bindR (rp_wait not_busy chip (0xFF, h1)) (\<lambda>(st, h).
      bindR (rp_wait not_busy chip (st, instr [DEVICE_RESET] h @ [Delay 1000])) (\<lambda>(st, h).
      case rp_query chip [JEDEC_ID, 0] 3 h of (jid, h) \<Rightarrow>
        if jid \<noteq> [0xEF, 0xAA, 0x21] then Inl Panic
        else bindR (rp_wait not_busy chip (st, instr [WRITE_STATUS_REGISTER_L, STATUS_REGISTER_1_ADDR, 0] h)) (\<lambda>(st, h).
             bindR (rp_wait write_enabled chip (st, instr [WRITE_ENABLE] h)) (\<lambda>(st, h).
             Inr (OK, h))))))"

definition rp_release_spi :: "bus \<Rightarrow> (int \<times> bus) res" where
  "rp_release_spi h = Inr (OK, h)"

section \<open>rp2040_gpio.cc\<close>

definition rp_create_gpio :: "bus \<Rightarrow> (int \<times> bus) res" where
  "rp_create_gpio h =
     Inr (OK, rp_blink 100 (h @ [Hw ''gpio_init'' [17], Hw ''gpio_set_dir'' [17, 1], Cs True,
       Hw ''gpio_init'' [14], Hw ''gpio_set_dir'' [14, 1], Hw ''gpio_put'' [14, 0],
       Hw ''gpio_init'' [15], Hw ''gpio_set_dir'' [15, 1], Hw ''gpio_put'' [15, 1]]))"

definition rp_release_gpio :: "bus \<Rightarrow> (int \<times> bus) res" where
  "rp_release_gpio h = Inr (OK, h)"

section \<open>Read, write, erase\<close>

definition rp_read :: "chip \<Rightarrow> bus \<Rightarrow> u16 \<Rightarrow> u16 \<Rightarrow> byte list \<Rightarrow> u16 \<Rightarrow> (int \<times> byte list \<times> bus) res" where
  "rp_read chip h block page buffer bufferlen =
     bindR (rp_wait not_busy chip (0xFF, h)) (\<lambda>(st, h).
     case rp_read_registers chip (Some 0xFF) None None h of ((p, c, s), h) \<Rightarrow>
     bindR (rp_wait not_busy chip (st, h)) (\<lambda>(st, h).
     bindR (rp_wait not_busy chip
       (st, instr [WRITE_STATUS_REGISTER_L, STATUS_REGISTER_2_ADDR, read_mode (the p)] h)) (\<lambda>(st, h).
     bindR (rp_wait not_busy chip (st, instr (PG_DATA_READ # row_bytes block page) h)) (\<lambda>(st, h).
     case rp_query chip [READ_DATA, 0, 0, 0] (unat bufferlen) h of (bs, h) \<Rightarrow>
     bindR (mem_write buffer 0 bs) (\<lambda>buffer'. Inr (OK, buffer', h))))))"

text \<open>The instruction buffer has \<open>PAGE_SIZE + 64\<close> bytes; exactly \<open>PAGE_SIZE + 3\<close> of them are always sent.\<close>

definition rp_load :: "byte list \<Rightarrow> byte list" where
  "rp_load data = take (PAGE_SIZE + 3) ([RANDOM_PG_DATA_LOAD, 0, 0] @ data @ replicate (PAGE_SIZE + 61 - length data) 0)"

definition rp_write :: "chip \<Rightarrow> bus \<Rightarrow> u16 \<Rightarrow> u16 \<Rightarrow> byte list \<Rightarrow> u16 \<Rightarrow> (int \<times> bus) res" where
  "rp_write chip h block page buffer bufferlen =
     (if unat bufferlen > PAGE_SIZE + 61 then Inr (ERR, h)
      else bindR (rp_wait not_busy chip (0xFF, h)) (\<lambda>(st, h).
      bindR (rp_wait not_busy chip (st, instr [WRITE_STATUS_REGISTER_L, STATUS_REGISTER_1_ADDR, 0] h)) (\<lambda>(st, h).
      bindR (rp_wait write_enabled chip (st, instr [WRITE_ENABLE] h)) (\<lambda>(st, h).
      bindR (mem_read buffer 0 (unat bufferlen)) (\<lambda>data.
      bindR (rp_wait not_busy chip (st, instr (rp_load data) h)) (\<lambda>(st, h).
      bindR (rp_wait write_enabled chip (st, instr [WRITE_ENABLE] h)) (\<lambda>(st, h).
      bindR (rp_wait not_busy chip (st, instr (PG_EXECUTE # row_bytes block page) h)) (\<lambda>(st, h).
      Inr (OK, h)))))))))"

definition rp_erase :: "chip \<Rightarrow> bus \<Rightarrow> u16 \<Rightarrow> (int \<times> bus) res" where
  "rp_erase chip h block =
     bindR (rp_wait not_busy chip (0xFF, h)) (\<lambda>(st, h).
     bindR (rp_wait write_enabled chip (st, instr [WRITE_ENABLE] h)) (\<lambda>(st, h).
     bindR (rp_wait not_busy chip (st, instr [WRITE_STATUS_REGISTER_L, STATUS_REGISTER_1_ADDR, 0] h)) (\<lambda>(st, h).
     bindR (rp_wait write_enabled chip (st, instr [WRITE_ENABLE] h)) (\<lambda>(st, h).
     bindR (rp_wait not_busy chip (st, instr (BLOCK_ERASE # row_bytes block 0) h)) (\<lambda>(st, h).
     Inr (OK, h))))))"

definition rp_driver :: "chip \<Rightarrow> bus driver" where
  "rp_driver chip =
     \<lparr>drv_read = rp_read chip, drv_write = rp_write chip, drv_erase = rp_erase chip,
      drv_create_gpio = rp_create_gpio, drv_release_gpio = rp_release_gpio,
      drv_create_spi = rp_create_spi chip, drv_release_spi = rp_release_spi\<rparr>"

section \<open>What an operation leaves on the bus\<close>

lemma rp_status_eq:
  "rp_status chip st h = (let b = hd (rx_bytes chip (h @ [Cs False, Tx [READ_STATUS_REGISTER_L, STATUS_REGISTER_3_ADDR]]) 1) in
     (b, h @ [Cs False, Tx [READ_STATUS_REGISTER_L, STATUS_REGISTER_3_ADDR], Rx [b], Cs True]))"
  by (simp add: rp_status_def rp_read_registers_def rp_register_def rp_query_def Let_def rx_bytes_def)

interpretation rp: status_reader "rp_status chip"
  by unfold_locales (simp add: rp_status_eq Let_def)

lemma rp_wait_result:
  assumes "rp_wait ready chip (st, h) = Inr (st', h')" and "bus_ok h"
  shows "ready st' \<and> bus_ok h' \<and> commands h' = commands h \<and> guard_after h' = (False, Some st')"
  using rp.wait_result [OF _ assms(2), of ready 1000 chip st st' h'] assms(1)
  by (auto simp: rp_wait_def of_option_def split: option.splits)

lemma rp_query_ok:
  assumes "bus_ok h" and "\<not> changes_array cmd" and "rp_query chip cmd n h = (bs, h')"
  shows "bus_ok h' \<and> commands h' = commands h @ (if register_read cmd then [] else [cmd]) \<and> length bs = n"
  using assms(3) query_ok [OF assms(1,2)] by (auto simp: rp_query_def Let_def rx_bytes_def)

text \<open>The instructions of an erase and of a write, in order.\<close>

definition erase_commands :: "u16 \<Rightarrow> byte list list" where
  "erase_commands block =
     [[WRITE_ENABLE], [WRITE_STATUS_REGISTER_L, STATUS_REGISTER_1_ADDR, 0], [WRITE_ENABLE], BLOCK_ERASE # row_bytes block 0]"

definition write_commands :: "u16 \<Rightarrow> u16 \<Rightarrow> byte list \<Rightarrow> byte list list" where
  "write_commands block page data =
     [[WRITE_STATUS_REGISTER_L, STATUS_REGISTER_1_ADDR, 0], [WRITE_ENABLE], rp_load data, [WRITE_ENABLE],
      PG_EXECUTE # row_bytes block page]"

lemma rp_erase_trace:
  assumes "rp_erase chip h block = Inr (ret, h')" and "bus_ok h"
  shows "ret = OK \<and> bus_ok h' \<and> commands h' = commands h @ erase_commands block"
proof -
  from assms(1) obtain s1 h1 s2 h2 s3 h3 s4 h4 s5 where
    w1: "rp_wait not_busy chip (0xFF, h) = Inr (s1, h1)"
    and w2: "rp_wait write_enabled chip (s1, instr [WRITE_ENABLE] h1) = Inr (s2, h2)"
    and w3: "rp_wait not_busy chip (s2, instr [WRITE_STATUS_REGISTER_L, STATUS_REGISTER_1_ADDR, 0] h2) = Inr (s3, h3)"
    and w4: "rp_wait write_enabled chip (s3, instr [WRITE_ENABLE] h3) = Inr (s4, h4)"
    and w5: "rp_wait not_busy chip (s4, instr (BLOCK_ERASE # row_bytes block 0) h4) = Inr (s5, h')"
    and ret: "ret = OK"
    by (auto simp: rp_erase_def bindR_eq_Inr)
  note a1 = rp_wait_result [OF w1 assms(2)]
  note c1 = instr_ok [of h1 "[WRITE_ENABLE]"]
  note a2 = rp_wait_result [OF w2]
  note c2 = instr_ok [of h2 "[WRITE_STATUS_REGISTER_L, STATUS_REGISTER_1_ADDR, 0]"]
  note a3 = rp_wait_result [OF w3]
  note c3 = instr_ok [of h3 "[WRITE_ENABLE]"]
  note a4 = rp_wait_result [OF w4]
  note c4 = instr_ok [of h4 "BLOCK_ERASE # row_bytes block 0"]
  note a5 = rp_wait_result [OF w5]
  show ?thesis using a1 c1 a2 c2 a3 c3 a4 c4 a5 ret by (simp add: erase_commands_def)
qed

lemma rp_load_head: "\<exists>bs. rp_load data = RANDOM_PG_DATA_LOAD # bs"
  by (simp add: rp_load_def)

lemma rp_write_trace:
  assumes "rp_write chip h block page buffer n = Inr (ret, h')" and "bus_ok h" and n: "unat n \<le> PAGE_SIZE + 61"
  shows "ret = OK \<and> bus_ok h' \<and> commands h' = commands h @ write_commands block page (take (unat n) buffer)"
proof -
  let ?un = "[WRITE_STATUS_REGISTER_L, STATUS_REGISTER_1_ADDR, 0]"
  from assms(1) n obtain s1 h1 s2 h2 s3 h3 data s4 h4 s5 h5 s6 where
    w1: "rp_wait not_busy chip (0xFF, h) = Inr (s1, h1)"
    and w2: "rp_wait not_busy chip (s1, instr ?un h1) = Inr (s2, h2)"
    and w3: "rp_wait write_enabled chip (s2, instr [WRITE_ENABLE] h2) = Inr (s3, h3)"
    and rd: "mem_read buffer 0 (unat n) = Inr data"
    and w4: "rp_wait not_busy chip (s3, instr (rp_load data) h3) = Inr (s4, h4)"
    and w5: "rp_wait write_enabled chip (s4, instr [WRITE_ENABLE] h4) = Inr (s5, h5)"
    and w6: "rp_wait not_busy chip (s5, instr (PG_EXECUTE # row_bytes block page) h5) = Inr (s6, h')"
    and ret: "ret = OK"
    by (auto simp: rp_write_def bindR_eq_Inr)
  have data: "data = take (unat n) buffer" using rd by (simp add: mem_read_eq_Inr)
  have load: "\<not> changes_array (rp_load data)" "\<not> register_read (rp_load data)"
    using rp_load_head [of data] by auto
  note a1 = rp_wait_result [OF w1 assms(2)]
  note c1 = instr_ok [of h1 ?un]
  note a2 = rp_wait_result [OF w2]
  note c2 = instr_ok [of h2 "[WRITE_ENABLE]"]
  note a3 = rp_wait_result [OF w3]
  note c3 = instr_ok [of h3 "rp_load data"]
  note a4 = rp_wait_result [OF w4]
  note c4 = instr_ok [of h4 "[WRITE_ENABLE]"]
  note a5 = rp_wait_result [OF w5]
  note c5 = instr_ok [of h5 "PG_EXECUTE # row_bytes block page"]
  note a6 = rp_wait_result [OF w6]
  show ?thesis using a1 c1 a2 c2 a3 c3 a4 c4 a5 c5 a6 load ret data by (simp add: write_commands_def)
qed

lemma rp_protected_eq:
  "rp_read_registers chip (Some x) None None h =
     (case rp_query chip [READ_STATUS_REGISTER_L, STATUS_REGISTER_1_ADDR] 1 h of (bs, h') \<Rightarrow> ((Some (hd bs), None, None), h'))"
  by (simp add: rp_read_registers_def rp_register_def split: prod.splits)

lemma rp_read_trace:
  assumes "rp_read chip h block page buffer n = Inr (ret, buffer', h')" and "bus_ok h"
  shows "ret = OK \<and> bus_ok h' \<and> (\<exists>p bs. commands h' = commands h @ read_commands block page p \<and>
    length bs = unat n \<and> buffer' = bs @ drop (unat n) buffer)"
proof -
  obtain b1 h2 where q1: "rp_query chip [READ_STATUS_REGISTER_L, STATUS_REGISTER_1_ADDR] (Suc 0) k = (b1 k, h2 k)" for k
    by (rule that [of "\<lambda>k. fst (rp_query chip [READ_STATUS_REGISTER_L, STATUS_REGISTER_1_ADDR] (Suc 0) k)"
          "\<lambda>k. snd (rp_query chip [READ_STATUS_REGISTER_L, STATUS_REGISTER_1_ADDR] (Suc 0) k)"]) simp
  obtain bs h7 where q2: "rp_query chip [READ_DATA, 0, 0, 0] (unat n) k = (bs k, h7 k)" for k
    by (rule that [of "\<lambda>k. fst (rp_query chip [READ_DATA, 0, 0, 0] (unat n) k)"
          "\<lambda>k. snd (rp_query chip [READ_DATA, 0, 0, 0] (unat n) k)"]) simp
  let ?rm = "\<lambda>p. [WRITE_STATUS_REGISTER_L, STATUS_REGISTER_2_ADDR, read_mode p]"
  from assms(1) obtain s1 h1 s3 h3 s4 h4 s5 h5 where
    w1: "rp_wait not_busy chip (0xFF, h) = Inr (s1, h1)"
    and w3: "rp_wait not_busy chip (s1, h2 h1) = Inr (s3, h3)"
    and w4: "rp_wait not_busy chip (s3, instr (?rm (hd (b1 h1))) h3) = Inr (s4, h4)"
    and w5: "rp_wait not_busy chip (s4, instr (PG_DATA_READ # row_bytes block page) h4) = Inr (s5, h5)"
    and wr: "mem_write buffer 0 (bs h5) = Inr buffer'" and h': "h' = h7 h5" and ret: "ret = OK"
    by (auto simp: rp_read_def bindR_eq_Inr rp_protected_eq q1 q2)
  note a1 = rp_wait_result [OF w1 assms(2)]
  note c1 = rp_query_ok [OF _ _ q1, of h1]
  note a3 = rp_wait_result [OF w3]
  note c3 = instr_ok [of h3 "?rm (hd (b1 h1))"]
  note a4 = rp_wait_result [OF w4]
  note c4 = instr_ok [of h4 "PG_DATA_READ # row_bytes block page"]
  note a5 = rp_wait_result [OF w5]
  note c5 = rp_query_ok [OF _ _ q2, of h5]
  have "commands h' = commands h @ read_commands block page (hd (b1 h1)) \<and> bus_ok h' \<and> length (bs h5) = unat n"
    using a1 c1 a3 c3 a4 c4 a5 c5 h' by (simp add: read_commands_def)
  moreover have "buffer' = bs h5 @ drop (length (bs h5)) buffer" using wr by (simp add: mem_write_eq_Inr)
  ultimately show ?thesis using ret by auto
qed

section \<open>The operations return\<close>

abbreviation (input) rp_live :: "chip \<Rightarrow> bool" where
  "rp_live chip \<equiv> live (sleeping 1000) (rp_status chip)"

lemma rp_idle:
  assumes "rp_live chip" and "bus_ok h"
  shows "\<exists>st' h'. rp_wait not_busy chip (st, h) = Inr (st', h') \<and> idle_after h' \<and> bus_ok h'"
  using rp.idle_wait [OF assms, of st] by (auto simp: rp_wait_def of_option_def)

lemma rp_enabled:
  assumes "rp_live chip" and "bus_ok h" and "idle_after h"
  shows "\<exists>st' h'. rp_wait write_enabled chip (st, instr [WRITE_ENABLE] h) = Inr (st', h') \<and> idle_after h' \<and> bus_ok h' \<and>
    guard_after h' = (False, Some st') \<and> write_enabled st'"
proof -
  have "bus_ok (instr [WRITE_ENABLE] h)" using instr_ok [OF assms(2), of "[WRITE_ENABLE]"] by simp
  from rp.enabled_wait [OF assms(1) this, of st] assms(3) show ?thesis
    by (auto simp: rp_wait_def of_option_def)
qed

text \<open>Each step is one wait; what it needs of the history is what the step before leaves.\<close>

lemma rp_idle_instr:
  assumes "rp_live chip" and "bus_ok h" and "\<not> register_read cmd"
    and "changes_array cmd \<longrightarrow> (\<exists>st. guard_after h = (False, Some st) \<and> write_enabled st)"
  shows "\<exists>st' h'. rp_wait not_busy chip (st, instr cmd h) = Inr (st', h') \<and> idle_after h' \<and> bus_ok h'"
  using rp_idle [OF assms(1)] instr_ok [OF assms(2,4,3)] by blast

lemma rp_erase_returns:
  assumes "rp_live chip" and "bus_ok h"
  shows "\<exists>r. rp_erase chip h block = Inr r"
proof -
  obtain s1 h1 where 1: "rp_wait not_busy chip (0xFF, h) = Inr (s1, h1)" "idle_after h1" "bus_ok h1"
    using rp_idle [OF assms] by blast
  obtain s2 h2 where 2: "rp_wait write_enabled chip (s1, instr [WRITE_ENABLE] h1) = Inr (s2, h2)" "bus_ok h2"
    using rp_enabled [OF assms(1) 1(3,2)] by blast
  obtain s3 h3 where 3: "rp_wait not_busy chip (s2, instr [WRITE_STATUS_REGISTER_L, STATUS_REGISTER_1_ADDR, 0] h2) = Inr (s3, h3)"
      "idle_after h3" "bus_ok h3"
    using rp_idle_instr [OF assms(1) 2(2), where st = s2 and cmd = "[WRITE_STATUS_REGISTER_L, STATUS_REGISTER_1_ADDR, 0]"] by auto
  obtain s4 h4 where 4: "rp_wait write_enabled chip (s3, instr [WRITE_ENABLE] h3) = Inr (s4, h4)" "bus_ok h4"
      "guard_after h4 = (False, Some s4)" "write_enabled s4"
    using rp_enabled [OF assms(1) 3(3,2)] by blast
  obtain s5 h5 where 5: "rp_wait not_busy chip (s4, instr (BLOCK_ERASE # row_bytes block 0) h4) = Inr (s5, h5)"
    using rp_idle_instr [OF assms(1) 4(2), where st = s4 and cmd = "BLOCK_ERASE # row_bytes block 0"] 4(3,4) by auto
  show ?thesis by (simp add: rp_erase_def 1 2 3 4 5)
qed

lemma rp_write_returns:
  assumes "rp_live chip" and "bus_ok h" and n: "unat n \<le> PAGE_SIZE + 61" and len: "unat n \<le> length buffer"
  shows "\<exists>r. rp_write chip h block page buffer n = Inr r"
proof -
  obtain bs where load: "rp_load (take (unat n) buffer) = RANDOM_PG_DATA_LOAD # bs" using rp_load_head by blast
  obtain s1 h1 where 1: "rp_wait not_busy chip (0xFF, h) = Inr (s1, h1)" "bus_ok h1" using rp_idle [OF assms(1,2)] by blast
  obtain s2 h2 where 2: "rp_wait not_busy chip (s1, instr [WRITE_STATUS_REGISTER_L, STATUS_REGISTER_1_ADDR, 0] h1) = Inr (s2, h2)"
      "idle_after h2" "bus_ok h2"
    using rp_idle_instr [OF assms(1) 1(2), where st = s1 and cmd = "[WRITE_STATUS_REGISTER_L, STATUS_REGISTER_1_ADDR, 0]"] by auto
  obtain s3 h3 where 3: "rp_wait write_enabled chip (s2, instr [WRITE_ENABLE] h2) = Inr (s3, h3)" "bus_ok h3"
    using rp_enabled [OF assms(1) 2(3,2)] by blast
  obtain s4 h4 where 4: "rp_wait not_busy chip (s3, instr (rp_load (take (unat n) buffer)) h3) = Inr (s4, h4)" "idle_after h4" "bus_ok h4"
    using rp_idle_instr [OF assms(1) 3(2), where st = s3 and cmd = "rp_load (take (unat n) buffer)"] by (auto simp: load)
  obtain s5 h5 where 5: "rp_wait write_enabled chip (s4, instr [WRITE_ENABLE] h4) = Inr (s5, h5)" "bus_ok h5"
      "guard_after h5 = (False, Some s5)" "write_enabled s5"
    using rp_enabled [OF assms(1) 4(3,2)] by blast
  obtain s6 h6 where 6: "rp_wait not_busy chip (s5, instr (PG_EXECUTE # row_bytes block page) h5) = Inr (s6, h6)"
    using rp_idle_instr [OF assms(1) 5(2), where st = s5 and cmd = "PG_EXECUTE # row_bytes block page"] 5(3,4) by auto
  have m: "mem_read buffer 0 (unat n) = Inr (take (unat n) buffer)" using len by (simp add: mem_read_def)
  show ?thesis using n by (simp add: rp_write_def m 1 2 3 4 5 6)
qed

lemma rp_read_returns:
  assumes "rp_live chip" and "bus_ok h" and len: "unat n \<le> length buffer"
  shows "\<exists>r. rp_read chip h block page buffer n = Inr r"
proof -
  obtain s1 h1 where 1: "rp_wait not_busy chip (0xFF, h) = Inr (s1, h1)" "bus_ok h1" using rp_idle [OF assms(1,2)] by blast
  obtain bs k1 where q: "rp_query chip [READ_STATUS_REGISTER_L, STATUS_REGISTER_1_ADDR] 1 h1 = (bs, k1)" by fastforce
  have "bus_ok k1" using rp_query_ok [OF 1(2) _ q] by simp
  then obtain s2 h2 where 2: "rp_wait not_busy chip (s1, k1) = Inr (s2, h2)" "bus_ok h2" using rp_idle [OF assms(1)] by blast
  let ?rm = "[WRITE_STATUS_REGISTER_L, STATUS_REGISTER_2_ADDR, read_mode (hd bs)]"
  obtain s3 h3 where 3: "rp_wait not_busy chip (s2, instr ?rm h2) = Inr (s3, h3)" "bus_ok h3"
    using rp_idle_instr [OF assms(1) 2(2), where st = s2 and cmd = ?rm] by auto
  obtain s4 h4 where 4: "rp_wait not_busy chip (s3, instr (PG_DATA_READ # row_bytes block page) h3) = Inr (s4, h4)" "bus_ok h4"
    using rp_idle_instr [OF assms(1) 3(2), where st = s3 and cmd = "PG_DATA_READ # row_bytes block page"] by auto
  obtain ds k4 where q4: "rp_query chip [READ_DATA, 0, 0, 0] (unat n) h4 = (ds, k4)" by fastforce
  have "length ds = unat n" using rp_query_ok [OF 4(2) _ q4] by simp
  then have "mem_write buffer 0 ds = Inr (ds @ drop (unat n) buffer)" using len by (simp add: mem_write_def)
  then show ?thesis using q by (simp add: rp_read_def rp_protected_eq 1 2 3 4 q4)
qed

end
