(* ===== verification/Mxfs_Flush.thy ===== *)
theory Mxfs_Flush
  imports Flash_Driver
begin

text \<open>
  \<open>mxfs_flush\<close> (\<open>sw/child/src/mxfs_flush.cc\<close>): the buffered samples of every layer are encoded into the
  work buffer, the layer buffers are emptied, the current block is erased first where it is marked,
  the page is written, and the write position advances. The work buffer is filled from its start
  without gaps, so it is the list of the bytes written so far, bounded by \<open>PAGE_SIZE\<close>.

  The counters that only feed the log lines (\<open>gyro_count\<close>, \<open>antp_count\<close>) are left out.
\<close>

section \<open>Encoding state\<close>

record flush_st =
  work_buffer :: "byte list"
  page_flags :: u32
  start_tmm :: u64
  last_tmm :: u64

definition flush_init :: flush_st where
  "flush_init = \<lparr>work_buffer = [], page_flags = 0, start_tmm = 0, last_tmm = 0\<rparr>"

definition work_put :: "byte list \<Rightarrow> byte list \<Rightarrow> byte list res" where
  "work_put wb bs = (if length wb + length bs \<le> PAGE_SIZE then Inr (wb @ bs) else Inl Out_of_bounds)"

definition add_flag :: "nat \<Rightarrow> flush_st \<Rightarrow> flush_st" where
  "add_flag layer st = st\<lparr>page_flags := page_flags st OR (page_flags_array ! layer)\<rparr>"

definition clear_layer :: "nat \<Rightarrow> 'p mxfs_inst \<Rightarrow> 'p mxfs_inst" where
  "clear_layer layer inst =
     inst\<lparr>mxfs_length := (mxfs_length inst)(layer := 0), mxfs_count := (mxfs_count inst)(layer := 0)\<rparr>"

text \<open>The bytes buffered, summed in a \<open>uint16_t\<close>: only zero or not zero matters.\<close>

definition flush_layer_bytes :: "nat \<Rightarrow> u16 \<Rightarrow> u16" where
  "flush_layer_bytes n c =
     (if n \<le> LAYER_ANTP_CADENCE then of_nat ANTP_RECORD_SIZE * c
      else if n \<le> LAYER_ACCELEROMETER then c * 3 * 2
      else c * 2)"

definition flush_current_length :: "'p mxfs_inst \<Rightarrow> u16" where
  "flush_current_length inst = fold (\<lambda>n acc. acc + flush_layer_bytes n (mxfs_count inst n)) [0..<LAYER_MAX] 0"

section \<open>Headers\<close>

definition header_msec :: "u64 \<Rightarrow> u32" where
  "header_msec tmm = ucast (tmm mod 1000) AND 0x3FF"

definition ant_header :: "nat \<Rightarrow> u64 \<Rightarrow> compress" where
  "ant_header layer tmm =
     set_ant_length (of_nat ANTP_RECORD_SIZE)
       (set_msec (header_msec tmm) (compress_init (ucast (tmm div 1000)) 0 (of_nat layer)))"

text \<open>The average sampling step of \<open>k\<close> samples, saturated after the cut to 32 bits.\<close>

definition sample_step :: "u64 \<Rightarrow> u64 \<Rightarrow> nat \<Rightarrow> u32" where
  "sample_step tmm lst k =
     (let q = ucast ((lst - tmm) div of_nat k) :: u32 in if q > 0xFFFF then 0xFFFF else q AND 0xFFFF)"

definition gyro_header :: "nat \<Rightarrow> u64 \<Rightarrow> u64 \<Rightarrow> nat \<Rightarrow> compress" where
  "gyro_header layer tmm lst k =
     set_gyr_base 0 (set_gyr_count (of_nat k) (set_gyr_dim 3
       (set_step (sample_step tmm lst k)
         (set_msec (header_msec tmm) (compress_init (ucast (tmm div 1000)) 1 (of_nat layer))))))"

definition temp_header :: "u64 \<Rightarrow> u64 \<Rightarrow> nat \<Rightarrow> compress" where
  "temp_header tmm lst k =
     set_step (sample_step tmm lst k) (set_tmp_base 0 (set_tmp_count (of_nat k)
       (set_msec (header_msec tmm) (compress_init (ucast (tmm div 1000)) 1 (of_nat LAYER_TEMPERATURE)))))"

section \<open>Encoding loops\<close>

text \<open>One header per ANT+ record.\<close>

function ant_loop :: "nat \<Rightarrow> byte list \<Rightarrow> nat \<Rightarrow> nat \<Rightarrow> flush_st \<Rightarrow> flush_st res" where
  "ant_loop layer buf len n st =
     (if n < len
      then let st1 = add_flag layer st in
           bindR (mem_read buf n 8) (\<lambda>tb.
           let tmm = le_word tb;
               st2 = st1\<lparr>start_tmm := (if start_tmm st1 = 0 then tmm else start_tmm st1), last_tmm := tmm\<rparr> in
           bindR (work_put (work_buffer st2) (compress_bytes (ant_header layer tmm))) (\<lambda>wb.
           bindR (mem_read buf (n + 8) ANTP_RECORD_SIZE) (\<lambda>d.
           bindR (work_put wb d) (\<lambda>wb'.
           ant_loop layer buf len (n + (ANTP_RECORD_SIZE + 8)) (st2\<lparr>work_buffer := wb'\<rparr>)))))
      else Inr st)"
  by pat_completeness auto
termination by (relation "measure (\<lambda>(layer, buf, len, n, st). len - n)") auto

text \<open>The timestamp of the last sample, from index \<open>n\<close> on.\<close>

function last_loop :: "nat \<Rightarrow> byte list \<Rightarrow> nat \<Rightarrow> nat \<Rightarrow> u64 \<Rightarrow> u64 res" where
  "last_loop sz buf len n lst =
     (if n < len
      then bindR (mem_read buf n 8) (\<lambda>tb. last_loop sz buf len (n + (sz + 8)) (le_word tb))
      else Inr lst)"
  by pat_completeness auto
termination by (relation "measure (\<lambda>(sz, buf, len, n, lst). len - n)") auto

text \<open>The samples without their timestamps.\<close>

function copy_loop :: "nat \<Rightarrow> byte list \<Rightarrow> nat \<Rightarrow> nat \<Rightarrow> byte list \<Rightarrow> byte list res" where
  "copy_loop sz buf len n wb =
     (if n < len
      then bindR (mem_read buf (n + 8) sz) (\<lambda>d.
           bindR (work_put wb d) (\<lambda>wb'.
           copy_loop sz buf len (n + (sz + 8)) wb'))
      else Inr wb)"
  by pat_completeness auto
termination by (relation "measure (\<lambda>(sz, buf, len, n, wb). len - n)") auto

declare ant_loop.simps [simp del] last_loop.simps [simp del] copy_loop.simps [simp del]

section \<open>Encoding the layers\<close>

definition flush_ant :: "nat \<Rightarrow> flush_st \<times> 'p mxfs_inst \<Rightarrow> (flush_st \<times> 'p mxfs_inst) res" where
  "flush_ant layer = (\<lambda>(st, inst).
     bindR (ant_loop layer (mxfs_buffer inst layer) (unat (mxfs_length inst layer)) 0 st) (\<lambda>st'.
     Inr (st', clear_layer layer inst)))"

definition flush_gyro :: "nat \<Rightarrow> flush_st \<times> 'p mxfs_inst \<Rightarrow> (flush_st \<times> 'p mxfs_inst) res" where
  "flush_gyro layer = (\<lambda>(st, inst).
     (let buf = mxfs_buffer inst layer; len = unat (mxfs_length inst layer);
          k = len div (GYRO_RECORD_SIZE + 8); st1 = add_flag layer st in
      if len > 0
      then bindR (mem_read buf 0 8) (\<lambda>tb.
           let tmm = le_word tb in
           bindR (last_loop GYRO_RECORD_SIZE buf len 0 (last_tmm st1)) (\<lambda>lst.
           if k = 0 then Inl Div_by_zero else
           bindR (work_put (work_buffer st1) (compress_bytes (gyro_header layer tmm lst k))) (\<lambda>wb.
           bindR (copy_loop GYRO_RECORD_SIZE buf len 0 wb) (\<lambda>wb'.
           Inr (st1\<lparr>work_buffer := wb', last_tmm := lst\<rparr>, clear_layer layer inst)))))
      else Inr (st, inst)))"

definition flush_temp :: "flush_st \<times> 'p mxfs_inst \<Rightarrow> (flush_st \<times> 'p mxfs_inst) res" where
  "flush_temp = (\<lambda>(st, inst).
     (let layer = LAYER_TEMPERATURE; buf = mxfs_buffer inst layer; len = unat (mxfs_length inst layer);
          k = len div (TEMPERATURE_RECORD_SIZE + 8); st1 = add_flag layer st in
      if len > 0
      then bindR (mem_read buf 0 8) (\<lambda>tb.
           let tmm = le_word tb in
           bindR (last_loop TEMPERATURE_RECORD_SIZE buf len (TEMPERATURE_RECORD_SIZE + 8) (last_tmm st1)) (\<lambda>lst.
           if k = 0 then Inl Div_by_zero else
           bindR (work_put (work_buffer st1) (compress_bytes (temp_header tmm lst k))) (\<lambda>wb.
           bindR (copy_loop TEMPERATURE_RECORD_SIZE buf len 0 wb) (\<lambda>wb'.
           Inr (st1\<lparr>work_buffer := wb', last_tmm := lst\<rparr>, clear_layer layer inst)))))
      else Inr (st, inst)))"

definition flush_encode :: "'p mxfs_inst \<Rightarrow> (flush_st \<times> 'p mxfs_inst) res" where
  "flush_encode inst =
     bindR (foldR flush_ant [LAYER_ANTP_SPEED, LAYER_ANTP_POWER, LAYER_ANTP_CADENCE] (flush_init, inst)) (\<lambda>s.
     bindR (foldR flush_gyro [LAYER_GYRO, LAYER_ACCELEROMETER] s) flush_temp)"

section \<open>Committing the page\<close>

definition flush_erase ::
  "'d driver \<Rightarrow> 'p mxfs_inst \<Rightarrow> 'd \<Rightarrow> (int \<times> 'p mxfs_inst \<times> 'd) res" where
  "flush_erase drv inst d =
     (let cb = mxfs_current_block inst; bs = blocks inst (unat cb) in
      if unat cb \<ge> BLOCK_COUNT then Inl Out_of_bounds
      else if bs_flags bs AND BLOCK_INVALID \<noteq> 0
      then bindR (drv_erase drv d cb) (\<lambda>(ret, d').
           Inr (if ret \<noteq> OK then ERR else OK,
                inst\<lparr>blocks := (blocks inst)(unat cb := bs\<lparr>bs_flags := bs_flags bs AND NOT BLOCK_INVALID\<rparr>)\<rparr>, d'))
      else Inr (OK, inst, d))"

definition mark_written :: "'p build \<Rightarrow> flush_st \<Rightarrow> 'p mxfs_inst \<Rightarrow> 'p mxfs_inst" where
  "mark_written cfg st inst =
     (let b = unat (mxfs_current_block inst); p = unat (mxfs_current_page inst); bs = blocks inst b in
      inst\<lparr>blocks := (blocks inst)(b := bs\<lparr>bs_pages :=
        (bs_pages bs)(p := mark_page cfg (page_flags st) (start_tmm st) (last_tmm st))\<rparr>)\<rparr>)"

definition advance :: "'p mxfs_inst \<Rightarrow> 'p mxfs_inst" where
  "advance inst =
     (let p = mxfs_current_page inst + 1 in
      if unat p \<ge> PAGE_COUNT
      then let b = mxfs_current_block inst + 1;
               b' = (if unat b \<ge> BLOCK_COUNT then of_nat BLOCK_START_DATA_AREA else b);
               bs = blocks inst (unat b') in
           inst\<lparr>mxfs_current_page := 0, mxfs_current_block := b',
                blocks := (blocks inst)(unat b' := bs\<lparr>bs_flags := bs_flags bs OR BLOCK_INVALID\<rparr>)\<rparr>
      else inst\<lparr>mxfs_current_page := p\<rparr>)"

definition mxfs_flush ::
  "'p build \<Rightarrow> 'd driver \<Rightarrow> 'p mxfs_inst \<Rightarrow> 'd \<Rightarrow> (int \<times> 'p mxfs_inst \<times> 'd) res" where
  "mxfs_flush cfg drv inst d =
     (if flush_current_length inst = 0 then Inr (OK, inst, d)
      else bindR (flush_encode inst) (\<lambda>(st, inst1).
           bindR (flush_erase drv inst1 d) (\<lambda>(r, inst2, d2).
           if r \<noteq> OK then Inr (ERR, inst2, d2)
           else bindR (drv_write drv d2 (mxfs_current_block inst2) (mxfs_current_page inst2)
                         (work_buffer st) (of_nat (length (work_buffer st)))) (\<lambda>(ret, d3).
                if ret = OK
                then if unat (mxfs_current_page inst2) < PAGE_COUNT
                     then Inr (ret, advance (mark_written cfg st inst2), d3)
                     else Inl Out_of_bounds
                else Inr (ret, inst2, d3)))))"

end
