(* ===== verification/Mxfs_Append.thy ===== *)
theory Mxfs_Append
  imports Mxfs_Flush
begin

text \<open>
  \<open>mxfs_append\<close> (\<open>sw/child/src/mxfs_append.cc\<close>): the record is validated against its layer, the page
  the buffered data would need is estimated, a flush is made where the estimate passes
  \<open>PAGE_SIZE - 64\<close>, and the record is stored behind its 8-byte timestamp. The result of that implicit
  flush is not looked at, in the code and here.
\<close>

section \<open>Record sizes and the page estimate\<close>

definition record_size :: "nat \<Rightarrow> nat option" where
  "record_size layer =
     (if layer = LAYER_ANTP_SPEED \<or> layer = LAYER_ANTP_POWER \<or> layer = LAYER_ANTP_CADENCE then Some ANTP_RECORD_SIZE
      else if layer = LAYER_GYRO \<or> layer = LAYER_ACCELEROMETER then Some GYRO_RECORD_SIZE
      else if layer = LAYER_TEMPERATURE then Some TEMPERATURE_RECORD_SIZE
      else None)"

definition estimate_layer :: "nat \<Rightarrow> u16 \<Rightarrow> u16" where
  "estimate_layer n c =
     (if n \<le> LAYER_ANTP_CADENCE then c * of_nat ANTP_RECORD_SIZE + 16 * c
      else if n \<le> LAYER_ACCELEROMETER then c * 3 * 2 + (if c > 0 then 16 else 0)
      else c * 2 + (if c > 0 then 16 else 0))"

definition append_estimate :: "'p mxfs_inst \<Rightarrow> u16" where
  "append_estimate inst = fold (\<lambda>n acc. acc + estimate_layer n (mxfs_count inst n)) [0..<LAYER_MAX] 0"

section \<open>Storing a record\<close>

definition append_store ::
  "'p build \<Rightarrow> nat \<Rightarrow> u64 \<Rightarrow> byte list \<Rightarrow> u16 \<Rightarrow> 'p mxfs_inst \<Rightarrow> (int \<times> 'p mxfs_inst) res" where
  "append_store cfg layer tmm buffer bufferlen inst =
     (let lpos = unat (mxfs_length inst layer) in
      if lpos + 8 + unat bufferlen > MXFS_BUFFER_SIZE cfg then Inr (NEED_MORE_BUFFER, inst)
      else bindR (mem_write (mxfs_buffer inst layer) lpos (le_bytes 8 tmm)) (\<lambda>m1.
           bindR (mem_read buffer 0 (unat bufferlen)) (\<lambda>data.
           bindR (mem_write m1 (lpos + 8) data) (\<lambda>m2.
           Inr (OK, inst\<lparr>mxfs_buffer := (mxfs_buffer inst)(layer := m2),
                         mxfs_length := (mxfs_length inst)(layer := mxfs_length inst layer + 8 + bufferlen),
                         mxfs_count := (mxfs_count inst)(layer := mxfs_count inst layer + 1)\<rparr>)))))"

definition mxfs_append ::
  "'p build \<Rightarrow> 'd driver \<Rightarrow> 'p mxfs_inst \<Rightarrow> 'd \<Rightarrow> byte \<Rightarrow> u64 \<Rightarrow> byte list \<Rightarrow> u16 \<Rightarrow>
   (int \<times> 'p mxfs_inst \<times> 'd) res" where
  "mxfs_append cfg drv inst d layer tmm buffer bufferlen =
     (let l = unat layer in
      if record_size l \<noteq> Some (unat bufferlen) then Inr (ERR, inst, d)
      else bindR
             (if unat (append_estimate inst + bufferlen) > PAGE_SIZE - 64
              then bindR (mxfs_flush cfg drv inst d) (\<lambda>(ret, inst1, d1). Inr (clear_layer l inst1, d1))
              else Inr (inst, d)) (\<lambda>(inst2, d2).
           bindR (append_store cfg l tmm buffer bufferlen inst2) (\<lambda>(ret, inst3).
           Inr (ret, inst3, d2))))"

end
