(* ===== verification/Page_Format.thy ===== *)
theory Page_Format
  imports Mxfs_Types
begin

text \<open>
  The abstract view of what is buffered and of what a page holds. A sample is a timestamp and the
  record's bytes; a layer buffer holds encoded samples back to back; a page is a sequence of chunks,
  each a 16-byte header and its payload, ended by bytes that are not a magic number.

  The locale \<open>page_walker\<close> is the contract of every loop of the code that walks over the chunks of a
  page (\<open>mxfs_read\<close>, \<open>mxfs_timerange_by_block\<close>, the \<open>csv\<close> command of the formatter): one step on a
  chunk visits it and moves past it, anything without a magic number stops the walk. Inside it, a
  walk over an encoded page is shown to visit exactly its chunks, in order.
\<close>

section \<open>Samples\<close>

type_synonym sample = "u64 \<times> byte list"
type_synonym pending = "nat \<Rightarrow> sample list"

text \<open>The record size of a layer below \<open>LAYER_MAX\<close>.\<close>

definition rsz :: "nat \<Rightarrow> nat" where
  "rsz l = (if l \<le> LAYER_ANTP_CADENCE then ANTP_RECORD_SIZE
            else if l \<le> LAYER_ACCELEROMETER then GYRO_RECORD_SIZE else TEMPERATURE_RECORD_SIZE)"

definition enc_sample :: "sample \<Rightarrow> byte list" where
  "enc_sample s = le_bytes 8 (fst s) @ snd s"

primrec split_samples :: "nat \<Rightarrow> nat \<Rightarrow> byte list \<Rightarrow> sample list" where
  "split_samples sz 0 bs = []"
| "split_samples sz (Suc k) bs =
     (le_word (take 8 bs), take sz (drop 8 bs)) # split_samples sz k (drop (sz + 8) bs)"

definition sized :: "nat \<Rightarrow> sample list \<Rightarrow> bool" where
  "sized sz ss \<longleftrightarrow> (\<forall>s \<in> set ss. length (snd s) = sz)"

section \<open>Chunks\<close>

record chunk =
  ck_head :: compress
  ck_body :: "byte list"

definition enc_chunk :: "chunk \<Rightarrow> byte list" where
  "enc_chunk ck = compress_bytes (ck_head ck) @ ck_body ck"

definition enc_chunks :: "chunk list \<Rightarrow> byte list" where
  "enc_chunks cks = concat (map enc_chunk cks)"

definition ck_type :: "chunk \<Rightarrow> nat" where
  "ck_type ck = unat (cp_type (ck_head ck))"

text \<open>The payload bytes a header of a sensor layer announces.\<close>

definition payload_size :: "compress \<Rightarrow> nat" where
  "payload_size cp =
     (let t = unat (cp_type cp) in
      if t \<le> LAYER_ANTP_CADENCE then unat (ant_length cp)
      else if t \<le> LAYER_ACCELEROMETER then unat (gyr_count cp) * GYRO_RECORD_SIZE
      else unat (tmp_count cp) * TEMPERATURE_RECORD_SIZE)"

definition sensor_chunk :: "chunk \<Rightarrow> bool" where
  "sensor_chunk ck \<longleftrightarrow>
     cp_magic (ck_head ck) = MAGIC \<and> ck_type ck < LAYER_MAX \<and>
     length (ck_body ck) = payload_size (ck_head ck) \<and>
     (ck_type ck \<le> LAYER_ANTP_CADENCE \<longrightarrow> length (ck_body ck) = ANTP_RECORD_SIZE)"

text \<open>The payloads of the chunks of one layer, in page order.\<close>

definition layer_payload :: "nat \<Rightarrow> chunk list \<Rightarrow> byte list" where
  "layer_payload layer cks = concat (map ck_body (filter (\<lambda>ck. ck_type ck = layer) cks))"

section \<open>Walking a page\<close>

locale page_walker =
  fixes walk :: "byte list \<Rightarrow> nat \<Rightarrow> 'a \<Rightarrow> 'a res"
    and visit :: "chunk \<Rightarrow> 'a \<Rightarrow> 'a res"
    and limit :: nat
  assumes walk_chunk: "sensor_chunk ck \<Longrightarrow> off < limit \<Longrightarrow> drop off page = enc_chunk ck @ rest \<Longrightarrow>
      walk page off a = bindR (visit ck a) (walk page (off + length (enc_chunk ck)))"
    and walk_stop: "off < limit \<Longrightarrow> off + 4 \<le> length page \<Longrightarrow>
      le_word (take 4 (drop off page)) \<noteq> MAGIC \<Longrightarrow> walk page off a = Inr a"
    and walk_end: "limit \<le> off \<Longrightarrow> walk page off a = Inr a"
begin

lemma walk_from:
  assumes "\<forall>ck \<in> set cks. sensor_chunk ck"
    and "drop off page = enc_chunks cks @ fill"
    and "length page = limit" and "off \<le> length page"
    and "fill = [] \<or> 4 \<le> length fill \<and> le_word (take 4 fill) \<noteq> MAGIC"
  shows "walk page off a = foldR visit cks a"
  using assms
proof (induction cks arbitrary: off a)
  case Nil
  show ?case
  proof (cases "fill = []")
    case True
    with Nil.prems have "limit \<le> off" by (simp add: enc_chunks_def)
    then show ?thesis by (simp add: walk_end)
  next
    case False
    with Nil.prems have d: "drop off page = fill" and l: "4 \<le> length fill" by (simp_all add: enc_chunks_def)
    from d have "length fill = length page - off" by auto
    with l have "off + 4 \<le> length page" and "off < limit" using Nil.prems by auto
    with False Nil.prems d show ?thesis by (simp add: walk_stop)
  qed
next
  case (Cons ck cks)
  have d: "drop off page = enc_chunk ck @ (enc_chunks cks @ fill)"
    using Cons.prems by (simp add: enc_chunks_def)
  then have len: "length page - off = length (enc_chunk ck) + length (enc_chunks cks @ fill)"
    by (metis length_append length_drop)
  moreover have "16 \<le> length (enc_chunk ck)" by (simp add: enc_chunk_def)
  ultimately have off: "off < limit" and off': "off + length (enc_chunk ck) \<le> length page"
    using Cons.prems by auto
  have "drop (off + length (enc_chunk ck)) page = drop (length (enc_chunk ck)) (drop off page)"
    by (simp add: add.commute)
  also have "\<dots> = enc_chunks cks @ fill" by (simp add: d)
  finally have "walk page (off + length (enc_chunk ck)) b = foldR visit cks b" for b
    using Cons.IH Cons.prems off' by simp
  then have "walk page (off + length (enc_chunk ck)) = foldR visit cks" by (rule ext)
  moreover have "sensor_chunk ck" using Cons.prems by simp
  ultimately show ?case
    using walk_chunk [OF _ off d, of a] by simp
qed

lemma walk_page:
  assumes "\<forall>ck \<in> set cks. sensor_chunk ck"
    and "page = enc_chunks cks @ fill" and "length page = limit"
    and "fill = [] \<or> 4 \<le> length fill \<and> le_word (take 4 fill) \<noteq> MAGIC"
  shows "walk page 0 a = foldR visit cks a"
  using walk_from [of cks 0 page fill a] assms by simp

end

section \<open>Lemmas on samples\<close>

lemma length_enc_sample [simp]: "length (enc_sample s) = 8 + length (snd s)"
  by (simp add: enc_sample_def)

lemma sized_simps [simp]:
  "sized sz []" "sized sz (s # ss) \<longleftrightarrow> length (snd s) = sz \<and> sized sz ss"
  "sized sz (ss @ ts) \<longleftrightarrow> sized sz ss \<and> sized sz ts"
  by (auto simp: sized_def)

lemma length_enc_samples: "sized sz ss \<Longrightarrow> length (concat (map enc_sample ss)) = length ss * (sz + 8)"
  by (induction ss) auto

lemma length_bodies: "sized sz ss \<Longrightarrow> length (concat (map snd ss)) = length ss * sz"
  by (induction ss) auto

lemma length_split_samples [simp]: "length (split_samples sz k bs) = k"
  by (induction k arbitrary: bs) simp_all

lemma split_samples_append:
  "sized sz ss \<Longrightarrow> split_samples sz (length ss) (concat (map enc_sample ss) @ rest) = ss"
  by (induction ss) (auto simp: enc_sample_def)

lemma sized_split_samples: "k * (sz + 8) \<le> length bs \<Longrightarrow> sized sz (split_samples sz k bs)"
  by (induction k arbitrary: bs) auto

lemma bytes_of_split:
  "k * (sz + 8) \<le> length bs \<Longrightarrow>
   concat (map enc_sample (split_samples sz k bs)) = take (k * (sz + 8)) bs"
proof (induction k arbitrary: bs)
  case 0
  show ?case by simp
next
  case (Suc k)
  then have "8 \<le> length bs" by simp
  then have "enc_sample (le_word (take 8 bs), take sz (drop 8 bs)) = take (8 + sz) bs"
    by (simp add: enc_sample_def le_bytes_le_word take_add)
  moreover have "concat (map enc_sample (split_samples sz k (drop (sz + 8) bs))) =
      take (k * (sz + 8)) (drop (sz + 8) bs)"
    using Suc by simp
  moreover have "take (Suc k * (sz + 8)) bs = take (8 + sz) bs @ take (k * (sz + 8)) (drop (sz + 8) bs)"
    by (simp add: take_add [symmetric] add_ac)
  ultimately show ?case by simp
qed

end
