(* ===== verification/Flush_Spec.thy ===== *)
theory Flush_Spec
  imports Mxfs_Append Page_Format
begin

text \<open>
  What a flush writes, stated on the samples that are buffered: \<open>page_chunks\<close> is the sequence of
  chunks of the page, \<open>page_image\<close> its bytes. The lemmas show that the loops of \<open>mxfs_flush\<close> over the raw
  layer buffers compute exactly this, with the page flags and timestamps given here, and that
  the estimate \<open>mxfs_append\<close> makes is the exact length of that image.
\<close>

section \<open>The page a set of pending samples becomes\<close>

definition ant_chunk :: "nat \<Rightarrow> sample \<Rightarrow> chunk" where
  "ant_chunk l s = \<lparr>ck_head = ant_header l (fst s), ck_body = snd s\<rparr>"

definition bodies :: "sample list \<Rightarrow> byte list" where
  "bodies ss = concat (map snd ss)"

definition gyro_chunks :: "nat \<Rightarrow> sample list \<Rightarrow> chunk list" where
  "gyro_chunks l ss =
     (if ss = [] then []
      else [\<lparr>ck_head = gyro_header l (fst (hd ss)) (fst (last ss)) (length ss), ck_body = bodies ss\<rparr>])"

text \<open>The last timestamp seen before a layer is encoded: \<open>last_tmm\<close> lives across the layers.\<close>

definition carry :: "u64 \<Rightarrow> sample list \<Rightarrow> u64" where
  "carry t ss = (if ss = [] then t else fst (last ss))"

definition carried_last :: "pending \<Rightarrow> u64" where
  "carried_last P = carry (carry (carry (carry (carry 0 (P 0)) (P 1)) (P 2)) (P 3)) (P 4)"

text \<open>The temperature loop starts at the second sample, so a single one leaves \<open>last_tmm\<close> as it was.\<close>

definition temp_last :: "u64 \<Rightarrow> sample list \<Rightarrow> u64" where
  "temp_last t ss = (if length ss \<le> 1 then t else fst (last ss))"

definition temp_chunks :: "u64 \<Rightarrow> sample list \<Rightarrow> chunk list" where
  "temp_chunks t ss =
     (if ss = [] then []
      else [\<lparr>ck_head = temp_header (fst (hd ss)) (temp_last t ss) (length ss), ck_body = bodies ss\<rparr>])"

definition page_chunks :: "pending \<Rightarrow> chunk list" where
  "page_chunks P =
     map (ant_chunk 0) (P 0) @ map (ant_chunk 1) (P 1) @ map (ant_chunk 2) (P 2) @
     gyro_chunks 3 (P 3) @ gyro_chunks 4 (P 4) @ temp_chunks (carried_last P) (P 5)"

definition page_image :: "pending \<Rightarrow> byte list" where
  "page_image P = enc_chunks (page_chunks P)"

definition page_mask :: "pending \<Rightarrow> u32" where
  "page_mask P = fold (\<lambda>l f. if P l = [] then f else f OR (page_flags_array ! l)) [0..<LAYER_MAX] 0"

definition first_time :: "u64 \<Rightarrow> sample list \<Rightarrow> u64" where
  "first_time t ss = fold (\<lambda>s t. if t = 0 then fst s else t) ss t"

definition page_start :: "pending \<Rightarrow> u64" where
  "page_start P = first_time 0 (P 0 @ P 1 @ P 2)"

text \<open>The length of the page for given numbers of samples.\<close>

definition page_len :: "(nat \<Rightarrow> nat) \<Rightarrow> nat" where
  "page_len c = 34 * c 0 + 34 * c 1 + 34 * c 2
     + (if c 3 = 0 then 0 else 16 + 6 * c 3) + (if c 4 = 0 then 0 else 16 + 6 * c 4)
     + (if c 5 = 0 then 0 else 16 + 2 * c 5)"

section \<open>The samples an instance holds\<close>

definition layer_ok :: "'p build \<Rightarrow> 'p mxfs_inst \<Rightarrow> nat \<Rightarrow> bool" where
  "layer_ok cfg inst l \<longleftrightarrow>
     length (mxfs_buffer inst l) = MXFS_BUFFER_SIZE cfg \<and>
     unat (mxfs_length inst l) = unat (mxfs_count inst l) * (rsz l + 8) \<and>
     unat (mxfs_length inst l) \<le> MXFS_BUFFER_SIZE cfg"

definition buffers_ok :: "'p build \<Rightarrow> 'p mxfs_inst \<Rightarrow> bool" where
  "buffers_ok cfg inst \<longleftrightarrow> list_all (layer_ok cfg inst) [0..<LAYER_MAX]"

definition pending_of :: "'p mxfs_inst \<Rightarrow> pending" where
  "pending_of inst l = split_samples (rsz l) (unat (mxfs_count inst l)) (mxfs_buffer inst l)"

definition counts_of :: "'p mxfs_inst \<Rightarrow> nat \<Rightarrow> nat" where
  "counts_of inst l = unat (mxfs_count inst l)"

definition clear_all :: "'p mxfs_inst \<Rightarrow> 'p mxfs_inst" where
  "clear_all inst = fold clear_layer [0..<LAYER_MAX] inst"

text \<open>The result of the encoding on the abstract side.\<close>

definition encoded :: "pending \<Rightarrow> flush_st" where
  "encoded P = \<lparr>work_buffer = page_image P, page_flags = page_mask P, start_tmm = page_start P,
                last_tmm = temp_last (carried_last P) (P 5)\<rparr>"

section \<open>Basic facts\<close>

lemma rsz_simps [simp]: "rsz 0 = 18" "rsz (Suc 0) = 18" "rsz 2 = 18" "rsz 3 = 6" "rsz 4 = 6" "rsz 5 = 2"
  by (simp_all add: rsz_def)

lemma record_size_rsz: "l < LAYER_MAX \<Longrightarrow> record_size l = Some (rsz l)"
  by (auto simp: record_size_def rsz_def)

lemma record_size_Some: "record_size l = Some n \<Longrightarrow> l < LAYER_MAX \<and> n = rsz l"
  by (auto simp: record_size_def rsz_def split: if_splits)

lemma upt_layers: "[0..<6] = [0, 1, 2, 3, 4, 5::nat]"
  by (simp add: upt_rec)

lemma buffers_okD: "buffers_ok cfg inst \<Longrightarrow> l < LAYER_MAX \<Longrightarrow> layer_ok cfg inst l"
  by (simp add: buffers_ok_def list_all_iff)

lemma length_pending_of [simp]: "length (pending_of inst l) = counts_of inst l"
  by (simp add: pending_of_def counts_of_def)

lemma pending_of_Nil_iff [simp]: "pending_of inst l = [] \<longleftrightarrow> mxfs_count inst l = 0"
  by (metis counts_of_def length_0_conv length_pending_of unat_eq_0)

lemma layer_ok_buffer:
  assumes "layer_ok cfg inst l"
  obtains rest where "mxfs_buffer inst l = concat (map enc_sample (pending_of inst l)) @ rest"
    and "sized (rsz l) (pending_of inst l)"
    and "unat (mxfs_length inst l) = length (pending_of inst l) * (rsz l + 8)"
proof -
  let ?k = "unat (mxfs_count inst l)" and ?b = "mxfs_buffer inst l"
  have le: "?k * (rsz l + 8) \<le> length ?b" using assms by (simp add: layer_ok_def)
  then have "?b = concat (map enc_sample (pending_of inst l)) @ drop (?k * (rsz l + 8)) ?b"
    by (simp add: pending_of_def bytes_of_split)
  moreover have "sized (rsz l) (pending_of inst l)"
    using le by (simp add: pending_of_def sized_split_samples)
  ultimately show thesis
    using that assms by (simp add: layer_ok_def counts_of_def)
qed

lemma layer_ok_sized: "layer_ok cfg inst l \<Longrightarrow> sized (rsz l) (pending_of inst l)"
  by (erule layer_ok_buffer)

text \<open>The other direction: a buffer that holds the samples determines them.\<close>

lemma pending_ofI:
  assumes "mxfs_buffer inst l = concat (map enc_sample ss) @ rest" and "sized (rsz l) ss"
    and "unat (mxfs_count inst l) = length ss"
  shows "pending_of inst l = ss"
  using assms by (simp add: pending_of_def split_samples_append)

section \<open>The sums over the layers\<close>

lemma append_estimate_of_nat: "append_estimate inst = of_nat (page_len (counts_of inst))"
proof -
  have "append_estimate inst = 34 * mxfs_count inst 0 + 34 * mxfs_count inst 1 + 34 * mxfs_count inst 2
     + (if mxfs_count inst 3 = 0 then 0 else 16 + 6 * mxfs_count inst 3)
     + (if mxfs_count inst 4 = 0 then 0 else 16 + 6 * mxfs_count inst 4)
     + (if mxfs_count inst 5 = 0 then 0 else 16 + 2 * mxfs_count inst 5)"
    by (simp add: append_estimate_def upt_layers estimate_layer_def word_greater_zero_iff algebra_simps)
  then show ?thesis
    by (simp add: page_len_def counts_of_def unat_eq_0)
qed

lemma append_estimate_unat:
  "page_len (counts_of inst) < 2 ^ 16 \<Longrightarrow> unat (append_estimate inst) = page_len (counts_of inst)"
  by (simp add: append_estimate_of_nat unat_of_nat_small)

definition payload_len :: "(nat \<Rightarrow> nat) \<Rightarrow> nat" where
  "payload_len c = 18 * c 0 + 18 * c 1 + 18 * c 2 + 6 * c 3 + 6 * c 4 + 2 * c 5"

lemma flush_current_length_of_nat: "flush_current_length inst = of_nat (payload_len (counts_of inst))"
  by (simp add: flush_current_length_def upt_layers flush_layer_bytes_def payload_len_def counts_of_def
      algebra_simps)

lemma payload_le_page: "payload_len c \<le> page_len c"
  by (simp add: payload_len_def page_len_def)

lemma all_layers: "(\<forall>l<LAYER_MAX. Q l) \<longleftrightarrow> Q 0 \<and> Q 1 \<and> Q 2 \<and> Q 3 \<and> Q 4 \<and> Q 5"
proof -
  have "(\<forall>l<LAYER_MAX. Q l) \<longleftrightarrow> list_all Q [0..<6]" by (auto simp: list_all_iff)
  then show ?thesis by (simp add: upt_layers)
qed

lemma page_len_0_iff: "page_len c = 0 \<longleftrightarrow> (\<forall>l<LAYER_MAX. c l = 0)"
  by (simp add: all_layers page_len_def)

lemma flush_current_length_0_iff:
  assumes "page_len (counts_of inst) < 2 ^ 16"
  shows "flush_current_length inst = 0 \<longleftrightarrow> page_len (counts_of inst) = 0"
proof -
  have "payload_len (counts_of inst) < 2 ^ 16"
    using payload_le_page [of "counts_of inst"] assms by simp
  then have "flush_current_length inst = 0 \<longleftrightarrow> payload_len (counts_of inst) = 0"
    by (simp add: flush_current_length_of_nat of_nat_eq_0_small)
  then show ?thesis by (auto simp: payload_len_def page_len_def)
qed

section \<open>Emptying layers\<close>

lemma clear_layer_simps [simp]:
  "mxfs_buffer (clear_layer l inst) = mxfs_buffer inst"
  "mxfs_length (clear_layer l inst) k = (if k = l then 0 else mxfs_length inst k)"
  "mxfs_count (clear_layer l inst) k = (if k = l then 0 else mxfs_count inst k)"
  "mxfs_current_block (clear_layer l inst) = mxfs_current_block inst"
  "mxfs_current_page (clear_layer l inst) = mxfs_current_page inst"
  "blocks (clear_layer l inst) = blocks inst"
  by (simp_all add: clear_layer_def)

lemma clear_layer_id: "mxfs_length inst l = 0 \<Longrightarrow> mxfs_count inst l = 0 \<Longrightarrow> clear_layer l inst = inst"
  by (simp add: clear_layer_def fun_upd_idem)

lemma pending_of_clear_layer [simp]:
  "pending_of (clear_layer l inst) k = (if k = l then [] else pending_of inst k)"
  by (simp add: pending_of_def)

lemma counts_of_clear_layer [simp]:
  "counts_of (clear_layer l inst) k = (if k = l then 0 else counts_of inst k)"
  by (simp add: counts_of_def)

lemma layer_ok_clear [simp]: "layer_ok cfg inst k \<Longrightarrow> layer_ok cfg (clear_layer l inst) k"
  by (simp add: layer_ok_def)

lemma clear_all_simps [simp]:
  "mxfs_buffer (clear_all inst) = mxfs_buffer inst"
  "l < LAYER_MAX \<Longrightarrow> mxfs_length (clear_all inst) l = 0"
  "l < LAYER_MAX \<Longrightarrow> mxfs_count (clear_all inst) l = 0"
  "mxfs_current_block (clear_all inst) = mxfs_current_block inst"
  "mxfs_current_page (clear_all inst) = mxfs_current_page inst"
  "blocks (clear_all inst) = blocks inst"
  by (auto simp: clear_all_def upt_layers)

lemma pending_of_clear_all [simp]: "l < LAYER_MAX \<Longrightarrow> pending_of (clear_all inst) l = []"
  by (simp add: pending_of_def)

lemma buffers_ok_clear_all: "buffers_ok cfg inst \<Longrightarrow> buffers_ok cfg (clear_all inst)"
  by (auto simp: buffers_ok_def list_all_iff layer_ok_def)

section \<open>The encoding loops\<close>

definition ant_step :: "nat \<Rightarrow> sample \<Rightarrow> flush_st \<Rightarrow> flush_st" where
  "ant_step l s st = (add_flag l st)
     \<lparr>start_tmm := (if start_tmm st = 0 then fst s else start_tmm st), last_tmm := fst s,
      work_buffer := work_buffer st @ enc_chunk (ant_chunk l s)\<rparr>"

lemma length_ant_chunk [simp]: "length (enc_chunk (ant_chunk l s)) = 16 + length (snd s)"
  by (simp add: enc_chunk_def ant_chunk_def)

lemma ant_loop_spec:
  assumes "buf = pre @ concat (map enc_sample ss) @ rest" and "sized 18 ss"
    and "len = length pre + length ss * 26" and "length (work_buffer st) + length ss * 34 \<le> PAGE_SIZE"
  shows "ant_loop l buf len (length pre) st = Inr (fold (ant_step l) ss st)"
  using assms
proof (induction ss arbitrary: pre st)
  case Nil
  then show ?case by (subst ant_loop.simps) simp
next
  case (Cons s ss)
  let ?t = "fst s"
  have buf: "buf = pre @ le_bytes 8 ?t @ snd s @ concat (map enc_sample ss) @ rest"
    and buf': "buf = (pre @ le_bytes 8 ?t) @ snd s @ concat (map enc_sample ss) @ rest"
    and sz: "length (snd s) = 18"
    using Cons.prems by (simp_all add: enc_sample_def [of s])
  have lt: "length pre < len" and fits: "length (work_buffer st) + 34 \<le> PAGE_SIZE"
    using Cons.prems by simp_all
  have r1: "mem_read buf (length pre) 8 = Inr (le_bytes 8 ?t)"
    unfolding buf by (rule mem_read_append) simp_all
  have r2: "mem_read buf (length pre + 8) 18 = Inr (snd s)"
    unfolding buf' by (rule mem_read_append) (simp_all add: sz)
  have "ant_loop l buf len (length (pre @ enc_sample s)) (ant_step l s st) =
      Inr (fold (ant_step l) ss (ant_step l s st))"
  proof (rule Cons.IH)
    show "buf = (pre @ enc_sample s) @ concat (map enc_sample ss) @ rest"
      using Cons.prems by simp
    show "length (work_buffer (ant_step l s st)) + length ss * 34 \<le> PAGE_SIZE"
      using Cons.prems by (simp add: ant_step_def)
  qed (use Cons.prems in simp_all)
  moreover have "ant_loop l buf len (length pre) st =
      ant_loop l buf len (length (pre @ enc_sample s)) (ant_step l s st)"
    using lt fits sz
    by (subst ant_loop.simps)
      (simp add: r1 r2 work_put_def ant_step_def add_flag_def enc_chunk_def ant_chunk_def Let_def ac_simps)
  ultimately show ?case by simp
qed

lemma last_loop_spec:
  assumes "buf = pre @ concat (map enc_sample ss) @ rest" and "sized sz ss"
    and "len = length pre + length ss * (sz + 8)"
  shows "last_loop sz buf len (length pre) t = Inr (carry t ss)"
  using assms
proof (induction ss arbitrary: pre t)
  case Nil
  then show ?case by (subst last_loop.simps) (simp add: carry_def)
next
  case (Cons s ss)
  have buf: "buf = pre @ le_bytes 8 (fst s) @ (snd s @ concat (map enc_sample ss) @ rest)"
    using Cons.prems by (simp add: enc_sample_def [of s])
  have lt: "length pre < len" and sz: "length (snd s) = sz" using Cons.prems by simp_all
  have r: "mem_read buf (length pre) 8 = Inr (le_bytes 8 (fst s))"
    unfolding buf by (rule mem_read_append) simp_all
  have "last_loop sz buf len (length (pre @ enc_sample s)) (fst s) = Inr (carry (fst s) ss)"
    by (rule Cons.IH) (use Cons.prems in simp_all)
  moreover have "last_loop sz buf len (length pre) t =
      last_loop sz buf len (length (pre @ enc_sample s)) (fst s)"
    using lt sz by (subst last_loop.simps) (simp add: r ac_simps)
  ultimately show ?case by (simp add: carry_def)
qed

lemma copy_loop_spec:
  assumes "buf = pre @ concat (map enc_sample ss) @ rest" and "sized sz ss"
    and "len = length pre + length ss * (sz + 8)" and "length wb + length ss * sz \<le> PAGE_SIZE"
  shows "copy_loop sz buf len (length pre) wb = Inr (wb @ bodies ss)"
  using assms
proof (induction ss arbitrary: pre wb)
  case Nil
  then show ?case by (subst copy_loop.simps) (simp add: bodies_def)
next
  case (Cons s ss)
  have buf: "buf = (pre @ le_bytes 8 (fst s)) @ snd s @ (concat (map enc_sample ss) @ rest)"
    and sz: "length (snd s) = sz"
    using Cons.prems by (simp_all add: enc_sample_def [of s])
  have lt: "length pre < len" and fits: "length wb + sz \<le> PAGE_SIZE" using Cons.prems by simp_all
  have r: "mem_read buf (length pre + 8) sz = Inr (snd s)"
    unfolding buf by (rule mem_read_append) (simp_all add: sz)
  have "copy_loop sz buf len (length (pre @ enc_sample s)) (wb @ snd s) = Inr ((wb @ snd s) @ bodies ss)"
    by (rule Cons.IH) (use Cons.prems in simp_all)
  moreover have "copy_loop sz buf len (length pre) wb =
      copy_loop sz buf len (length (pre @ enc_sample s)) (wb @ snd s)"
    using lt fits sz by (subst copy_loop.simps) (simp add: r work_put_def ac_simps)
  ultimately show ?case by (simp add: bodies_def)
qed

section \<open>One layer at a time\<close>

lemma ant_fold_work:
  "work_buffer (fold (ant_step l) ss st) = work_buffer st @ enc_chunks (map (ant_chunk l) ss)"
  by (induction ss arbitrary: st) (simp_all add: ant_step_def enc_chunks_def)

lemma ant_fold_flags:
  "page_flags (fold (ant_step l) ss st) =
     (if ss = [] then page_flags st else page_flags st OR (page_flags_array ! l))"
  by (induction ss arbitrary: st) (auto simp: ant_step_def add_flag_def or.assoc)

lemma ant_fold_start: "start_tmm (fold (ant_step l) ss st) = first_time (start_tmm st) ss"
  by (induction ss arbitrary: st) (simp_all add: ant_step_def first_time_def)

lemma ant_fold_last: "last_tmm (fold (ant_step l) ss st) = carry (last_tmm st) ss"
  by (induction ss arbitrary: st) (auto simp: ant_step_def carry_def)

lemmas ant_fold = ant_fold_work ant_fold_flags ant_fold_start ant_fold_last

lemma length_enc_chunks [simp]:
  "length (enc_chunks []) = 0"
  "length (enc_chunks (ck # cks)) = 16 + length (ck_body ck) + length (enc_chunks cks)"
  "length (enc_chunks (cks @ cks')) = length (enc_chunks cks) + length (enc_chunks cks')"
  by (simp_all add: enc_chunks_def enc_chunk_def)

lemma length_ant_chunks:
  "sized sz ss \<Longrightarrow> length (enc_chunks (map (ant_chunk l) ss)) = length ss * (16 + sz)"
  by (induction ss) (auto simp: ant_chunk_def)

lemma length_bodies': "sized sz ss \<Longrightarrow> length (bodies ss) = length ss * sz"
  by (simp add: bodies_def length_bodies)

lemma length_gyro_chunks:
  "sized sz ss \<Longrightarrow> length (enc_chunks (gyro_chunks l ss)) = (if ss = [] then 0 else 16 + length ss * sz)"
  by (simp add: gyro_chunks_def length_bodies')

lemma length_temp_chunks:
  "sized sz ss \<Longrightarrow> length (enc_chunks (temp_chunks t ss)) = (if ss = [] then 0 else 16 + length ss * sz)"
  by (simp add: temp_chunks_def length_bodies')

definition gyro_step :: "nat \<Rightarrow> sample list \<Rightarrow> flush_st \<Rightarrow> flush_st" where
  "gyro_step l ss st =
     (if ss = [] then st
      else (add_flag l st)\<lparr>work_buffer := work_buffer st @ enc_chunks (gyro_chunks l ss), last_tmm := carry (last_tmm st) ss\<rparr>)"

definition temp_step :: "sample list \<Rightarrow> flush_st \<Rightarrow> flush_st" where
  "temp_step ss st =
     (if ss = [] then st
      else (add_flag 5 st)\<lparr>work_buffer := work_buffer st @ enc_chunks (temp_chunks (last_tmm st) ss),
                            last_tmm := temp_last (last_tmm st) ss\<rparr>)"

lemma flush_ant_spec:
  assumes "layer_ok cfg inst l" and "l \<le> 2"
    and "length (work_buffer st) + counts_of inst l * 34 \<le> PAGE_SIZE"
  shows "flush_ant l (st, inst) = Inr (fold (ant_step l) (pending_of inst l) st, clear_layer l inst)"
proof -
  obtain rest where buf: "mxfs_buffer inst l = [] @ concat (map enc_sample (pending_of inst l)) @ rest"
    and sz: "sized (rsz l) (pending_of inst l)"
    and len: "unat (mxfs_length inst l) = length (pending_of inst l) * (rsz l + 8)"
    using assms(1) by (metis append_Nil layer_ok_buffer)
  have r: "rsz l = 18" using assms(2) by (simp add: rsz_def)
  have "ant_loop l (mxfs_buffer inst l) (unat (mxfs_length inst l)) 0 st =
      Inr (fold (ant_step l) (pending_of inst l) st)"
    using ant_loop_spec [OF buf] sz len assms(3) r by simp
  then show ?thesis by (simp add: flush_ant_def)
qed

lemma layer_ok_empty: "layer_ok cfg inst l \<Longrightarrow> mxfs_length inst l = 0 \<longleftrightarrow> mxfs_count inst l = 0"
  by (auto simp: layer_ok_def unat_eq_0 [symmetric])

lemma flush_gyro_spec:
  assumes ok: "layer_ok cfg inst l" and l: "l = 3 \<or> l = 4"
    and fits: "length (work_buffer st) + (16 + counts_of inst l * 6) \<le> PAGE_SIZE"
  shows "flush_gyro l (st, inst) = Inr (gyro_step l (pending_of inst l) st, clear_layer l inst)"
proof (cases "mxfs_count inst l = 0")
  case True
  then have "mxfs_length inst l = 0" using layer_ok_empty [OF ok] by simp
  with True show ?thesis by (simp add: flush_gyro_def gyro_step_def clear_layer_id)
next
  case False
  let ?ss = "pending_of inst l" and ?len = "unat (mxfs_length inst l)" and ?buf = "mxfs_buffer inst l"
  obtain rest where buf: "?buf = [] @ concat (map enc_sample ?ss) @ rest"
    and sz: "sized (rsz l) ?ss" and len: "?len = length ?ss * (rsz l + 8)"
    using ok by (metis append_Nil layer_ok_buffer)
  have r: "rsz l = 6" using l by auto
  from False obtain s ts where ss: "?ss = s # ts"
    by (metis list.exhaust pending_of_Nil_iff)
  have pos: "0 < ?len" and k: "?len div 14 = length ?ss" "length ?ss \<noteq> 0"
    using len r ss by simp_all
  have hd: "mem_read ?buf 0 8 = Inr (le_bytes 8 (fst (hd ?ss)))"
    using buf ss by (simp add: enc_sample_def mem_read_def)
  have ne: "mxfs_count inst l \<noteq> 0" by (rule False)
  have lst: "last_loop 6 ?buf ?len 0 t = Inr (carry t ?ss)" for t
    using last_loop_spec [OF buf, where sz = 6 and len = "?len"] sz len r by simp
  have cp: "copy_loop 6 ?buf ?len 0 (work_buffer st @ compress_bytes h) =
      Inr (work_buffer st @ compress_bytes h @ bodies ?ss)" for h
    using copy_loop_spec [OF buf, where sz = 6 and len = "?len" and wb = "work_buffer st @ compress_bytes h"] sz len r fits by simp
  have c: "carry t ?ss = fst (last ?ss)" for t using ss by (simp add: carry_def)
  show ?thesis
    using pos k hd lst cp fits ne c
    by (simp add: flush_gyro_def Let_def gyro_step_def gyro_chunks_def enc_chunks_def enc_chunk_def
        work_put_def add_flag_def)
qed

text \<open>The temperature layer: the loop for the last timestamp starts at the second sample.\<close>

lemma temp_last_loop:
  assumes "buf = concat (map enc_sample ss) @ rest" and "sized 2 ss" and "ss \<noteq> []"
    and "len = length ss * 10"
  shows "last_loop 2 buf len 10 t = Inr (temp_last t ss)"
proof -
  from assms(3) obtain s ts where ss: "ss = s # ts" by (cases ss) auto
  have pre: "length (enc_sample s) = 10" using assms(2) ss by simp
  have "last_loop 2 buf len (length (enc_sample s)) t = Inr (carry t ts)"
    by (rule last_loop_spec [of buf "enc_sample s" ts rest 2]) (use assms ss in simp_all)
  moreover have "carry t ts = temp_last t ss" by (simp add: carry_def temp_last_def ss)
  ultimately show ?thesis by (simp only: pre)
qed

lemma flush_temp_spec:
  assumes ok: "layer_ok cfg inst 5"
    and fits: "length (work_buffer st) + (16 + counts_of inst 5 * 2) \<le> PAGE_SIZE"
  shows "flush_temp (st, inst) = Inr (temp_step (pending_of inst 5) st, clear_layer 5 inst)"
proof (cases "mxfs_count inst 5 = 0")
  case True
  then have "mxfs_length inst 5 = 0" using layer_ok_empty [OF ok] by simp
  with True show ?thesis by (simp add: flush_temp_def temp_step_def clear_layer_id)
next
  case False
  let ?ss = "pending_of inst 5" and ?len = "unat (mxfs_length inst 5)" and ?buf = "mxfs_buffer inst 5"
  obtain rest where buf: "?buf = [] @ concat (map enc_sample ?ss) @ rest"
    and sz: "sized 2 ?ss" and len: "?len = length ?ss * 10"
    using layer_ok_buffer [OF ok] by auto
  from False obtain s ts where ss: "?ss = s # ts"
    by (metis list.exhaust pending_of_Nil_iff)
  have pos: "0 < ?len" and k: "?len div 10 = length ?ss" "length ?ss \<noteq> 0"
    using len ss by simp_all
  have hd: "mem_read ?buf 0 8 = Inr (le_bytes 8 (fst (hd ?ss)))"
    using buf ss by (simp add: enc_sample_def mem_read_def)
  have ne: "mxfs_count inst 5 \<noteq> 0" by (rule False)
  have lst: "last_loop 2 ?buf ?len 10 t = Inr (temp_last t ?ss)" for t
    using temp_last_loop [of ?buf ?ss rest ?len t] buf sz len ss by simp
  have cp: "copy_loop 2 ?buf ?len 0 (work_buffer st @ compress_bytes h) =
      Inr (work_buffer st @ compress_bytes h @ bodies ?ss)" for h
    using copy_loop_spec [OF buf, where sz = 2 and len = "?len" and wb = "work_buffer st @ compress_bytes h"] sz len fits by simp
  show ?thesis
    using pos k hd lst cp fits ne
    by (simp add: flush_temp_def Let_def temp_step_def temp_chunks_def enc_chunks_def enc_chunk_def
        work_put_def add_flag_def)
qed

section \<open>The whole encoding\<close>

lemma length_page_image:
  assumes "\<And>l. l < LAYER_MAX \<Longrightarrow> sized (rsz l) (P l)"
  shows "length (page_image P) = page_len (\<lambda>l. length (P l))"
  using assms [of 0] assms [of 1] assms [of 2] assms [of 3] assms [of 4] assms [of 5]
  by (simp add: page_image_def page_chunks_def page_len_def length_ant_chunks length_gyro_chunks
      length_temp_chunks)

lemma enc_chunks_append: "enc_chunks (cks @ cks') = enc_chunks cks @ enc_chunks cks'"
  by (simp add: enc_chunks_def)

lemma first_time_append: "first_time t (ss @ ss') = first_time (first_time t ss) ss'"
  by (simp add: first_time_def)

text \<open>A layer with nothing buffered needs no room at all.\<close>

lemma flush_gyro_step:
  assumes ok: "layer_ok cfg inst l" and l: "l = 3 \<or> l = 4"
    and fits: "length (work_buffer st) + (if counts_of inst l = 0 then 0 else 16 + counts_of inst l * 6) \<le> PAGE_SIZE"
  shows "flush_gyro l (st, inst) = Inr (gyro_step l (pending_of inst l) st, clear_layer l inst)"
proof (cases "mxfs_count inst l = 0")
  case True
  then have "mxfs_length inst l = 0" using layer_ok_empty [OF ok] by simp
  with True show ?thesis by (simp add: flush_gyro_def gyro_step_def clear_layer_id)
next
  case False
  then show ?thesis using flush_gyro_spec [OF ok l] fits by (simp add: counts_of_def unat_eq_0)
qed

lemma flush_temp_step:
  assumes ok: "layer_ok cfg inst 5"
    and fits: "length (work_buffer st) + (if counts_of inst 5 = 0 then 0 else 16 + counts_of inst 5 * 2) \<le> PAGE_SIZE"
  shows "flush_temp (st, inst) = Inr (temp_step (pending_of inst 5) st, clear_layer 5 inst)"
proof (cases "mxfs_count inst 5 = 0")
  case True
  then have "mxfs_length inst 5 = 0" using layer_ok_empty [OF ok] by simp
  with True show ?thesis by (simp add: flush_temp_def temp_step_def clear_layer_id)
next
  case False
  then show ?thesis using flush_temp_spec [OF ok] fits by (simp add: counts_of_def unat_eq_0)
qed

lemma gyro_step_simps:
  "work_buffer (gyro_step l ss st) = work_buffer st @ enc_chunks (gyro_chunks l ss)"
  "page_flags (gyro_step l ss st) = (if ss = [] then page_flags st else page_flags st OR (page_flags_array ! l))"
  "start_tmm (gyro_step l ss st) = start_tmm st"
  "last_tmm (gyro_step l ss st) = carry (last_tmm st) ss"
  by (simp_all add: gyro_step_def gyro_chunks_def enc_chunks_def add_flag_def carry_def)

lemma temp_step_simps:
  "work_buffer (temp_step ss st) = work_buffer st @ enc_chunks (temp_chunks (last_tmm st) ss)"
  "page_flags (temp_step ss st) = (if ss = [] then page_flags st else page_flags st OR (page_flags_array ! 5))"
  "start_tmm (temp_step ss st) = start_tmm st"
  "last_tmm (temp_step ss st) = temp_last (last_tmm st) ss"
  by (simp_all add: temp_step_def temp_chunks_def enc_chunks_def add_flag_def temp_last_def)

lemma steps_encoded:
  "temp_step (P 5) (gyro_step 4 (P 4) (gyro_step 3 (P 3)
     (fold (ant_step 2) (P 2) (fold (ant_step 1) (P 1) (fold (ant_step 0) (P 0) flush_init))))) = encoded P"
  by (rule flush_st.equality)
    (simp_all add: temp_step_simps gyro_step_simps ant_fold encoded_def flush_init_def page_image_def
      page_chunks_def enc_chunks_append page_start_def first_time_append carried_last_def page_mask_def upt_layers)

text \<open>The loops of \<open>mxfs_flush\<close> produce the reference page, and leave every layer empty.\<close>

lemma flush_encode_spec:
  assumes ok: "buffers_ok cfg inst" and fits: "page_len (counts_of inst) \<le> PAGE_SIZE"
  shows "flush_encode inst = Inr (encoded (pending_of inst), clear_all inst)"
proof -
  let ?P = "pending_of inst"
  have lok: "layer_ok cfg inst l" if "l < LAYER_MAX" for l using buffers_okD [OF ok that] .
  have sz: "sized (rsz l) (?P l)" if "l < LAYER_MAX" for l using layer_ok_sized [OF lok [OF that]] .
  define s0 where "s0 = fold (ant_step 0) (?P 0) flush_init"
  define s1 where "s1 = fold (ant_step 1) (?P 1) s0"
  define s2 where "s2 = fold (ant_step 2) (?P 2) s1"
  define s3 where "s3 = gyro_step 3 (?P 3) s2"
  define s4 where "s4 = gyro_step 4 (?P 4) s3"
  note sdefs = s0_def s1_def s2_def s3_def s4_def
  let ?c = "counts_of inst" and ?len = "\<lambda>s. length (work_buffer s)"
  have l0: "?len s0 = 34 * ?c 0"
    using sz [of 0] by (simp add: s0_def ant_fold length_ant_chunks flush_init_def)
  have l1: "?len s1 = 34 * ?c 0 + 34 * ?c 1"
    using sz [of 1] by (simp add: s1_def ant_fold length_ant_chunks l0)
  have l2: "?len s2 = 34 * ?c 0 + 34 * ?c 1 + 34 * ?c 2"
    using sz [of 2] by (simp add: s2_def ant_fold length_ant_chunks l1)
  have l3: "?len s3 = ?len s2 + (if ?c 3 = 0 then 0 else 16 + 6 * ?c 3)"
    using sz [of 3] by (simp add: s3_def gyro_step_simps length_gyro_chunks counts_of_def unat_eq_0)
  have l4: "?len s4 = ?len s3 + (if ?c 4 = 0 then 0 else 16 + 6 * ?c 4)"
    using sz [of 4] by (simp add: s4_def gyro_step_simps length_gyro_chunks counts_of_def unat_eq_0)
  let ?i0 = "clear_layer 0 inst"
  let ?i1 = "clear_layer 1 ?i0"
  let ?i2 = "clear_layer 2 ?i1"
  let ?i3 = "clear_layer 3 ?i2"
  let ?i4 = "clear_layer 4 ?i3"
  note fits' = fits [unfolded page_len_def]
  have f1: "?c 0 * 34 \<le> PAGE_SIZE" and f2: "?len s0 + ?c 1 * 34 \<le> PAGE_SIZE"
    and f3: "?len s1 + ?c 2 * 34 \<le> PAGE_SIZE"
    and f4: "?len s2 + (if ?c 3 = 0 then 0 else 16 + ?c 3 * 6) \<le> PAGE_SIZE"
    and f5: "?len s3 + (if ?c 4 = 0 then 0 else 16 + ?c 4 * 6) \<le> PAGE_SIZE"
    and f6: "?len s4 + (if ?c 5 = 0 then 0 else 16 + ?c 5 * 2) \<le> PAGE_SIZE"
    using fits' l0 l1 l2 l3 l4 by (auto split: if_splits)
  have a0: "flush_ant 0 (flush_init, inst) = Inr (s0, ?i0)"
    using flush_ant_spec [OF lok [of 0], of flush_init] f1 by (simp add: s0_def flush_init_def)
  have a1: "flush_ant 1 (s0, ?i0) = Inr (s1, ?i1)"
    using flush_ant_spec [of cfg ?i0 1 s0] lok [of 1] f2 by (simp add: s1_def)
  have a2: "flush_ant 2 (s1, ?i1) = Inr (s2, ?i2)"
    using flush_ant_spec [of cfg ?i1 2 s1] lok [of 2] f3 by (simp add: s2_def)
  have a3: "flush_gyro 3 (s2, ?i2) = Inr (s3, ?i3)"
    using flush_gyro_step [of cfg ?i2 3 s2] lok [of 3] f4 by (simp add: s3_def cong: if_cong)
  have a4: "flush_gyro 4 (s3, ?i3) = Inr (s4, ?i4)"
    using flush_gyro_step [of cfg ?i3 4 s3] lok [of 4] f5 by (simp add: s4_def cong: if_cong)
  have a5: "flush_temp (s4, ?i4) = Inr (temp_step (?P 5) s4, clear_layer 5 ?i4)"
    using flush_temp_step [of cfg ?i4 s4] lok [of 5] f6 by (simp cong: if_cong)
  have "temp_step (?P 5) s4 = encoded ?P"
    using steps_encoded [of ?P] by (simp add: sdefs)
  moreover have "clear_layer 5 ?i4 = clear_all inst"
    by (simp add: clear_all_def upt_layers)
  ultimately show ?thesis
    using a0 a1 a2 a3 a4 a5 by (simp add: flush_encode_def)
qed

end
