(* ===== verification/Mxfs_Read.thy ===== *)
theory Mxfs_Read
  imports Flash_Driver Page_Format
begin

text \<open>
  \<open>mxfs_read\<close>, \<open>mxfs_write\<close> and \<open>mxfs_erase\<close> (\<open>sw/child/src/mxfs_read.cc\<close>, \<open>mxfs_write.cc\<close>,
  \<open>mxfs_erase.cc\<close>). A pointer that may be \<open>NULL\<close> is an option; the page buffers that the code takes from
  \<open>MALLOC\<close> (or from a static array) are arguments, \<open>None\<close> where the allocation fails and otherwise with
  whatever they hold. The walk over the chunks of a page is shown to be a \<open>page_walker\<close>.
\<close>

section \<open>mxfs_read\<close>

text \<open>The loop that copies \<open>count\<close> records of \<open>sz\<close> bytes out of the page, one \<open>memcpy\<close> each.\<close>

definition copy_records ::
  "byte list \<Rightarrow> nat \<Rightarrow> nat \<Rightarrow> nat \<Rightarrow> byte list \<times> nat \<Rightarrow> (byte list \<times> nat) res" where
  "copy_records rbf off sz count acc =
     foldR (\<lambda>n (buffer, result_offset).
       bindR (mem_read rbf (off + n * sz) sz) (\<lambda>d.
       bindR (mem_write buffer result_offset d) (\<lambda>buffer'.
       Inr (buffer', result_offset + sz)))) [0..<count] acc"

function read_loop ::
  "nat \<Rightarrow> nat \<Rightarrow> byte list \<Rightarrow> nat \<Rightarrow> byte list \<times> nat \<Rightarrow> (byte list \<times> nat) res" where
  "read_loop layer bufferlen rbf offset acc =
     (if offset < PAGE_SIZE
      then bindR (mem_read rbf offset 4) (\<lambda>mg.
           if le_word mg \<noteq> MAGIC then Inr acc
           else bindR (mem_read rbf offset 16) (\<lambda>hb.
             let cp = compress_of hb; ty = unat (cp_type cp); off = offset + 16 in
             if ty \<le> LAYER_ANTP_CADENCE
             then bindR (if ty = layer then copy_records rbf off ANTP_RECORD_SIZE 1 acc else Inr acc) (\<lambda>acc'.
                  read_loop layer bufferlen rbf (off + unat (ant_length cp)) acc')
             else if ty \<le> LAYER_ACCELEROMETER
             then bindR (if ty = layer then copy_records rbf off GYRO_RECORD_SIZE (unat (gyr_count cp)) acc
                         else Inr acc) (\<lambda>acc'.
                  read_loop layer bufferlen rbf (off + unat (gyr_count cp) * GYRO_RECORD_SIZE) acc')
             else if ty = LAYER_TEMPERATURE
             then bindR (if ty = layer then copy_records rbf off TEMPERATURE_RECORD_SIZE (unat (tmp_count cp)) acc
                         else Inr acc) (\<lambda>acc'.
                  read_loop layer bufferlen rbf (off + unat (tmp_count cp) * TEMPERATURE_RECORD_SIZE) acc')
             else if ty = LAYER_CONFIG
             then if ty = layer
                  then copy_records rbf off (min (unat (tmp_base cp)) bufferlen) 1 acc
                  else Inr acc
             else read_loop layer bufferlen rbf off acc))
      else Inr acc)"
  by pat_completeness auto
termination by (relation "measure (\<lambda>(layer, bufferlen, rbf, offset, acc). PAGE_SIZE - offset)") auto

declare read_loop.simps [simp del]

definition mxfs_read ::
  "'d driver \<Rightarrow> 'd \<Rightarrow> byte \<Rightarrow> byte list option \<Rightarrow> u16 \<Rightarrow> timerange \<Rightarrow> byte list option \<Rightarrow>
   (int \<times> byte list option \<times> 'd) res" where
  "mxfs_read drv d layer buffer bufferlen timerange rbf =
     (case buffer of
        None \<Rightarrow> Inr (ERR, buffer, d)
      | Some buf \<Rightarrow>
          if bufferlen = 0 then Inr (ERR, buffer, d)
          else case rbf of
            None \<Rightarrow> Inr (ERR, buffer, d)
          | Some page0 \<Rightarrow>
              bindR (drv_read drv d (tr_block timerange) (tr_page timerange) page0 (of_nat PAGE_SIZE))
                (\<lambda>(r, page, d').
                 if r \<noteq> OK then Inr (ERR, buffer, d')
                 else bindR (read_loop (unat layer) (unat bufferlen) page 0 (buf, 0)) (\<lambda>(buf', result_offset).
                      Inr (int result_offset, Some buf', d'))))"

section \<open>mxfs_write and mxfs_erase\<close>

definition direct_header :: "u16 \<Rightarrow> compress \<Rightarrow> compress" where
  "direct_header bufferlen cp =
     set_tmp_base (ucast bufferlen) (set_type (of_nat LAYER_DIRECT) (cp\<lparr>cp_magic := MAGIC\<rparr>))"

definition mxfs_write ::
  "'d driver \<Rightarrow> 'd \<Rightarrow> byte \<Rightarrow> byte list option \<Rightarrow> u16 \<Rightarrow> timerange \<Rightarrow> byte list option \<Rightarrow> (int \<times> 'd) res" where
  "mxfs_write drv d layer buffer bufferlen timerange wbf =
     (case buffer of
        None \<Rightarrow> Inr (ERR, d)
      | Some buf \<Rightarrow>
          if bufferlen = 0 then Inr (ERR, d)
          else if unat layer \<noteq> LAYER_DIRECT then Inr (ERR, d)
          else case wbf of
            None \<Rightarrow> Inl Out_of_bounds
          | Some w0 \<Rightarrow>
              bindR (mem_read w0 0 16) (\<lambda>hb.
              bindR (mem_write w0 0 (compress_bytes (direct_header bufferlen (compress_of hb)))) (\<lambda>w1.
              bindR (mem_read buf 0 (unat bufferlen)) (\<lambda>data.
              bindR (mem_write w1 16 data) (\<lambda>w2.
              drv_write drv d (tr_block timerange) (tr_page timerange) w2 (bufferlen + 16))))))"

definition mxfs_erase :: "'d driver \<Rightarrow> 'd \<Rightarrow> u16 \<Rightarrow> (int \<times> 'd) res" where
  "mxfs_erase drv d block = drv_erase drv d block"

section \<open>Reading at an offset\<close>

lemma mem_read_drop:
  assumes "drop off m = pre @ xs @ post" and "off \<le> length m" and "k = length pre" and "n = length xs"
  shows "mem_read m (off + k) n = Inr xs"
proof -
  have "m = (take off m @ pre) @ xs @ post" using assms(1) by (metis append.assoc append_take_drop_id)
  moreover have "off + k = length (take off m @ pre)" using assms by simp
  ultimately show ?thesis using assms(4) by (metis mem_read_append)
qed

lemmas mem_read_drop0 = mem_read_drop [where pre = "[]" and k = 0, simplified]

lemma copy_records_spec:
  assumes body: "drop off m = body @ post" and "off \<le> length m" and len: "length body = count * sz"
  shows "copy_records m off sz count (buf, ro) =
    (if count = 0 then Inr (buf, ro)
     else bindR (mem_write buf ro body) (\<lambda>b. Inr (b, ro + length body)))"
proof -
  let ?f = "\<lambda>n (buffer, result_offset).
       bindR (mem_read m (off + n * sz) sz) (\<lambda>d.
       bindR (mem_write buffer result_offset d) (\<lambda>buffer'. Inr (buffer', result_offset + sz)))"
  have "foldR ?f [0..<k] (buf, ro) =
      (if k = 0 then Inr (buf, ro)
       else bindR (mem_write buf ro (take (k * sz) body)) (\<lambda>b. Inr (b, ro + k * sz)))"
    if "k \<le> count" for k
    using that
  proof (induction k)
    case 0
    show ?case by simp
  next
    case (Suc k)
    let ?d = "take sz (drop (k * sz) body)"
    have le: "k * sz + sz \<le> length body" using Suc.prems len by (metis add.commute mult_Suc mult_le_mono1)
    then have ld: "length ?d = sz" by simp
    have tk: "take (Suc k * sz) body = take (k * sz) body @ ?d" by (metis add.commute mult_Suc take_add)
    have "body = take (k * sz) body @ ?d @ drop (k * sz + sz) body"
      by (metis append.assoc append_take_drop_id take_add)
    then have "drop off m = take (k * sz) body @ ?d @ (drop (k * sz + sz) body @ post)"
      using body by (metis append.assoc)
    then have rd: "mem_read m (off + k * sz) sz = Inr ?d"
      by (rule mem_read_drop) (use assms(2) le ld in simp_all)
    show ?case
    proof (cases "k = 0")
      case True
      then show ?thesis using rd by (simp add: bindR_assoc)
    next
      case False
      have lt: "length (take (k * sz) body) = k * sz" using le by simp
      have "foldR ?f [0..<Suc k] (buf, ro) =
          bindR (mem_write buf ro (take (k * sz) body)) (\<lambda>b. ?f k (b, ro + k * sz))"
        using Suc False by (simp add: foldR_append bindR_assoc)
      also have "\<dots> = bindR (bindR (mem_write buf ro (take (k * sz) body))
            (\<lambda>b. mem_write b (ro + k * sz) ?d)) (\<lambda>b. Inr (b, ro + Suc k * sz))"
        by (simp add: rd bindR_assoc ac_simps)
      also have "\<dots> = bindR (mem_write buf ro (take (Suc k * sz) body)) (\<lambda>b. Inr (b, ro + Suc k * sz))"
        using mem_write_mem_write [of buf ro "take (k * sz) body" ?d] lt tk by simp
      finally show ?thesis by simp
    qed
  qed
  from this [of count] show ?thesis by (simp add: copy_records_def len)
qed

section \<open>The walk of mxfs_read\<close>

definition read_visit :: "nat \<Rightarrow> chunk \<Rightarrow> byte list \<times> nat \<Rightarrow> (byte list \<times> nat) res" where
  "read_visit layer ck acc =
     (if ck_type ck = layer \<and> ck_body ck \<noteq> []
      then bindR (mem_write (fst acc) (snd acc) (ck_body ck)) (\<lambda>b. Inr (b, snd acc + length (ck_body ck)))
      else Inr acc)"

lemma chunk_reads:
  assumes "drop off page = enc_chunk ck @ rest"
  shows "off \<le> length page"
    and "mem_read page off 4 = Inr (take 4 (compress_bytes (ck_head ck)))"
    and "mem_read page off 16 = Inr (compress_bytes (ck_head ck))"
    and "drop (off + 16) page = ck_body ck @ rest"
proof -
  from arg_cong [OF assms, of length] show le: "off \<le> length page" by (simp add: enc_chunk_def)
  have d: "drop off page = compress_bytes (ck_head ck) @ ck_body ck @ rest"
    using assms by (simp add: enc_chunk_def)
  then have d': "drop off page = take 4 (compress_bytes (ck_head ck)) @
      (drop 4 (compress_bytes (ck_head ck)) @ ck_body ck @ rest)"
    by (metis append.assoc append_take_drop_id)
  show "mem_read page off 4 = Inr (take 4 (compress_bytes (ck_head ck)))"
    by (rule mem_read_drop0 [OF d' le]) simp
  show "mem_read page off 16 = Inr (compress_bytes (ck_head ck))"
    by (rule mem_read_drop0 [OF d le]) simp
  have "drop (off + 16) page = drop 16 (drop off page)" by (simp add: add.commute)
  then show "drop (off + 16) page = ck_body ck @ rest" by (simp add: d)
qed

lemma magic_of_bytes [simp]: "le_word (take 4 (compress_bytes cp)) = cp_magic cp"
  using magic_of_bytes_append [of cp "[]"] by simp

lemma sensor_chunk_cases:
  assumes "sensor_chunk ck"
  obtains (ant) "ck_type ck \<le> 2" "length (ck_body ck) = 18" "unat (ant_length (ck_head ck)) = 18"
  | (gyro) "2 < ck_type ck" "ck_type ck \<le> 4" "length (ck_body ck) = unat (gyr_count (ck_head ck)) * 6"
  | (temp) "ck_type ck = 5" "length (ck_body ck) = unat (tmp_count (ck_head ck)) * 2"
proof -
  have lt: "ck_type ck < 6" and len: "length (ck_body ck) = payload_size (ck_head ck)"
    and a: "ck_type ck \<le> 2 \<Longrightarrow> length (ck_body ck) = 18"
    using assms by (simp_all add: sensor_chunk_def)
  consider "ck_type ck \<le> 2" | "2 < ck_type ck" "ck_type ck \<le> 4" | "ck_type ck = 5"
    using lt by linarith
  then show thesis
  proof cases
    case 1 then show ?thesis using ant a len by (simp add: payload_size_def ck_type_def Let_def)
  next
    case 2 then show ?thesis using gyro len by (simp add: payload_size_def ck_type_def Let_def)
  next
    case 3 then show ?thesis using temp len by (simp add: payload_size_def ck_type_def Let_def)
  qed
qed

interpretation read_walk: page_walker "read_loop layer bufferlen" "read_visit layer" PAGE_SIZE
proof unfold_locales
  fix ck off page rest and a :: "byte list \<times> nat"
  assume ck: "sensor_chunk ck" and off: "off < PAGE_SIZE" and d: "drop off page = enc_chunk ck @ rest"
  have magic: "cp_magic (ck_head ck) = MAGIC" using ck by (simp add: sensor_chunk_def)
  note reads = chunk_reads [OF d]
  have "off + 16 \<le> length page"
    using reads(3) by (simp add: mem_read_def split: if_splits)
  note copy = copy_records_spec [OF reads(4) this]
  show "read_loop layer bufferlen page off a =
      bindR (read_visit layer ck a) (read_loop layer bufferlen page (off + length (enc_chunk ck)))"
    using ck
  proof (cases rule: sensor_chunk_cases)
    case ant
    then show ?thesis
      using off magic reads copy [of 1 18 "fst a" "snd a"]
      by (subst read_loop.simps) (auto simp: read_visit_def ck_type_def enc_chunk_def Let_def add_ac)
  next
    case gyro
    then show ?thesis
      using off magic reads copy [of "unat (gyr_count (ck_head ck))" 6 "fst a" "snd a"]
      by (subst read_loop.simps) (auto simp: read_visit_def ck_type_def enc_chunk_def Let_def add_ac)
  next
    case temp
    then show ?thesis
      using off magic reads copy [of "unat (tmp_count (ck_head ck))" 2 "fst a" "snd a"]
      by (subst read_loop.simps) (auto simp: read_visit_def ck_type_def enc_chunk_def Let_def add_ac)
  qed
next
  fix off page and a :: "byte list \<times> nat"
  assume "off < PAGE_SIZE" "off + 4 \<le> length page" "le_word (take 4 (drop off page)) \<noteq> MAGIC"
  then show "read_loop layer bufferlen page off a = Inr a"
    by (subst read_loop.simps) (simp add: mem_read_def)
next
  fix off page and a :: "byte list \<times> nat"
  assume "PAGE_SIZE \<le> off"
  then show "read_loop layer bufferlen page off a = Inr a"
    by (subst read_loop.simps) simp
qed

text \<open>A configuration chunk ends the walk with one copy.\<close>

lemma read_loop_config:
  assumes d: "drop off page = compress_bytes cp @ rest" and m: "cp_magic cp = MAGIC" and t: "unat (cp_type cp) = 6"
    and off: "off < PAGE_SIZE"
  shows "read_loop 6 n page off acc = copy_records page (off + 16) (min (unat (tmp_base cp)) n) 1 acc"
proof -
  have "drop off page = enc_chunk \<lparr>ck_head = cp, ck_body = []\<rparr> @ rest" using d by (simp add: enc_chunk_def)
  from chunk_reads [OF this] show ?thesis
    using m t off by (subst read_loop.simps) (simp add: Let_def)
qed

end
