(* ===== verification/Mxfs_Invariant.thy ===== *)
theory Mxfs_Invariant
  imports Flush_Spec Mxfs_Read
begin

text \<open>
  The invariant of an instance: every layer buffer holds whole samples, the page they would make is
  at most 2000 bytes, and the write position lies in the data area. It is kept by \<open>mxfs_append\<close> and
  \<open>mxfs_flush\<close> over any driver, whatever that driver returns, and under it neither makes an
  access outside a buffer. \<open>mxfs_step\<close> is the step relation of an instance in use.
\<close>

section \<open>The invariant\<close>

definition good_build :: "'p build \<Rightarrow> bool" where
  "good_build cfg \<longleftrightarrow> MXFS_BUFFER_SIZE cfg < 2 ^ 16"

definition position_ok :: "'p mxfs_inst \<Rightarrow> bool" where
  "position_ok inst \<longleftrightarrow>
     BLOCK_START_DATA_AREA \<le> unat (mxfs_current_block inst) \<and>
     valid_pos (unat (mxfs_current_block inst)) (unat (mxfs_current_page inst))"

definition inst_inv :: "'p build \<Rightarrow> 'p mxfs_inst \<Rightarrow> bool" where
  "inst_inv cfg inst \<longleftrightarrow>
     buffers_ok cfg inst \<and> page_len (counts_of inst) \<le> 2000 \<and> position_ok inst"

text \<open>The blocks an instance has marked to be erased before they are written.\<close>

definition marked :: "'p mxfs_inst \<Rightarrow> nat \<Rightarrow> bool" where
  "marked inst b \<longleftrightarrow> bs_flags (blocks inst b) AND BLOCK_INVALID \<noteq> 0"

definition next_pos :: "nat \<times> nat \<Rightarrow> nat \<times> nat" where
  "next_pos = (\<lambda>(b, p). if p + 1 < PAGE_COUNT then (b, p + 1)
     else (if b + 1 < BLOCK_COUNT then b + 1 else BLOCK_START_DATA_AREA, 0))"

definition position :: "'p mxfs_inst \<Rightarrow> nat \<times> nat" where
  "position inst = (unat (mxfs_current_block inst), unat (mxfs_current_page inst))"

section \<open>Steps of an instance in use\<close>

inductive mxfs_step ::
  "'p build \<Rightarrow> 'd driver \<Rightarrow> 'p mxfs_inst \<times> 'd \<Rightarrow> 'p mxfs_inst \<times> 'd \<Rightarrow> bool" for cfg drv where
  append: "mxfs_append cfg drv inst d layer tmm buffer bufferlen = Inr (ret, inst', d') \<Longrightarrow>
     mxfs_step cfg drv (inst, d) (inst', d')"
| flush: "mxfs_flush cfg drv inst d = Inr (ret, inst', d') \<Longrightarrow> mxfs_step cfg drv (inst, d) (inst', d')"
| read: "mxfs_read drv d layer rbuf bufferlen timerange page = Inr (ret, rbuf', d') \<Longrightarrow>
     mxfs_step cfg drv (inst, d) (inst, d')"
| direct: "mxfs_write drv d layer wbuf bufferlen timerange page = Inr (ret, d') \<Longrightarrow>
     mxfs_step cfg drv (inst, d) (inst, d')"
| erase: "mxfs_erase drv d block = Inr (ret, d') \<Longrightarrow> mxfs_step cfg drv (inst, d) (inst, d')"

inductive_cases mxfs_stepE: "mxfs_step cfg drv s s'"

inductive mxfs_reachable ::
  "'p build \<Rightarrow> 'd driver \<Rightarrow> 'p mxfs_inst \<times> 'd \<Rightarrow> 'p mxfs_inst \<times> 'd \<Rightarrow> bool" for cfg drv s0 where
  start: "mxfs_reachable cfg drv s0 s0"
| step: "mxfs_reachable cfg drv s0 s \<Longrightarrow> mxfs_step cfg drv s s' \<Longrightarrow> mxfs_reachable cfg drv s0 s'"

section \<open>Flushing under the invariant\<close>

lemma inst_invD:
  assumes "inst_inv cfg inst"
  shows "buffers_ok cfg inst" "page_len (counts_of inst) \<le> 2000" "position_ok inst"
  using assms by (simp_all add: inst_inv_def)

lemma nothing_pending_iff:
  "inst_inv cfg inst \<Longrightarrow> flush_current_length inst = 0 \<longleftrightarrow> page_len (counts_of inst) = 0"
  by (rule flush_current_length_0_iff) (simp add: inst_inv_def)

lemma length_pending_image:
  assumes "inst_inv cfg inst"
  shows "length (page_image (pending_of inst)) = page_len (counts_of inst)"
proof -
  have "sized (rsz l) (pending_of inst l)" if "l < LAYER_MAX" for l
    using layer_ok_sized [OF buffers_okD [OF inst_invD(1) [OF assms] that]] .
  then show ?thesis by (simp add: length_page_image)
qed

lemma flush_erase_simps:
  "mxfs_current_block inst = cb \<Longrightarrow> unat cb < BLOCK_COUNT \<Longrightarrow> marked inst (unat cb) \<Longrightarrow>
   flush_erase drv inst d = bindR (drv_erase drv d cb) (\<lambda>(ret, d').
     Inr (if ret \<noteq> OK then ERR else OK,
          inst\<lparr>blocks := (blocks inst)(unat cb := (blocks inst (unat cb))
            \<lparr>bs_flags := bs_flags (blocks inst (unat cb)) AND NOT BLOCK_INVALID\<rparr>)\<rparr>, d'))"
  "mxfs_current_block inst = cb \<Longrightarrow> unat cb < BLOCK_COUNT \<Longrightarrow> \<not> marked inst (unat cb) \<Longrightarrow>
   flush_erase drv inst d = Inr (OK, inst, d)"
  by (simp_all add: flush_erase_def Let_def marked_def)

text \<open>With something buffered, a flush is: erase where marked, write the reference page, advance.\<close>

lemma mxfs_flush_unfold:
  assumes inv: "inst_inv cfg inst" and ne: "page_len (counts_of inst) \<noteq> 0"
  shows "mxfs_flush cfg drv inst d =
    bindR (flush_erase drv (clear_all inst) d) (\<lambda>(r, inst2, d2).
      if r \<noteq> OK then Inr (ERR, inst2, d2)
      else bindR (drv_write drv d2 (mxfs_current_block inst) (mxfs_current_page inst)
                   (page_image (pending_of inst)) (of_nat (page_len (counts_of inst)))) (\<lambda>(ret, d3).
           if ret = OK then Inr (ret, advance (mark_written cfg (encoded (pending_of inst)) inst2), d3)
           else Inr (ret, inst2, d3)))"
proof -
  have enc: "flush_encode inst = Inr (encoded (pending_of inst), clear_all inst)"
    by (rule flush_encode_spec) (use inst_invD [OF inv] in simp_all)
  have fl: "flush_current_length inst \<noteq> 0" using nothing_pending_iff [OF inv] ne by simp
  have frame: "mxfs_current_block inst2 = mxfs_current_block inst \<and> mxfs_current_page inst2 = mxfs_current_page inst"
    if "flush_erase drv (clear_all inst) d = Inr (r, inst2, d2)" for r inst2 d2
    using that by (auto simp: flush_erase_def Let_def bindR_eq_Inr split: if_splits)
  have pg: "unat (mxfs_current_page inst) < PAGE_COUNT"
    using inst_invD(3) [OF inv] by (simp add: position_ok_def)
  have len: "length (work_buffer (encoded (pending_of inst))) = page_len (counts_of inst)"
    by (simp add: encoded_def length_pending_image [OF inv])
  show ?thesis
    unfolding mxfs_flush_def using fl
    by (auto simp: enc len intro!: bindR_cong dest!: frame) (auto simp: encoded_def pg)
qed

lemma mxfs_flush_nothing:
  "inst_inv cfg inst \<Longrightarrow> page_len (counts_of inst) = 0 \<Longrightarrow> mxfs_flush cfg drv inst d = Inr (OK, inst, d)"
  by (simp add: mxfs_flush_def nothing_pending_iff)

section \<open>Advancing the write position\<close>

lemma unat_plus_one:
  "unat (w::u16) < 2 ^ 16 - 1 \<Longrightarrow> unat (w + 1) = unat w + 1"
  by (simp add: unat_word_ariths)

lemma advance_position:
  assumes "position_ok inst"
  shows "position (advance inst) = next_pos (position inst)" and "position_ok (advance inst)"
proof -
  let ?b = "mxfs_current_block inst" and ?p = "mxfs_current_page inst"
  have p: "unat (?p + 1) = unat ?p + 1" and b: "unat (?b + 1) = unat ?b + 1"
    using assms unat_plus_one [of ?p] unat_plus_one [of ?b] by (simp_all add: position_ok_def)
  show "position (advance inst) = next_pos (position inst)" and "position_ok (advance inst)"
    using assms by (auto simp: advance_def Let_def p b position_def next_pos_def position_ok_def)
qed

lemma advance_buffers [simp]:
  "mxfs_buffer (advance inst) = mxfs_buffer inst" "mxfs_length (advance inst) = mxfs_length inst"
  "mxfs_count (advance inst) = mxfs_count inst"
  by (simp_all add: advance_def Let_def)

lemma mark_written_frame [simp]:
  "mxfs_buffer (mark_written cfg st inst) = mxfs_buffer inst"
  "mxfs_length (mark_written cfg st inst) = mxfs_length inst"
  "mxfs_count (mark_written cfg st inst) = mxfs_count inst"
  "mxfs_current_block (mark_written cfg st inst) = mxfs_current_block inst"
  "mxfs_current_page (mark_written cfg st inst) = mxfs_current_page inst"
  "bs_flags (blocks (mark_written cfg st inst) b) = bs_flags (blocks inst b)"
  by (simp_all add: mark_written_def Let_def)

lemma position_mark_written [simp]:
  "position (mark_written cfg st inst) = position inst" "position_ok (mark_written cfg st inst) = position_ok inst"
  "marked (mark_written cfg st inst) = marked inst"
  by (simp_all add: position_def position_ok_def marked_def fun_eq_iff)

text \<open>Only the buffers matter to \<open>buffers_ok\<close>, \<open>pending_of\<close> and \<open>counts_of\<close>.\<close>

lemma same_buffers:
  assumes "mxfs_buffer inst' = mxfs_buffer inst" "mxfs_length inst' = mxfs_length inst"
    "mxfs_count inst' = mxfs_count inst"
  shows "buffers_ok cfg inst' = buffers_ok cfg inst" "pending_of inst' = pending_of inst"
    "counts_of inst' = counts_of inst"
  by (simp_all add: buffers_ok_def layer_ok_def [abs_def] pending_of_def [abs_def] counts_of_def [abs_def] assms)

section \<open>The invariant under flush\<close>

text \<open>What a flush makes of the instance, over any driver: nothing, emptied, or emptied and advanced.\<close>

lemma flush_erase_inst:
  assumes "flush_erase drv inst d = Inr (r, inst', d')"
  shows "mxfs_buffer inst' = mxfs_buffer inst" "mxfs_length inst' = mxfs_length inst"
    "mxfs_count inst' = mxfs_count inst" "position inst' = position inst"
  using assms by (auto simp: flush_erase_def Let_def bindR_eq_Inr position_def split: if_splits)

lemma counts_of_clear_all: "page_len (counts_of (clear_all inst)) = 0"
  by (simp add: page_len_0_iff counts_of_def)

lemma position_ok_iff: "position_ok inst \<longleftrightarrow> 1 \<le> fst (position inst) \<and> valid_pos (fst (position inst)) (snd (position inst))"
  by (auto simp: position_ok_def position_def)

lemma inst_inv_emptied:
  assumes inv: "inst_inv cfg inst" and pos: "position_ok inst'"
    and eq: "mxfs_buffer inst' = mxfs_buffer (clear_all inst)" "mxfs_length inst' = mxfs_length (clear_all inst)"
    "mxfs_count inst' = mxfs_count (clear_all inst)"
  shows "inst_inv cfg inst' \<and> page_len (counts_of inst') = 0"
  using pos buffers_ok_clear_all [OF inst_invD(1) [OF inv]] counts_of_clear_all [of inst] same_buffers [OF eq]
  by (simp add: inst_inv_def)

lemma mxfs_flush_inst:
  assumes inv: "inst_inv cfg inst" and fl: "mxfs_flush cfg drv inst d = Inr (ret, inst', d')"
  shows "inst_inv cfg inst' \<and> page_len (counts_of inst') = 0 \<and>
    (position inst' = position inst \<or> position inst' = next_pos (position inst))"
proof (cases "page_len (counts_of inst) = 0")
  case True
  then show ?thesis using assms by (simp add: mxfs_flush_nothing)
next
  case False
  note unf = mxfs_flush_unfold [OF inv False]
  from fl obtain r inst2 d2 where er: "flush_erase drv (clear_all inst) d = Inr (r, inst2, d2)"
    by (auto simp: unf bindR_eq_Inr)
  have pos: "position inst2 = position inst"
    using flush_erase_inst(4) [OF er] by (simp add: position_def)
  then have ok: "position_ok inst2" using inst_invD(3) [OF inv] by (simp add: position_ok_iff)
  from fl er consider "inst' = inst2"
    | "inst' = advance (mark_written cfg (encoded (pending_of inst)) inst2)"
    by (auto simp: unf bindR_eq_Inr split: if_splits)
  then show ?thesis
  proof cases
    case 1
    then show ?thesis using inst_inv_emptied [OF inv ok] flush_erase_inst [OF er] pos by simp
  next
    case 2
    have "position_ok inst'" "position inst' = next_pos (position inst)"
      using advance_position [of "mark_written cfg (encoded (pending_of inst)) inst2"] ok pos 2 by simp_all
    then show ?thesis using inst_inv_emptied [OF inv, of inst'] flush_erase_inst [OF er] 2 by simp
  qed
qed

section \<open>Storing a record under the invariant\<close>

lemma append_store_spec:
  assumes cfg: "good_build cfg" and l: "l < LAYER_MAX" and ok: "layer_ok cfg inst l"
    and len: "unat n = rsz l" and buf: "unat n \<le> length buffer"
    and room: "unat (mxfs_length inst l) + 8 + rsz l \<le> MXFS_BUFFER_SIZE cfg"
  shows "\<exists>inst'. append_store cfg l t buffer n inst = Inr (OK, inst') \<and>
    layer_ok cfg inst' l \<and> pending_of inst' l = pending_of inst l @ [(t, take (rsz l) buffer)] \<and>
    (\<forall>k. k \<noteq> l \<longrightarrow> mxfs_buffer inst' k = mxfs_buffer inst k \<and> mxfs_length inst' k = mxfs_length inst k \<and>
         mxfs_count inst' k = mxfs_count inst k) \<and>
    position inst' = position inst \<and> blocks inst' = blocks inst"
proof -
  let ?ss = "pending_of inst l" and ?s = "(t, take (rsz l) buffer)" and ?b = "mxfs_buffer inst l"
  let ?lpos = "unat (mxfs_length inst l)"
  obtain rest where b: "?b = concat (map enc_sample ?ss) @ rest" and sz: "sized (rsz l) ?ss"
    and lp: "?lpos = length ?ss * (rsz l + 8)"
    using ok by (rule layer_ok_buffer)
  have pre: "length (concat (map enc_sample ?ss)) = ?lpos" using length_enc_samples [OF sz] lp by simp
  have lb: "length ?b = MXFS_BUFFER_SIZE cfg" using ok by (simp add: layer_ok_def)
  have d: "length (take (rsz l) buffer) = rsz l" using buf len by simp
  let ?new = "concat (map enc_sample ?ss) @ enc_sample ?s @ drop (8 + rsz l) rest"
  have lr: "8 + rsz l \<le> length rest" using room lb b pre by simp
  define inst' where "inst' = inst\<lparr>mxfs_buffer := (mxfs_buffer inst)(l := ?new),
    mxfs_length := (mxfs_length inst)(l := mxfs_length inst l + 8 + n),
    mxfs_count := (mxfs_count inst)(l := mxfs_count inst l + 1)\<rparr>"
  have st: "append_store cfg l t buffer n inst = Inr (OK, inst')"
    using room len buf lr pre d
    by (simp add: append_store_def Let_def mem_write_def mem_read_def b inst'_def enc_sample_def add_ac)
  have small: "unat (mxfs_length inst l) + 8 + rsz l < 2 ^ 16"
    using room cfg by (simp add: good_build_def)
  have l': "unat (mxfs_length inst l + 8 + n) = ?lpos + 8 + rsz l"
    using small len by (simp add: unat_word_ariths)
  have "length ?ss * (rsz l + 8) + 8 < 2 ^ 16" using small lp by simp
  moreover have "length ?ss \<le> length ?ss * (rsz l + 8)" by simp
  ultimately have "length ?ss + 1 < 2 ^ 16" by linarith
  then have c': "unat (mxfs_count inst l + 1) = length ?ss + 1"
    by (simp add: counts_of_def unat_word_ariths)
  have "length ?new = MXFS_BUFFER_SIZE cfg" using lb b pre lr d by simp
  then have "layer_ok cfg inst' l"
    using l' c' lp room by (simp add: layer_ok_def inst'_def)
  moreover have "pending_of inst' l = ?ss @ [?s]"
    by (rule pending_ofI [where rest = "drop (8 + rsz l) rest"]) (use sz d c' in \<open>simp_all add: inst'_def\<close>)
  ultimately show ?thesis using st by (auto simp: inst'_def position_def)
qed

section \<open>Appending under the invariant\<close>

lemma empty_layer:
  "inst_inv cfg inst \<Longrightarrow> page_len (counts_of inst) = 0 \<Longrightarrow> l < LAYER_MAX \<Longrightarrow>
   mxfs_length inst l = 0 \<and> mxfs_count inst l = 0"
  using layer_ok_empty buffers_okD inst_invD(1)
  by (fastforce simp: page_len_0_iff counts_of_def unat_eq_0)

lemma estimate_under_inv:
  assumes "inst_inv cfg inst" and "unat n = rsz l"
  shows "unat (append_estimate inst + n) = page_len (counts_of inst) + rsz l"
proof -
  have "unat (append_estimate inst) = page_len (counts_of inst)"
    using inst_invD(2) [OF assms(1)] by (intro append_estimate_unat) simp
  moreover have "rsz l \<le> 18" by (simp add: rsz_def)
  ultimately show ?thesis using inst_invD(2) [OF assms(1)] assms(2) by (simp add: unat_word_ariths)
qed

definition append_prepare ::
  "'p build \<Rightarrow> 'd driver \<Rightarrow> 'p mxfs_inst \<Rightarrow> 'd \<Rightarrow> nat \<Rightarrow> ('p mxfs_inst \<times> 'd) res" where
  "append_prepare cfg drv inst d l =
     (if page_len (counts_of inst) + rsz l > PAGE_SIZE - 64
      then bindR (mxfs_flush cfg drv inst d) (\<lambda>(ret, inst1, d1). Inr (inst1, d1))
      else Inr (inst, d))"

text \<open>The layer that \<open>mxfs_append\<close> clears after the flush is empty already.\<close>

lemma mxfs_append_unfold:
  assumes inv: "inst_inv cfg inst" and l: "unat layer < LAYER_MAX" and n: "unat n = rsz (unat layer)"
  shows "mxfs_append cfg drv inst d layer t buffer n =
    bindR (append_prepare cfg drv inst d (unat layer)) (\<lambda>(inst2, d2).
    bindR (append_store cfg (unat layer) t buffer n inst2) (\<lambda>(ret, inst3). Inr (ret, inst3, d2)))"
proof -
  have clr: "clear_layer (unat layer) inst1 = inst1" if "mxfs_flush cfg drv inst d = Inr (ret, inst1, d1)"
    for ret inst1 d1
    using mxfs_flush_inst [OF inv that] empty_layer l by (blast intro: clear_layer_id)
  have "bindR (mxfs_flush cfg drv inst d) (\<lambda>(ret, inst1, d1). Inr (clear_layer (unat layer) inst1, d1)) =
      bindR (mxfs_flush cfg drv inst d) (\<lambda>(ret, inst1, d1). Inr (inst1, d1))"
    by (rule bindR_cong) (auto simp: clr)
  then show ?thesis
    using record_size_rsz [OF l] n estimate_under_inv [OF inv n]
    by (simp add: mxfs_append_def append_prepare_def Let_def)
qed

lemma append_prepare_inst:
  assumes inv: "inst_inv cfg inst" and pr: "append_prepare cfg drv inst d l = Inr (inst2, d2)"
  shows "inst_inv cfg inst2 \<and> page_len (counts_of inst2) + rsz l \<le> PAGE_SIZE - 64 \<and>
    (inst2 = inst \<or> page_len (counts_of inst2) = 0)"
proof (cases "page_len (counts_of inst) + rsz l > PAGE_SIZE - 64")
  case True
  with pr obtain ret where fl: "mxfs_flush cfg drv inst d = Inr (ret, inst2, d2)"
    by (auto simp: append_prepare_def bindR_eq_Inr)
  have "rsz l \<le> 18" by (simp add: rsz_def)
  with mxfs_flush_inst [OF inv fl] show ?thesis by simp
next
  case False
  then show ?thesis using pr inv by (simp add: append_prepare_def)
qed

lemma page_len_snoc:
  assumes "l < LAYER_MAX" and "c' l = c l + 1" and "\<And>k. k \<noteq> l \<Longrightarrow> c' k = c k"
  shows "page_len c' \<le> page_len c + rsz l + 16"
proof -
  have "l = 0 \<or> l = 1 \<or> l = 2 \<or> l = 3 \<or> l = 4 \<or> l = 5" using assms(1) by linarith
  then show ?thesis using assms(2,3) by (elim disjE) (simp_all add: page_len_def)
qed

lemma inst_inv_store:
  assumes inv: "inst_inv cfg inst" and cfg: "good_build cfg" and l: "l < LAYER_MAX"
    and n: "unat n = rsz l" and fits: "page_len (counts_of inst) + rsz l \<le> PAGE_SIZE - 64"
    and st: "append_store cfg l t buffer n inst = Inr (ret, inst')"
  shows "inst_inv cfg inst'"
proof (cases "unat (mxfs_length inst l) + 8 + rsz l \<le> MXFS_BUFFER_SIZE cfg")
  case False
  then show ?thesis using st inv n by (simp add: append_store_def Let_def split: if_splits)
next
  case True
  have ok: "layer_ok cfg inst k" if "k < LAYER_MAX" for k
    using buffers_okD [OF inst_invD(1) [OF inv] that] .
  have buf: "unat n \<le> length buffer"
    using st True n by (auto simp: append_store_def Let_def bindR_eq_Inr mem_read_def split: if_splits)
  from append_store_spec [OF cfg l ok [OF l] n buf True, of t] st
  have new: "layer_ok cfg inst' l" "pending_of inst' l = pending_of inst l @ [(t, take (rsz l) buffer)]"
    and frame: "\<And>k. k \<noteq> l \<Longrightarrow> mxfs_buffer inst' k = mxfs_buffer inst k \<and>
      mxfs_length inst' k = mxfs_length inst k \<and> mxfs_count inst' k = mxfs_count inst k"
    and pos: "position inst' = position inst"
    by auto
  have "layer_ok cfg inst' k" if "k < LAYER_MAX" for k
    using new(1) ok [OF that] frame [of k] by (cases "k = l") (auto simp: layer_ok_def)
  then have "buffers_ok cfg inst'" by (simp add: buffers_ok_def list_all_iff)
  moreover have "page_len (counts_of inst') \<le> page_len (counts_of inst) + rsz l + 16"
  proof (rule page_len_snoc [OF l])
    show "counts_of inst' l = counts_of inst l + 1"
      using arg_cong [OF new(2), of length] by simp
    show "counts_of inst' k = counts_of inst k" if "k \<noteq> l" for k
      using frame [OF that] by (simp add: counts_of_def)
  qed
  ultimately show ?thesis
    using fits pos inst_invD(3) [OF inv] by (simp add: inst_inv_def position_ok_iff)
qed

lemma mxfs_append_inst:
  assumes inv: "inst_inv cfg inst" and cfg: "good_build cfg"
    and ap: "mxfs_append cfg drv inst d layer t buffer n = Inr (ret, inst', d')"
  shows "inst_inv cfg inst'"
proof (cases "record_size (unat layer) = Some (unat n)")
  case False
  then show ?thesis using ap inv by (simp add: mxfs_append_def Let_def)
next
  case True
  then have l: "unat layer < LAYER_MAX" and n: "unat n = rsz (unat layer)"
    using record_size_Some by auto
  from ap obtain inst2 d2 where pr: "append_prepare cfg drv inst d (unat layer) = Inr (inst2, d2)"
    and st: "append_store cfg (unat layer) t buffer n inst2 = Inr (ret, inst')"
    by (auto simp: mxfs_append_unfold [OF inv l n] bindR_eq_Inr)
  from append_prepare_inst [OF inv pr] inst_inv_store [OF _ cfg l n _ st] show ?thesis by blast
qed

section \<open>No fault of its own\<close>

lemma append_store_total:
  assumes inv: "inst_inv cfg inst" and cfg: "good_build cfg" and l: "l < LAYER_MAX" and n: "unat n = rsz l"
    and buf: "unat n \<le> length buffer"
  shows "\<exists>ret inst'. append_store cfg l t buffer n inst = Inr (ret, inst')"
proof (cases "unat (mxfs_length inst l) + 8 + rsz l \<le> MXFS_BUFFER_SIZE cfg")
  case False
  then show ?thesis using n by (simp add: append_store_def Let_def)
next
  case True
  then show ?thesis
    using append_store_spec [OF cfg l buffers_okD [OF inst_invD(1) [OF inv] l] n buf] by blast
qed

lemma mxfs_flush_fault:
  assumes inv: "inst_inv cfg inst" and fl: "mxfs_flush cfg drv inst d = Inl e"
  shows "(\<exists>d1. drv_erase drv d1 (mxfs_current_block inst) = Inl e) \<or>
    (\<exists>d1. drv_write drv d1 (mxfs_current_block inst) (mxfs_current_page inst)
       (page_image (pending_of inst)) (of_nat (page_len (counts_of inst))) = Inl e)"
proof (cases "page_len (counts_of inst) = 0")
  case True
  then show ?thesis using assms by (simp add: mxfs_flush_nothing)
next
  case False
  have "flush_erase drv (clear_all inst) d = Inl e \<Longrightarrow> drv_erase drv d (mxfs_current_block inst) = Inl e"
    using inst_invD(3) [OF inv]
    by (auto simp: flush_erase_def Let_def position_ok_def bindR_eq_Inl split: if_splits prod.splits)
  then show ?thesis
    using fl unfolding mxfs_flush_unfold [OF inv False] bindR_eq_Inl
    by (auto simp: bindR_eq_Inl split: if_splits)
qed

lemma mxfs_append_fault:
  assumes inv: "inst_inv cfg inst" and cfg: "good_build cfg" and buf: "unat n \<le> length buffer"
    and ap: "mxfs_append cfg drv inst d layer t buffer n = Inl e"
  shows "(\<exists>d1. drv_erase drv d1 (mxfs_current_block inst) = Inl e) \<or>
    (\<exists>d1. drv_write drv d1 (mxfs_current_block inst) (mxfs_current_page inst)
       (page_image (pending_of inst)) (of_nat (page_len (counts_of inst))) = Inl e)"
proof (cases "record_size (unat layer) = Some (unat n)")
  case False
  then show ?thesis using ap by (simp add: mxfs_append_def Let_def)
next
  case True
  then have l: "unat layer < LAYER_MAX" and n: "unat n = rsz (unat layer)"
    using record_size_Some by auto
  have st: "append_store cfg (unat layer) t buffer n inst2 \<noteq> Inl e"
    if "append_prepare cfg drv inst d (unat layer) = Inr (inst2, d2)" for inst2 d2
    using append_store_total [OF _ cfg l n buf, of inst2 t] append_prepare_inst [OF inv that] by auto
  have "append_prepare cfg drv inst d (unat layer) = Inl e"
    using ap unfolding mxfs_append_unfold [OF inv l n] by (auto simp: bindR_eq_Inl dest: st)
  then have "mxfs_flush cfg drv inst d = Inl e"
    by (auto simp: append_prepare_def bindR_eq_Inl split: if_splits)
  then show ?thesis by (rule mxfs_flush_fault [OF inv])
qed

lemma mxfs_append_rejects:
  "record_size (unat layer) \<noteq> Some (unat n) \<Longrightarrow> mxfs_append cfg drv inst d layer t buffer n = Inr (ERR, inst, d)"
  by (simp add: mxfs_append_def Let_def)

text \<open>The invariant is kept along every run.\<close>

lemma mxfs_step_inv:
  assumes "good_build cfg" and "mxfs_step cfg drv s s'" and "inst_inv cfg (fst s)"
  shows "inst_inv cfg (fst s')"
  using assms(2,3) by (cases rule: mxfs_step.cases) (auto dest: mxfs_append_inst [OF _ assms(1)] mxfs_flush_inst)

lemma mxfs_reachable_inv:
  assumes "good_build cfg"
  shows "mxfs_reachable cfg drv s0 s \<Longrightarrow> inst_inv cfg (fst s0) \<Longrightarrow> inst_inv cfg (fst s)"
  by (induction rule: mxfs_reachable.induct) (auto intro: mxfs_step_inv [OF assms])

lemma mxfs_step_length:
  assumes "inst_inv cfg inst" and "mxfs_flush cfg drv inst d = Inr (ret, inst', d')"
  shows "\<forall>l<LAYER_MAX. pending_of inst' l = []"
  using mxfs_flush_inst [OF assms] by (simp add: page_len_0_iff counts_of_def unat_eq_0)

end
