(* ===== verification/Mxfs_Log.thy ===== *)
theory Mxfs_Log
  imports Mxfs_Invariant
begin

text \<open>
  The abstract log and the refinement to it. Abstractly, MXFS is a list of flushed pages (each the
  samples of the six layers) and the samples not flushed yet: a flush moves the latter to the end
  of the former. Concretely, page number \<open>i\<close> lives at flash position \<open>log_pos s i\<close> of a ring that
  starts at block \<open>s\<close>, and is lost only when its block is recycled: the pages from \<open>log_low\<close> on are
  still there. The simulation is proved for every driver that meets the \<open>flash_driver\<close> contract.
\<close>

section \<open>The abstract log\<close>

record mxfs_log =
  log_pages :: "pending list"
  log_pending :: pending

definition pending_len :: "pending \<Rightarrow> nat" where
  "pending_len P = page_len (\<lambda>l. length (P l))"

definition log_flush :: "mxfs_log \<Rightarrow> mxfs_log" where
  "log_flush L =
     (if pending_len (log_pending L) = 0 then L
      else \<lparr>log_pages = log_pages L @ [log_pending L], log_pending = (\<lambda>l. [])\<rparr>)"

definition log_append :: "nat \<Rightarrow> sample \<Rightarrow> mxfs_log \<Rightarrow> mxfs_log" where
  "log_append l s L =
     (let L' = (if pending_len (log_pending L) + rsz l > PAGE_SIZE - 64 then log_flush L else L) in
      L'\<lparr>log_pending := (log_pending L')(l := log_pending L' l @ [s])\<rparr>)"

definition log_samples :: "mxfs_log \<Rightarrow> nat \<Rightarrow> sample list" where
  "log_samples L l = concat (map (\<lambda>P. P l) (log_pages L)) @ log_pending L l"

section \<open>The ring of pages\<close>

definition log_pos :: "nat \<Rightarrow> nat \<Rightarrow> nat \<times> nat" where
  "log_pos s i = (1 + (s - 1 + i div PAGE_COUNT) mod (BLOCK_COUNT - 1), i mod PAGE_COUNT)"

text \<open>The first page that has not been recycled after \<open>h\<close> flushes.\<close>

definition log_low :: "nat \<Rightarrow> nat" where
  "log_low h = ((h - 1) div PAGE_COUNT - (BLOCK_COUNT - 2)) * PAGE_COUNT"

section \<open>The simulation relation\<close>

definition page_ok :: "pending \<Rightarrow> bool" where
  "page_ok P \<longleftrightarrow> (\<forall>l<LAYER_MAX. sized (rsz l) (P l)) \<and> pending_len P \<le> 2000"

definition holds_page :: "byte list \<Rightarrow> pending \<Rightarrow> bool" where
  "holds_page pg P \<longleftrightarrow> (\<exists>fill. idle_byte fill \<and> pg = programmed (page_image P) fill)"

definition tail_ok :: "flash_image \<Rightarrow> 'p mxfs_inst \<Rightarrow> bool" where
  "tail_ok f inst \<longleftrightarrow>
     (let (b, p) = position inst in
      (marked inst b \<or> (\<forall>q. p \<le> q \<and> q < PAGE_COUNT \<longrightarrow> f b q = blank_page)) \<and>
      (p \<noteq> 0 \<longrightarrow> \<not> marked inst b))"

definition pages_ok :: "flash_image \<Rightarrow> nat \<Rightarrow> pending list \<Rightarrow> bool" where
  "pages_ok f s H \<longleftrightarrow>
     (\<forall>i. log_low (length H) \<le> i \<and> i < length H \<longrightarrow>
        page_ok (H ! i) \<and> holds_page (f (fst (log_pos s i)) (snd (log_pos s i))) (H ! i))"

definition log_rel :: "'p build \<Rightarrow> flash_image \<Rightarrow> nat \<Rightarrow> 'p mxfs_inst \<Rightarrow> mxfs_log \<Rightarrow> bool" where
  "log_rel cfg f s inst L \<longleftrightarrow>
     inst_inv cfg inst \<and> position inst = log_pos s (length (log_pages L)) \<and>
     (\<forall>l<LAYER_MAX. pending_of inst l = log_pending L l) \<and>
     pages_ok f s (log_pages L) \<and> tail_ok f inst"

text \<open>The blocks that the pages \<open>m\<close> to \<open>n\<close> of the ring live in, and images equal outside some blocks.\<close>

definition touched :: "nat \<Rightarrow> nat \<Rightarrow> nat \<Rightarrow> nat set" where
  "touched s m n = (\<lambda>i. fst (log_pos s i)) ` {m..<n}"

definition same_outside :: "nat set \<Rightarrow> flash_image \<Rightarrow> flash_image \<Rightarrow> bool" where
  "same_outside B f g \<longleftrightarrow> (\<forall>b p. valid_pos b p \<longrightarrow> b \<notin> B \<longrightarrow> f b p = g b p)"

lemma same_outside_refl [simp]: "same_outside B f f"
  by (simp add: same_outside_def)

lemma same_outside_trans: "same_outside A f g \<Longrightarrow> same_outside B g h \<Longrightarrow> A \<subseteq> C \<Longrightarrow> B \<subseteq> C \<Longrightarrow> same_outside C f h"
  unfolding same_outside_def by (metis subsetD)

lemma same_flash_outside: "same_flash f g \<Longrightarrow> same_outside B f g"
  by (simp add: same_flash_def same_outside_def)

lemma touched_empty [simp]: "touched s m m = {}"
  by (simp add: touched_def)

lemma touched_Suc [simp]: "touched s m (Suc m) = {fst (log_pos s m)}"
  by (simp add: touched_def)

lemma touched_mono: "m' \<le> m \<Longrightarrow> n \<le> n' \<Longrightarrow> touched s m n \<subseteq> touched s m' n'"
  by (auto simp: touched_def)

section \<open>Facts about the ring\<close>

lemma log_pos_valid: "valid_pos (fst (log_pos s i)) (snd (log_pos s i))" "1 \<le> fst (log_pos s i)"
proof -
  have "(s - 1 + i div 64) mod 1023 < 1023" by simp
  then show "valid_pos (fst (log_pos s i)) (snd (log_pos s i))" "1 \<le> fst (log_pos s i)"
    by (simp_all add: log_pos_def)
qed

lemma next_log_pos: "next_pos (log_pos s i) = log_pos s (Suc i)"
proof (cases "i mod 64 = 63")
  case True
  then have "Suc i div 64 = Suc (i div 64)" and "Suc i mod 64 = 0"
    by (simp_all add: div_Suc mod_Suc)
  then show ?thesis
    using True by (auto simp: next_pos_def log_pos_def mod_Suc)
next
  case False
  moreover have "i mod 64 < 64" by simp
  ultimately have "Suc i div 64 = i div 64" and "Suc i mod 64 = Suc (i mod 64)" and "i mod 64 + 1 < 64"
    by (simp_all add: div_Suc mod_Suc)
  then show ?thesis by (simp add: next_pos_def log_pos_def)
qed

text \<open>Two page numbers fewer than a lap apart share a block only if they are in it together.\<close>

lemma log_pos_block:
  assumes "i \<le> j" and "j div 64 < i div 64 + 1023" and "fst (log_pos s i) = fst (log_pos s j)"
  shows "i div 64 = j div 64"
proof -
  let ?a = "s - 1 + i div 64" and ?k = "j div 64 - i div 64"
  have le: "i div 64 \<le> j div 64" using assms(1) by (rule div_le_mono)
  then have "(?a + ?k) mod 1023 = ?a mod 1023" using assms(3) by (simp add: log_pos_def)
  then have "1023 dvd ?k" by (simp add: mod_eq_dvd_iff_nat)
  moreover have "?k < 1023" using assms(2) le by linarith
  ultimately have "?k = 0" by (metis dvd_imp_le leD neq0_conv)
  then show ?thesis using le by simp
qed

lemma log_pos_inj:
  assumes "i \<le> j" and "j div 64 < i div 64 + 1023" and "log_pos s i = log_pos s j"
  shows "i = j"
proof -
  have "i div 64 = j div 64" using log_pos_block [OF assms(1,2), of s] assms(3) by simp
  moreover have "i mod 64 = j mod 64" using assms(3) by (simp add: log_pos_def)
  ultimately show ?thesis by (metis mult_div_mod_eq)
qed

lemma log_low_mono: "log_low h \<le> log_low (Suc h)"
  by (auto simp: log_low_def intro!: mult_le_mono1 diff_le_mono div_le_mono)

lemma log_low_lap: "log_low (Suc h) \<le> i \<Longrightarrow> h div 64 < i div 64 + 1023"
proof -
  assume "log_low (Suc h) \<le> i"
  then have "(h div 64 - 1022) * 64 div 64 \<le> i div 64"
    by (intro div_le_mono) (simp add: log_low_def)
  then show ?thesis by simp
qed

section \<open>Facts about pages\<close>

lemma page_image_cong: "(\<And>l. l < LAYER_MAX \<Longrightarrow> P l = Q l) \<Longrightarrow> page_image P = page_image Q"
  by (simp add: page_image_def page_chunks_def carried_last_def)

lemma pending_len_cong: "(\<And>l. l < LAYER_MAX \<Longrightarrow> P l = Q l) \<Longrightarrow> pending_len P = pending_len Q"
  by (simp add: pending_len_def page_len_def)

lemma page_ok_cong: "(\<And>l. l < LAYER_MAX \<Longrightarrow> P l = Q l) \<Longrightarrow> page_ok P = page_ok Q"
  using pending_len_cong [of P Q] by (simp add: page_ok_def)

lemma pending_len_counts: "pending_len (pending_of inst) = page_len (counts_of inst)"
  by (simp add: pending_len_def counts_of_def [abs_def])

lemma page_ok_pending: "inst_inv cfg inst \<Longrightarrow> page_ok (pending_of inst)"
  using layer_ok_sized buffers_okD inst_invD by (fastforce simp: page_ok_def pending_len_counts)

lemma pending_len_empty [simp]: "pending_len (\<lambda>l. []) = 0"
  by (simp add: pending_len_def page_len_def)

lemma length_page_ok: "page_ok P \<Longrightarrow> length (page_image P) = pending_len P"
  by (simp add: page_ok_def length_page_image pending_len_def)

lemma pages_ok_same_flash:
  assumes "pages_ok f s H" and "same_flash g f"
  shows "pages_ok g s H"
proof -
  have "g (fst (log_pos s i)) (snd (log_pos s i)) = f (fst (log_pos s i)) (snd (log_pos s i))" for i
    by (rule same_flashD [OF assms(2)]) (rule log_pos_valid)
  then show ?thesis using assms(1) by (simp add: pages_ok_def)
qed

lemma tail_ok_same_flash:
  assumes "tail_ok f inst" and "same_flash g f" and "position_ok inst"
  shows "tail_ok g inst"
  using assms by (auto simp: tail_ok_def position_ok_iff same_flash_def split: prod.splits)

end
