(* ===== verification/Page_Content.thy ===== *)
theory Page_Content
  imports Mxfs_Log
begin

text \<open>
  What a written page gives back: the chunks of \<open>page_chunks\<close> are well-formed, each layer's payloads
  are the bodies of its samples in order, the fill behind them stops a walk, and the walk of
  \<open>mxfs_read\<close> collects one layer's payloads.
\<close>

section \<open>The chunks of a page\<close>

lemma layer_word [simp]: "l < 32 \<Longrightarrow> unat (take_bit 5 (of_nat l :: u32)) = l"
  by (subst take_bit_small) (simp_all add: unat_of_nat_small)

lemma ant_chunk_type [simp]: "l < 32 \<Longrightarrow> ck_type (ant_chunk l s) = l"
  by (simp add: ck_type_def ant_chunk_def ant_header_def cp_simps)

lemma gyro_header_type [simp]: "l < 32 \<Longrightarrow> unat (cp_type (gyro_header l t u k)) = l"
  by (simp add: gyro_header_def cp_simps)

lemma temp_header_type [simp]: "unat (cp_type (temp_header t u k)) = 5"
  using layer_word [of 5] by (simp add: temp_header_def cp_simps)

lemma gyro_header_count: "k < 2 ^ 11 \<Longrightarrow> unat (gyr_count (gyro_header l t u k)) = k"
  by (simp add: gyro_header_def cp_simps take_bit_small unat_of_nat_small)

lemma temp_header_count: "k < 2 ^ 16 \<Longrightarrow> unat (tmp_count (temp_header t u k)) = k"
  by (simp add: temp_header_def cp_simps take_bit_small unat_of_nat_small)

lemma header_magic [simp]:
  "cp_magic (ant_header l t) = MAGIC" "cp_magic (gyro_header l t u k) = MAGIC" "cp_magic (temp_header t u k) = MAGIC"
  by (simp_all add: ant_header_def gyro_header_def temp_header_def cp_simps)

lemma sensor_ant: "l \<le> 2 \<Longrightarrow> length (snd s) = 18 \<Longrightarrow> sensor_chunk (ant_chunk l s)"
  by (simp add: sensor_chunk_def payload_size_def flip: ck_type_def)
    (simp add: ant_chunk_def ant_header_def cp_simps take_bit_small)

lemma sensor_gyro:
  assumes "l = 3 \<or> l = 4" and "sized 6 ss" and "length ss < 2 ^ 11" and "ck \<in> set (gyro_chunks l ss)"
  shows "sensor_chunk ck \<and> ck_type ck = l"
  using assms
  by (auto simp: gyro_chunks_def sensor_chunk_def ck_type_def payload_size_def gyro_header_count
      length_bodies' split: if_splits)

lemma sensor_temp:
  assumes "sized 2 ss" and "length ss < 2 ^ 16" and "ck \<in> set (temp_chunks t ss)"
  shows "sensor_chunk ck \<and> ck_type ck = 5"
  using assms
  by (auto simp: temp_chunks_def sensor_chunk_def ck_type_def payload_size_def temp_header_count
      length_bodies' split: if_splits)

text \<open>The sizes of the six layers of a page that fits.\<close>

lemma page_okD:
  assumes "page_ok P"
  shows "sized 18 (P 0)" "sized 18 (P 1)" "sized 18 (P 2)" "sized 6 (P 3)" "sized 6 (P 4)" "sized 2 (P 5)"
    "length (P 3) < 2 ^ 11" "length (P 4) < 2 ^ 11" "length (P 5) < 2 ^ 16" "pending_len P \<le> 2000"
  using assms
  by (auto simp: page_ok_def all_layers pending_len_def page_len_def split: if_splits)

lemma page_chunks_sensor:
  assumes P: "page_ok P"
  shows "\<forall>ck \<in> set (page_chunks P). sensor_chunk ck"
  using page_okD [OF P] sensor_gyro [of 3 "P 3"] sensor_gyro [of 4 "P 4"] sensor_temp [of "P 5"]
  by (auto simp: page_chunks_def sized_def intro!: sensor_ant)

section \<open>The payload of a layer\<close>

lemma layer_payload_append [simp]:
  "layer_payload l [] = []"
  "layer_payload l (cks @ cks') = layer_payload l cks @ layer_payload l cks'"
  by (simp_all add: layer_payload_def)

lemma payload_of_type:
  assumes "\<And>ck. ck \<in> set cks \<Longrightarrow> ck_type ck = t"
  shows "layer_payload l cks = (if l = t then concat (map ck_body cks) else [])"
  using assms by (induction cks) (auto simp: layer_payload_def)

lemma payload_ant: "k < 32 \<Longrightarrow> layer_payload l (map (ant_chunk k) ss) = (if l = k then bodies ss else [])"
  by (subst payload_of_type [where t = k]) (auto simp: bodies_def, simp add: ant_chunk_def comp_def)

lemma payload_gyro: "k < 32 \<Longrightarrow> layer_payload l (gyro_chunks k ss) = (if l = k then bodies ss else [])"
  by (simp add: gyro_chunks_def layer_payload_def ck_type_def bodies_def)

lemma payload_temp: "layer_payload l (temp_chunks t ss) = (if l = 5 then bodies ss else [])"
  by (simp add: temp_chunks_def layer_payload_def ck_type_def bodies_def)

lemma payload_page_chunks: "l < LAYER_MAX \<Longrightarrow> layer_payload l (page_chunks P) = bodies (P l)"
  by (auto simp: page_chunks_def payload_ant payload_gyro payload_temp less_Suc_eq numeral_eq_Suc)

section \<open>Reading a written page\<close>

lemma read_visit_pair:
  "read_visit layer ck (buf, ro) =
     (if ck_type ck = layer \<and> ck_body ck \<noteq> []
      then bindR (mem_write buf ro (ck_body ck)) (\<lambda>b. Inr (b, ro + length (ck_body ck)))
      else Inr (buf, ro))"
  by (simp add: read_visit_def)

lemma fold_read_visit:
  "foldR (read_visit layer) cks (buf, ro) =
    (if layer_payload layer cks = [] then Inr (buf, ro)
     else bindR (mem_write buf ro (layer_payload layer cks))
       (\<lambda>b. Inr (b, ro + length (layer_payload layer cks))))"
proof (induction cks arbitrary: buf ro)
  case Nil
  show ?case by simp
next
  case (Cons ck cks)
  let ?b = "ck_body ck" and ?p = "layer_payload layer cks"
  have p: "layer_payload layer (ck # cks) = (if ck_type ck = layer then ?b else []) @ ?p"
    by (simp add: layer_payload_def)
  show ?case
  proof (cases "ck_type ck = layer \<and> ?b \<noteq> [] \<and> ?p \<noteq> []")
    case True
    then have "foldR (read_visit layer) (ck # cks) (buf, ro) =
        bindR (bindR (mem_write buf ro ?b) (\<lambda>m. mem_write m (ro + length ?b) ?p))
          (\<lambda>b. Inr (b, ro + length ?b + length ?p))"
      by (simp add: read_visit_pair Cons.IH bindR_assoc)
    then show ?thesis using True by (simp add: mem_write_mem_write p add.assoc)
  next
    case False
    then show ?thesis by (auto simp: read_visit_pair Cons.IH p bindR_assoc)
  qed
qed

lemma read_loop_page:
  assumes P: "page_ok P" and "holds_page page P" and l: "layer < LAYER_MAX"
  shows "read_loop layer bufferlen page 0 (buf, 0) =
    (if P layer = [] then Inr (buf, 0)
     else bindR (mem_write buf 0 (bodies (P layer))) (\<lambda>b. Inr (b, length (bodies (P layer)))))"
proof -
  obtain fill where fill: "idle_byte fill" and page: "page = programmed (page_image P) fill"
    using assms(2) by (auto simp: holds_page_def)
  have len: "length (page_image P) \<le> 2000" using length_page_ok [OF P] page_okD(10) [OF P] by simp
  let ?f = "replicate (PAGE_SIZE - length (page_image P)) fill"
  have "read_loop layer bufferlen page 0 (buf, 0) = foldR (read_visit layer) (page_chunks P) (buf, 0)"
  proof (rule read_walk.walk_page [OF page_chunks_sensor [OF P]])
    show "page = enc_chunks (page_chunks P) @ ?f" by (simp add: page programmed_def page_image_def)
    show "?f = [] \<or> 4 \<le> length ?f \<and> le_word (take 4 ?f) \<noteq> MAGIC"
      using len idle_fill_no_magic [OF fill, of "PAGE_SIZE - length (page_image P)"] by simp
  qed (use page len in simp)
  moreover have "sized (rsz layer) (P layer)" using P l by (simp add: page_ok_def)
  then have "bodies (P layer) = [] \<longleftrightarrow> P layer = []"
    by (cases "P layer") (auto simp: bodies_def rsz_def split: if_splits)
  ultimately show ?thesis by (simp add: fold_read_visit payload_page_chunks [OF l])
qed

end
