(* ===== verification/Driver_Fake.thy ===== *)
theory Driver_Fake
  imports Flash_Driver
begin

text \<open>
  The macOS driver (\<open>sw/child/src/drivers/macos\<close>): the flash is a block of heap memory,
  \<open>fakeflashmem_instance\<close>, absent until \<open>mxfs_driver_create_spi\<close> has run. It meets the driver contract, which
  is the interpretation \<open>fake\<close> at the end; it does so even without an erase before a write.
\<close>

section \<open>State and operations\<close>

type_synonym fakeflashmem = "(nat \<Rightarrow> nat \<Rightarrow> byte list) option"

definition fake_erase :: "fakeflashmem \<Rightarrow> u16 \<Rightarrow> (int \<times> fakeflashmem) res" where
  "fake_erase d block =
     (case d of
        None \<Rightarrow> Inr (ERR, d)
      | Some mem \<Rightarrow>
          if unat block < BLOCK_COUNT
          then Inr (OK, Some (fold (\<lambda>page m. m(unat block := (m (unat block))(page := replicate PAGE_SIZE 0xFF)))
                                [0..<PAGE_COUNT] mem))
          else Inl Out_of_bounds)"

definition fake_read ::
  "fakeflashmem \<Rightarrow> u16 \<Rightarrow> u16 \<Rightarrow> byte list \<Rightarrow> u16 \<Rightarrow> (int \<times> byte list \<times> fakeflashmem) res" where
  "fake_read d block page buffer bufferlen =
     (case d of
        None \<Rightarrow> Inr (ERR, buffer, d)
      | Some mem \<Rightarrow>
          if valid_pos (unat block) (unat page)
          then bindR (mem_read (mem (unat block) (unat page)) 0 (min (unat bufferlen) PAGE_SIZE)) (\<lambda>bs.
               bindR (mem_write buffer 0 bs) (\<lambda>buffer'.
               Inr (OK, buffer', d)))
          else Inl Out_of_bounds)"

definition fake_write ::
  "fakeflashmem \<Rightarrow> u16 \<Rightarrow> u16 \<Rightarrow> byte list \<Rightarrow> u16 \<Rightarrow> (int \<times> fakeflashmem) res" where
  "fake_write d block page buffer bufferlen =
     (case d of
        None \<Rightarrow> Inr (ERR, d)
      | Some mem \<Rightarrow>
          if valid_pos (unat block) (unat page)
          then bindR (mem_read buffer 0 (min (unat bufferlen) PAGE_SIZE)) (\<lambda>bs.
               bindR (mem_write (mem (unat block) (unat page)) 0 bs) (\<lambda>data.
               Inr (OK, Some (mem(unat block := (mem (unat block))(unat page := data))))))
          else Inl Out_of_bounds)"

definition fake_gpio :: "fakeflashmem \<Rightarrow> (int \<times> fakeflashmem) res" where
  "fake_gpio d = Inr (OK, d)"

text \<open>\<open>malloc_ok\<close> says whether the allocation of the fake memory succeeds.\<close>

definition fake_create_spi :: "bool \<Rightarrow> fakeflashmem \<Rightarrow> (int \<times> fakeflashmem) res" where
  "fake_create_spi malloc_ok d =
     (if malloc_ok then Inr (OK, Some (\<lambda>block page. replicate PAGE_SIZE 0xFF)) else Inr (ERR, None))"

definition fake_release_spi :: "fakeflashmem \<Rightarrow> (int \<times> fakeflashmem) res" where
  "fake_release_spi d = Inr (OK, None)"

definition fake_driver :: "bool \<Rightarrow> fakeflashmem driver" where
  "fake_driver malloc_ok =
     \<lparr>drv_read = fake_read, drv_write = fake_write, drv_erase = fake_erase,
      drv_create_gpio = fake_gpio, drv_release_gpio = fake_gpio,
      drv_create_spi = fake_create_spi malloc_ok, drv_release_spi = fake_release_spi\<rparr>"

section \<open>The contract holds\<close>

definition fake_img :: "fakeflashmem \<Rightarrow> flash_image" where
  "fake_img d = (case d of None \<Rightarrow> (\<lambda>b p. []) | Some mem \<Rightarrow> mem)"

definition fake_ready :: "fakeflashmem \<Rightarrow> bool" where
  "fake_ready d \<longleftrightarrow> (\<exists>mem. d = Some mem \<and> (\<forall>b p. valid_pos b p \<longrightarrow> length (mem b p) = PAGE_SIZE))"

lemma fold_blank:
  "fold (\<lambda>page m. m(b := (m b)(page := v))) ps mem b' p' =
     (if b' = b \<and> p' \<in> set ps then v else mem b' p')"
  by (induction ps arbitrary: mem) auto

lemma fake_read_ready:
  assumes "fake_ready d" and "valid_pos (unat b) (unat p)" and "unat n \<le> length buf"
  shows "fake_read d b p buf n =
    Inr (OK, take (unat n) (fake_img d (unat b) (unat p)) @ drop (min (unat n) PAGE_SIZE) buf, d)"
  using assms by (auto simp: fake_ready_def fake_read_def fake_img_def mem_read_def mem_write_def min_def)

lemma fake_write_ready:
  assumes "fake_ready d" and "valid_pos (unat b) (unat p)" and "unat n \<le> PAGE_SIZE" and "unat n \<le> length data"
  shows "\<exists>d'. fake_write d b p data n = Inr (OK, d') \<and> fake_ready d' \<and>
    fake_img d' = (fake_img d)(unat b := (fake_img d (unat b))
       (unat p := take (unat n) data @ drop (unat n) (fake_img d (unat b) (unat p))))"
  using assms by (auto simp: fake_ready_def fake_write_def fake_img_def mem_read_def mem_write_def)

interpretation fake: flash_driver "fake_driver malloc_ok" fake_img fake_ready
proof unfold_locales
  fix d :: fakeflashmem and b p :: nat
  assume "fake_ready d" "valid_pos b p"
  then show "length (fake_img d b p) = PAGE_SIZE"
    by (auto simp: fake_ready_def fake_img_def)
next
  fix d :: fakeflashmem and b p n :: u16 and buf :: "byte list"
  assume "fake_ready d" "valid_pos (unat b) (unat p)" "unat n \<le> PAGE_SIZE" "unat n \<le> length buf"
  then show "\<exists>d'. drv_read (fake_driver malloc_ok) d b p buf n =
      Inr (OK, take (unat n) (fake_img d (unat b) (unat p)) @ drop (unat n) buf, d') \<and>
      fake_ready d' \<and> same_flash (fake_img d') (fake_img d)"
    by (simp add: fake_driver_def fake_read_ready)
next
  fix d :: fakeflashmem and b p n :: u16 and data :: "byte list"
  assume "fake_ready d" "valid_pos (unat b) (unat p)" "unat n \<le> PAGE_SIZE" "unat n \<le> length data"
    and "fake_img d (unat b) (unat p) = blank_page"
  with fake_write_ready [of d b p n data]
  show "\<exists>d' fill. drv_write (fake_driver malloc_ok) d b p data n = Inr (OK, d') \<and> fake_ready d' \<and>
      idle_byte fill \<and> same_flash (fake_img d')
        ((fake_img d)(unat b := (fake_img d (unat b))(unat p := programmed (take (unat n) data) fill)))"
    by (auto simp: fake_driver_def idle_byte_def programmed_def blank_page_def intro!: exI [of _ "0xFF"])
next
  fix d :: fakeflashmem and b :: u16
  assume "fake_ready d" "unat b < BLOCK_COUNT"
  then show "\<exists>d'. drv_erase (fake_driver malloc_ok) d b = Inr (OK, d') \<and> fake_ready d' \<and>
      same_flash (fake_img d') ((fake_img d)(unat b := (\<lambda>p. blank_page)))"
    by (auto simp: fake_driver_def fake_erase_def fake_ready_def fake_img_def same_flash_def fold_blank
        blank_page_def)
qed

end
