(* ===== verification/Mxfs_Refine.thy ===== *)
theory Mxfs_Refine
  imports Page_Content Driver_Fake
begin

text \<open>
  The refinement of the file system to its abstract log, proved inside the \<open>flash_driver\<close>
  contract: \<open>mxfs_flush\<close> is \<open>log_flush\<close>, \<open>mxfs_append\<close> is \<open>log_append\<close> where the layer buffer has room, and
  \<open>mxfs_read\<close> at the position of a flushed page returns the bodies of one layer's samples.
\<close>

section \<open>What the commit does to the write position\<close>

lemma tail_ok_advance:
  assumes ok: "position_ok inst" and un: "\<not> marked inst (fst (position inst))"
    and bl: "\<And>q. snd (position inst) < q \<Longrightarrow> q < PAGE_COUNT \<Longrightarrow> f (fst (position inst)) q = blank_page"
  shows "tail_ok f (advance inst)"
proof -
  have p: "unat (mxfs_current_page inst + 1) = unat (mxfs_current_page inst) + 1"
    using ok unat_plus_one [of "mxfs_current_page inst"] by (simp add: position_ok_def)
  have m: "(w OR 1) AND 1 \<noteq> (0 :: u32)" for w
    by (simp add: bit_eq_iff [of "(w OR 1) AND 1"] bit_simps exI [of _ 0])
  show ?thesis
  proof (cases "unat (mxfs_current_page inst) + 1 \<ge> PAGE_COUNT")
    case True
    then show ?thesis
      by (simp add: tail_ok_def advance_def Let_def position_def marked_def p m)
  next
    case False
    then show ?thesis
      using un bl by (auto simp: tail_ok_def advance_def Let_def position_def marked_def p)
  qed
qed

lemma tail_ok_same:
  "position inst' = position inst \<Longrightarrow> blocks inst' = blocks inst \<Longrightarrow> tail_ok f inst' = tail_ok f inst"
  by (simp add: tail_ok_def marked_def)

lemma tail_ok_position:
  assumes "tail_ok f inst" and "position inst = (b, p)"
  shows "marked inst b \<Longrightarrow> p = 0" and "\<not> marked inst b \<Longrightarrow> p \<le> q \<Longrightarrow> q < PAGE_COUNT \<Longrightarrow> f b q = blank_page"
  using assms by (auto simp: tail_ok_def)

text \<open>A page that stays in the log is not in a block about to be recycled.\<close>

lemma log_pos_recycled:
  assumes "log_low (Suc h) \<le> i" and "i < h" and "log_pos s h = (b, 0)"
  shows "fst (log_pos s i) \<noteq> b"
proof
  assume "fst (log_pos s i) = b"
  then have "i div 64 = h div 64"
    using log_pos_block [of i h s] log_low_lap [OF assms(1)] assms(2,3) by simp
  moreover have "h mod 64 = 0" using assms(3) by (simp add: log_pos_def)
  ultimately show False using assms(2) by (metis add.right_neutral leD less_eq_div_iff_mult_less_eq
        mult_div_mod_eq mult.commute order_refl zero_less_numeral)
qed

lemma pages_ok_last:
  assumes "\<And>l. l < LAYER_MAX \<Longrightarrow> P l = Q l" and "pages_ok f s (H @ [P])"
  shows "pages_ok f s (H @ [Q])"
  unfolding pages_ok_def
proof (intro allI impI)
  fix i
  assume i: "log_low (length (H @ [Q])) \<le> i \<and> i < length (H @ [Q])"
  then have "page_ok ((H @ [P]) ! i) \<and> holds_page (f (fst (log_pos s i)) (snd (log_pos s i))) ((H @ [P]) ! i)"
    using assms(2) by (simp add: pages_ok_def)
  moreover have "(H @ [Q]) ! i = (if i = length H then Q else (H @ [P]) ! i)" using i by (auto simp: nth_append)
  ultimately show "page_ok ((H @ [Q]) ! i) \<and>
      holds_page (f (fst (log_pos s i)) (snd (log_pos s i))) ((H @ [Q]) ! i)"
    using page_ok_cong [of P Q] page_image_cong [of P Q] assms(1) by (auto simp: holds_page_def)
qed

section \<open>Room in the layer buffers\<close>

text \<open>
  What a layer buffer must hold so that the page estimate forces a flush before it is full: 984
  temperature samples, 328 of the gyro or accelerometer, 58 ANT+ records.
\<close>

definition layer_room :: "'p build \<Rightarrow> nat \<Rightarrow> bool" where
  "layer_room cfg l \<longleftrightarrow> (if l = LAYER_TEMPERATURE then 9840 else 4592) \<le> MXFS_BUFFER_SIZE cfg"

lemma layer_room_enough:
  assumes "l < LAYER_MAX" and "page_len c + rsz l \<le> PAGE_SIZE - 64" and "layer_room cfg l"
  shows "c l * (rsz l + 8) + 8 + rsz l \<le> MXFS_BUFFER_SIZE cfg"
proof -
  have "l = 0 \<or> l = 1 \<or> l = 2 \<or> l = 3 \<or> l = 4 \<or> l = 5" using assms(1) by linarith
  then show ?thesis
    using assms(2,3) by (elim disjE) (simp_all add: page_len_def layer_room_def split: if_splits)
qed

lemma layer_room_builds:
  "layer_room build_macos l" "layer_room build_linux l" "l \<noteq> LAYER_TEMPERATURE \<Longrightarrow> layer_room build_rp2040 l"
  "\<not> layer_room build_rp2040 LAYER_TEMPERATURE"
  by (simp_all add: layer_room_def build_macos_def build_linux_def build_rp2040_def)

definition log_prepare :: "nat \<Rightarrow> mxfs_log \<Rightarrow> mxfs_log" where
  "log_prepare l L = (if pending_len (log_pending L) + rsz l > PAGE_SIZE - 64 then log_flush L else L)"

lemma log_append_prepare:
  "log_append l s L = (log_prepare l L)
     \<lparr>log_pending := (log_pending (log_prepare l L))(l := log_pending (log_prepare l L) l @ [s])\<rparr>"
  by (simp add: log_append_def log_prepare_def Let_def)

section \<open>Clients\<close>

text \<open>The page numbers that have not been recycled.\<close>

definition log_kept :: "mxfs_log \<Rightarrow> nat \<Rightarrow> bool" where
  "log_kept L i \<longleftrightarrow> log_low (length (log_pages L)) \<le> i \<and> i < length (log_pages L)"

datatype client_op = Append byte u64 "byte list" | Flush

definition op_ok :: "'p build \<Rightarrow> client_op \<Rightarrow> bool" where
  "op_ok cfg op = (case op of
     Append layer t bs \<Rightarrow> unat layer < LAYER_MAX \<and> length bs = rsz (unat layer) \<and> layer_room cfg (unat layer)
   | Flush \<Rightarrow> True)"

definition run_op ::
  "'p build \<Rightarrow> 'd driver \<Rightarrow> client_op \<Rightarrow> int list \<times> 'p mxfs_inst \<times> 'd \<Rightarrow> (int list \<times> 'p mxfs_inst \<times> 'd) res" where
  "run_op cfg drv op = (\<lambda>(rets, inst, d).
     bindR (case op of
              Append layer t bs \<Rightarrow> mxfs_append cfg drv inst d layer t bs (of_nat (length bs))
            | Flush \<Rightarrow> mxfs_flush cfg drv inst d) (\<lambda>(ret, inst', d').
     Inr (rets @ [ret], inst', d')))"

definition log_op :: "client_op \<Rightarrow> mxfs_log \<Rightarrow> mxfs_log" where
  "log_op op = (case op of Append layer t bs \<Rightarrow> log_append (unat layer) (t, bs) | Flush \<Rightarrow> log_flush)"

definition op_samples :: "nat \<Rightarrow> client_op \<Rightarrow> sample list" where
  "op_samples l op = (case op of Append layer t bs \<Rightarrow> (if unat layer = l then [(t, bs)] else []) | Flush \<Rightarrow> [])"

lemma rsz_less: "rsz l < 65536"
  by (simp add: rsz_def)

lemma log_op_grows: "length (log_pages L) \<le> length (log_pages (log_op op L))"
  by (cases op) (simp_all add: log_op_def log_append_def log_flush_def Let_def)

text \<open>The log loses nothing: its samples are the appended ones, in order.\<close>

lemma log_ops_grow: "length (log_pages L) \<le> length (log_pages (fold log_op ops L))"
  by (induction ops arbitrary: L) (auto intro: order_trans [OF log_op_grows])

lemma log_samples_flush [simp]:
  assumes "l < LAYER_MAX"
  shows "log_samples (log_flush L) l = log_samples L l"
  using assms by (auto simp: log_flush_def log_samples_def pending_len_def page_len_0_iff)

lemma log_samples_append:
  "k < LAYER_MAX \<Longrightarrow> log_samples (log_append l s L) k = log_samples L k @ (if l = k then [s] else [])"
proof -
  assume k: "k < LAYER_MAX"
  have "log_samples (log_prepare l L) k = log_samples L k" using k by (simp add: log_prepare_def)
  then show ?thesis by (auto simp: log_append_prepare log_samples_def)
qed

lemma log_samples_ops:
  "l < LAYER_MAX \<Longrightarrow>
   log_samples (fold log_op ops L) l = log_samples L l @ concat (map (op_samples l) ops)"
  by (induction ops arbitrary: L)
    (auto simp: log_op_def op_samples_def log_samples_append split: client_op.splits)

section \<open>What a flush promises its clients\<close>

text \<open>
  A relation of instance, log and device that every flush keeps, and that does not see how samples are stored: appends and runs
  of operations keep it too, as long as the log stays within the bound \<open>fits\<close>.
\<close>

locale log_client =
  fixes cfg :: "'p build"
    and drv :: "'d driver"
    and rel :: "'p mxfs_inst \<Rightarrow> mxfs_log \<Rightarrow> 'd \<Rightarrow> bool"
    and fits :: "nat \<Rightarrow> bool"
  assumes good: "rel inst L d \<Longrightarrow> good_build cfg \<and> inst_inv cfg inst \<and> (\<forall>l<LAYER_MAX. pending_of inst l = log_pending L l)"
    and flushed: "rel inst L d \<Longrightarrow> fits (length (log_pages (log_flush L))) \<Longrightarrow>
      \<exists>inst' d'. mxfs_flush cfg drv inst d = Inr (OK, inst', d') \<and> rel inst' (log_flush L) d'"
    and stored: "rel inst L d \<Longrightarrow> inst_inv cfg inst' \<Longrightarrow> position inst' = position inst \<Longrightarrow> blocks inst' = blocks inst \<Longrightarrow>
      (\<And>l. l < LAYER_MAX \<Longrightarrow> pending_of inst' l = P l) \<Longrightarrow> rel inst' (L\<lparr>log_pending := P\<rparr>) d"
    and fits_less: "fits n \<Longrightarrow> m \<le> n \<Longrightarrow> fits m"
begin

lemma client_len:
  assumes "rel inst L d"
  shows "page_len (counts_of inst) = pending_len (log_pending L)"
  using pending_len_cong [of "pending_of inst" "log_pending L"] good [OF assms] by (simp add: pending_len_counts)

lemma client_prepare:
  assumes "rel inst L d" and "fits (length (log_pages (log_prepare l L)))"
  shows "\<exists>inst' d'. append_prepare cfg drv inst d l = Inr (inst', d') \<and> rel inst' (log_prepare l L) d'"
  using flushed [OF assms(1)] assms client_len [OF assms(1)] by (auto simp: append_prepare_def log_prepare_def)

lemma client_append:
  assumes room: "layer_room cfg (unat layer)" and rel: "rel inst L d"
    and l: "unat layer < LAYER_MAX" and n: "unat n = rsz (unat layer)" and buf: "unat n \<le> length buffer"
    and fit: "fits (length (log_pages (log_append (unat layer) (t, take (rsz (unat layer)) buffer) L)))"
  shows "\<exists>inst' d'. mxfs_append cfg drv inst d layer t buffer n = Inr (OK, inst', d') \<and>
    rel inst' (log_append (unat layer) (t, take (rsz (unat layer)) buffer) L) d'"
proof -
  let ?l = "unat layer" and ?bs = "take (rsz (unat layer)) buffer"
  have cfg: "good_build cfg" and inv: "inst_inv cfg inst" using good [OF rel] by simp_all
  obtain inst2 d2 where pr: "append_prepare cfg drv inst d ?l = Inr (inst2, d2)" and rel2: "rel inst2 (log_prepare ?l L) d2"
    using client_prepare [OF rel, of ?l] fit by (auto simp: log_append_prepare)
  have inv2: "inst_inv cfg inst2" and room2: "page_len (counts_of inst2) + rsz ?l \<le> PAGE_SIZE - 64"
    using append_prepare_inst [OF inv pr] by simp_all
  have ok: "layer_ok cfg inst2 ?l" using buffers_okD [OF inst_invD(1) [OF inv2] l] .
  have "unat (mxfs_length inst2 ?l) + 8 + rsz ?l \<le> MXFS_BUFFER_SIZE cfg"
    using ok layer_room_enough [OF l room2 room] by (simp add: layer_ok_def counts_of_def)
  from append_store_spec [OF cfg l ok n buf this, of t]
  obtain inst' where st: "append_store cfg ?l t buffer n inst2 = Inr (OK, inst')"
    and new: "pending_of inst' ?l = pending_of inst2 ?l @ [(t, ?bs)]"
    and frame: "\<And>k. k \<noteq> ?l \<Longrightarrow> mxfs_buffer inst' k = mxfs_buffer inst2 k \<and>
      mxfs_length inst' k = mxfs_length inst2 k \<and> mxfs_count inst' k = mxfs_count inst2 k"
    and same: "position inst' = position inst2" "blocks inst' = blocks inst2"
    by blast
  have ap: "mxfs_append cfg drv inst d layer t buffer n = Inr (OK, inst', d2)"
    by (simp add: mxfs_append_unfold [OF inv l n] pr st)
  have "pending_of inst' k = ((log_pending (log_prepare ?l L))(?l := log_pending (log_prepare ?l L) ?l @ [(t, ?bs)])) k"
    if "k < LAYER_MAX" for k
    using frame [of k] good [OF rel2] that l new by (cases "k = ?l") (simp_all add: pending_of_def)
  then have "rel inst' (log_append ?l (t, ?bs) L) d2"
    unfolding log_append_prepare by (rule stored [OF rel2 mxfs_append_inst [OF inv cfg ap] same])
  then show ?thesis using ap by blast
qed

lemma client_op:
  assumes op: "op_ok cfg op" and rel: "rel inst L d" and fit: "fits (length (log_pages (log_op op L)))"
  shows "\<exists>inst' d'. run_op cfg drv op (rets, inst, d) = Inr (rets @ [OK], inst', d') \<and> rel inst' (log_op op L) d'"
proof (cases op)
  case (Append layer t bs)
  then show ?thesis
    using op fit client_append [OF _ rel, of layer "of_nat (length bs)" bs t]
    by (auto simp: run_op_def op_ok_def log_op_def unat_of_nat_small rsz_less)
next
  case Flush
  then show ?thesis using flushed [OF rel] fit by (auto simp: run_op_def log_op_def)
qed

lemma client_ops:
  "list_all (op_ok cfg) ops \<Longrightarrow> rel inst L d \<Longrightarrow> fits (length (log_pages (fold log_op ops L))) \<Longrightarrow>
    \<exists>inst' d'. foldR (run_op cfg drv) ops (rets, inst, d) = Inr (rets @ replicate (length ops) OK, inst', d') \<and>
      rel inst' (fold log_op ops L) d'"
proof (induction ops arbitrary: rets inst d L)
  case Nil
  then show ?case by simp
next
  case (Cons op ops)
  have "fits (length (log_pages (log_op op L)))"
    by (rule fits_less [OF Cons.prems(3)]) (simp add: log_ops_grow)
  then obtain inst1 d1 where 1: "run_op cfg drv op (rets, inst, d) = Inr (rets @ [OK], inst1, d1)" "rel inst1 (log_op op L) d1"
    using client_op [OF _ Cons.prems(2), of op rets] Cons.prems(1) by auto
  obtain inst2 d2 where 2: "foldR (run_op cfg drv) ops (rets @ [OK], inst1, d1) =
      Inr ((rets @ [OK]) @ replicate (length ops) OK, inst2, d2)" "rel inst2 (fold log_op ops (log_op op L)) d2"
    using Cons.IH [OF _ 1(2), of "rets @ [OK]"] Cons.prems(1,3) by auto
  then show ?case using 1(1) by auto
qed

end

section \<open>Flushing refines the log\<close>

context flash_driver
begin

lemma erase_step:
  assumes rd: "ready d" and pos: "position inst = (b, p)" and v: "valid_pos b p"
    and t: "tail_ok (img d) inst"
  shows "\<exists>inst2 d2. flush_erase drv inst d = Inr (OK, inst2, d2) \<and> ready d2 \<and> \<not> marked inst2 b \<and>
    (\<forall>q. p \<le> q \<and> q < PAGE_COUNT \<longrightarrow> img d2 b q = blank_page) \<and>
    (if marked inst b then same_flash (img d2) ((img d)(b := (\<lambda>p. blank_page))) else d2 = d)"
proof -
  define cb where "cb = mxfs_current_block inst"
  have cb: "mxfs_current_block inst = cb" "unat cb = b" "unat cb < BLOCK_COUNT"
    using pos v by (auto simp: cb_def position_def)
  show ?thesis
  proof (cases "marked inst b")
    case True
    obtain d2 where er: "drv_erase drv d cb = Inr (OK, d2)" "ready d2"
      "same_flash (img d2) ((img d)(unat cb := (\<lambda>p. blank_page)))"
      using erase_law [OF rd cb(3)] by blast
    have "(w AND NOT 1) AND 1 = (0 :: u32)" for w by (rule bit_word_eqI) (auto simp: bit_simps)
    then show ?thesis
      using True er cb v
      by (simp add: flush_erase_simps(1) [OF cb(1,3)] marked_def) (auto simp: same_flash_def)
  next
    case False
    then show ?thesis
      using cb rd tail_ok_position(2) [OF t pos False] by (simp add: flush_erase_simps(2) [OF cb(1,3)])
  qed
qed

lemma write_page:
  assumes "ready d" and "valid_pos (unat b) (unat p)" and "img d (unat b) (unat p) = blank_page"
    and "length data \<le> PAGE_SIZE"
  shows "\<exists>d' fill. drv_write drv d b p data (of_nat (length data)) = Inr (OK, d') \<and> ready d' \<and> idle_byte fill \<and>
    same_flash (img d') ((img d)(unat b := (img d (unat b))(unat p := programmed data fill)))"
  using write_law [OF assms(1,2), of "of_nat (length data)" data] assms(3,4) by (simp add: unat_of_nat_small)

text \<open>What the two commit steps leave of the ring.\<close>

lemma pages_ok_commit:
  assumes pg: "pages_ok f s H" and pos: "log_pos s (length H) = (b, p)" and P: "page_ok P"
    and er: "if m then p = 0 \<and> same_flash g (f(b := (\<lambda>p. blank_page))) else g = f"
    and wr: "same_flash h (g(b := (g b)(p := programmed (page_image P) fill)))" and fill: "idle_byte fill"
  shows "pages_ok h s (H @ [P])"
  unfolding pages_ok_def
proof (intro allI impI)
  fix i
  let ?ib = "fst (log_pos s i)" and ?ip = "snd (log_pos s i)"
  assume i: "log_low (length (H @ [P])) \<le> i \<and> i < length (H @ [P])"
  have hi: "h ?ib ?ip = (g(b := (g b)(p := programmed (page_image P) fill))) ?ib ?ip"
    by (rule same_flashD [OF wr]) (rule log_pos_valid)
  show "page_ok ((H @ [P]) ! i) \<and> holds_page (h ?ib ?ip) ((H @ [P]) ! i)"
  proof (cases "i = length H")
    case True
    then show ?thesis using hi pos P fill by (auto simp: holds_page_def)
  next
    case False
    then have lt: "i < length H" and low: "log_low (Suc (length H)) \<le> i" using i by auto
    have ne: "(?ib, ?ip) \<noteq> (b, p)"
      using log_pos_inj [of i "length H" s] log_low_lap [OF low] lt pos by auto
    have "g ?ib ?ip = f ?ib ?ip"
    proof (cases m)
      case True
      then have "?ib \<noteq> b" using log_pos_recycled [OF low lt] er pos by simp
      then show ?thesis using er True log_pos_valid(1) [of s i] by (simp add: same_flash_def)
    qed (use er in simp)
    then have "h ?ib ?ip = f ?ib ?ip" using hi ne by auto
    moreover have "log_low (length H) \<le> i" using log_low_mono [of "length H"] low by simp
    ultimately show ?thesis using pg lt by (simp add: pages_ok_def nth_append)
  qed
qed

lemma flush_keeps:
  assumes cfg: "good_build cfg" and rd: "ready d" and rel: "log_rel cfg (img d) s inst L"
  shows "\<exists>inst' d'. mxfs_flush cfg drv inst d = Inr (OK, inst', d') \<and> ready d' \<and>
    log_rel cfg (img d') s inst' (log_flush L) \<and>
    same_outside (touched s (length (log_pages L)) (length (log_pages (log_flush L)))) (img d') (img d)"
proof (cases "page_len (counts_of inst) = 0")
  case True
  have "pending_len (log_pending L) = 0"
    using True rel pending_len_cong [of "pending_of inst" "log_pending L"]
    by (simp add: log_rel_def pending_len_counts)
  then show ?thesis using True rel rd by (simp add: log_rel_def mxfs_flush_nothing log_flush_def)
next
  case False
  let ?P = "pending_of inst" and ?c = "clear_all inst"
  obtain b p where bp: "position inst = (b, p)" by (cases "position inst")
  have inv: "inst_inv cfg inst" and pos: "log_pos s (length (log_pages L)) = (b, p)"
    and pend: "\<And>l. l < LAYER_MAX \<Longrightarrow> ?P l = log_pending L l" and pg: "pages_ok (img d) s (log_pages L)"
    and tail: "tail_ok (img d) inst"
    using rel bp by (simp_all add: log_rel_def)
  have v: "valid_pos b p" using log_pos_valid [of s "length (log_pages L)"] pos by simp
  have cpos: "position ?c = (b, p)" and cm: "marked ?c = marked inst"
    using bp by (simp_all add: position_def marked_def fun_eq_iff)
  have ctail: "tail_ok (img d) ?c" using tail bp cpos cm by (simp add: tail_ok_def)
  obtain inst2 d2 where er: "flush_erase drv ?c d = Inr (OK, inst2, d2)" "ready d2" "\<not> marked inst2 b"
    and blank: "\<And>q. p \<le> q \<Longrightarrow> q < PAGE_COUNT \<Longrightarrow> img d2 b q = blank_page"
    and g: "if marked inst b then same_flash (img d2) ((img d)(b := (\<lambda>p. blank_page))) else d2 = d"
    using erase_step [OF rd cpos v ctail] by (auto simp: cm split: if_splits)
  have pos2: "position inst2 = (b, p)" using flush_erase_inst(4) [OF er(1)] cpos by simp
  have b: "unat (mxfs_current_block inst) = b" and p: "unat (mxfs_current_page inst) = p"
    using bp by (simp_all add: position_def)
  have len: "length (page_image ?P) = page_len (counts_of inst)" by (rule length_pending_image [OF inv])
  have vw: "valid_pos (unat (mxfs_current_block inst)) (unat (mxfs_current_page inst))"
    and blw: "img d2 (unat (mxfs_current_block inst)) (unat (mxfs_current_page inst)) = blank_page"
    and lew: "length (page_image ?P) \<le> PAGE_SIZE"
    using v b p blank [of p] len inst_invD(2) [OF inv] by simp_all
  obtain d3 fill where wr: "drv_write drv d2 (mxfs_current_block inst) (mxfs_current_page inst)
      (page_image ?P) (of_nat (page_len (counts_of inst))) = Inr (OK, d3)" "ready d3" "idle_byte fill"
    "same_flash (img d3) ((img d2)(b := (img d2 b)(p := programmed (page_image ?P) fill)))"
    using write_page [OF er(2) vw blw lew] by (auto simp: len b p)
  define inst' where "inst' = advance (mark_written cfg (encoded ?P) inst2)"
  have fl: "mxfs_flush cfg drv inst d = Inr (OK, inst', d3)"
    using er wr by (simp add: mxfs_flush_unfold [OF inv False] inst'_def)
  have inv': "inst_inv cfg inst'" and zero: "page_len (counts_of inst') = 0"
    using mxfs_flush_inst [OF inv fl] by simp_all
  have ok2: "position_ok (mark_written cfg (encoded ?P) inst2)"
    using pos2 inst_invD(3) [OF inv] bp by (simp add: position_ok_iff)
  have P: "page_ok ?P" by (rule page_ok_pending [OF inv])
  have pages: "pages_ok (img d3) s (log_pages L @ [?P])"
    by (rule pages_ok_commit [OF pg pos P _ wr(4,3), where m = "marked inst b"])
      (use g tail_ok_position(1) [OF tail bp] in auto)
  have "same_outside {b} (img d3) (img d)"
    using wr(4) g by (auto simp: same_flash_def same_outside_def split: if_splits)
  moreover have "tail_ok (img d3) inst'"
    unfolding inst'_def
  proof (rule tail_ok_advance [OF ok2])
    show "\<not> marked (mark_written cfg (encoded ?P) inst2) (fst (position (mark_written cfg (encoded ?P) inst2)))"
      using er pos2 by simp
  qed (use pos2 blank same_flashD [OF wr(4)] v in simp)
  moreover have "position inst' = log_pos s (Suc (length (log_pages L)))"
    using advance_position(1) [OF ok2] pos2 pos next_log_pos [of s "length (log_pages L)"]
    by (simp add: inst'_def)
  moreover have "pending_of inst' l = []" if "l < LAYER_MAX" for l
    using zero that page_len_0_iff [of "counts_of inst'"] by (metis length_0_conv length_pending_of)
  moreover have "pending_len (log_pending L) \<noteq> 0"
    using False pending_len_cong [of ?P "log_pending L"] pend by (simp add: pending_len_counts)
  moreover have "pages_ok (img d3) s (log_pages L @ [log_pending L])"
    by (rule pages_ok_last [OF _ pages]) (rule pend)
  ultimately show ?thesis using fl wr(2) inv' pos by (simp add: log_rel_def log_flush_def)
qed

lemma flush_refines:
  assumes cfg: "good_build cfg" and rd: "ready d" and rel: "log_rel cfg (img d) s inst L"
  shows "\<exists>inst' d'. mxfs_flush cfg drv inst d = Inr (OK, inst', d') \<and> ready d' \<and>
    log_rel cfg (img d') s inst' (log_flush L)"
  using flush_keeps [OF assms] by blast

end

text \<open>The log relation, with the pages before the \<open>m\<close>-th left out of sight.\<close>

definition log_since :: "'p build \<Rightarrow> ('d \<Rightarrow> flash_image) \<Rightarrow> ('d \<Rightarrow> bool) \<Rightarrow> nat \<Rightarrow> nat \<Rightarrow> flash_image \<Rightarrow> 'p mxfs_inst \<Rightarrow> mxfs_log \<Rightarrow> 'd \<Rightarrow> bool" where
  "log_since cfg img ready s m f inst L d \<longleftrightarrow> good_build cfg \<and> ready d \<and> log_rel cfg (img d) s inst L \<and>
     m \<le> length (log_pages L) \<and> same_outside (touched s m (length (log_pages L))) (img d) f"

sublocale flash_driver \<subseteq> log: log_client cfg drv "log_since cfg img ready s m f" "\<lambda>n. True" for cfg s m f
proof
  fix inst L d
  assume r: "log_since cfg img ready s m f inst L d"
  let ?n = "length (log_pages L)" and ?k = "length (log_pages (log_flush L))"
  have out: "same_outside (touched s m ?n) (img d) f" and m: "m \<le> ?n" using r by (simp_all add: log_since_def)
  obtain inst' d' where fl: "mxfs_flush cfg drv inst d = Inr (OK, inst', d')" "ready d'" "log_rel cfg (img d') s inst' (log_flush L)"
    "same_outside (touched s ?n ?k) (img d') (img d)"
    using flush_keeps [of cfg d s inst L] r by (auto simp: log_since_def)
  have le: "?n \<le> ?k" by (simp add: log_flush_def)
  have "same_outside (touched s m ?k) (img d') f"
    by (rule same_outside_trans [OF fl(4) out]) (rule touched_mono; use m le in simp)+
  then show "\<exists>inst' d'. mxfs_flush cfg drv inst d = Inr (OK, inst', d') \<and> log_since cfg img ready s m f inst' (log_flush L) d'"
    using fl r le by (auto simp: log_since_def)
  show "good_build cfg \<and> inst_inv cfg inst \<and> (\<forall>l<LAYER_MAX. pending_of inst l = log_pending L l)"
    using r by (simp add: log_since_def log_rel_def)
  fix inst' P
  assume "inst_inv cfg inst'" and same: "position inst' = position inst" "blocks inst' = blocks inst"
    and "\<And>l. l < LAYER_MAX \<Longrightarrow> pending_of inst' l = P l"
  then show "log_since cfg img ready s m f inst' (L\<lparr>log_pending := P\<rparr>) d"
    using r tail_ok_same [OF same] by (simp add: log_since_def log_rel_def)
qed simp

context flash_driver
begin

lemma append_refines:
  assumes cfg: "good_build cfg" and room: "layer_room cfg (unat layer)"
    and rd: "ready d" and rel: "log_rel cfg (img d) s inst L"
    and l: "unat layer < LAYER_MAX" and n: "unat n = rsz (unat layer)" and buf: "unat n \<le> length buffer"
  shows "\<exists>inst' d'. mxfs_append cfg drv inst d layer t buffer n = Inr (OK, inst', d') \<and> ready d' \<and>
    log_rel cfg (img d') s inst' (log_append (unat layer) (t, take (rsz (unat layer)) buffer) L)"
  using log.client_append [OF room _ l n buf, of s 0 "img d" inst L d t] cfg rd rel
  by (auto simp: log_since_def same_outside_def)

text \<open>A page that the flash holds is read back layer by layer.\<close>

lemma read_held:
  assumes rd: "ready d" and P: "page_ok P" and h: "holds_page (img d (unat (tr_block tr)) (unat (tr_page tr))) P"
    and v: "valid_pos (unat (tr_block tr)) (unat (tr_page tr))" and l: "unat layer < LAYER_MAX"
    and n: "bufferlen \<noteq> 0" and len: "length (bodies (P (unat layer))) \<le> length buf"
    and page0: "length page0 = PAGE_SIZE"
  shows "\<exists>d'. mxfs_read drv d layer (Some buf) bufferlen tr (Some page0) =
      Inr (int (length (bodies (P (unat layer)))),
           Some (bodies (P (unat layer)) @ drop (length (bodies (P (unat layer)))) buf), d') \<and>
    ready d' \<and> same_flash (img d') (img d)"
proof -
  let ?b = "tr_block tr" and ?p = "tr_page tr"
  obtain d' where r: "drv_read drv d ?b ?p page0 (of_nat PAGE_SIZE) = Inr (OK, img d (unat ?b) (unat ?p), d')"
    and rd': "ready d'" and same: "same_flash (img d') (img d)"
    using read_law [OF rd v, of "of_nat PAGE_SIZE" page0] page0 img_length [OF rd v] by auto
  have "mxfs_read drv d layer (Some buf) bufferlen tr (Some page0) =
      Inr (int (length (bodies (P (unat layer)))),
        Some (bodies (P (unat layer)) @ drop (length (bodies (P (unat layer)))) buf), d')"
    using n len r
    by (simp add: mxfs_read_def read_loop_page [OF P h l] mem_write_def) (simp add: bodies_def)
  with rd' same show ?thesis by blast
qed

lemma read_refines:
  assumes rd: "ready d" and rel: "log_rel cfg (img d) s inst L" and i: "log_kept L i"
    and l: "unat layer < LAYER_MAX" and at: "(unat (tr_block tr), unat (tr_page tr)) = log_pos s i"
    and n: "bufferlen \<noteq> 0" and len: "length (bodies ((log_pages L ! i) (unat layer))) \<le> length buf"
    and page0: "length page0 = PAGE_SIZE"
  shows "\<exists>d'. mxfs_read drv d layer (Some buf) bufferlen tr (Some page0) =
      Inr (int (length (bodies ((log_pages L ! i) (unat layer)))),
           Some (bodies ((log_pages L ! i) (unat layer)) @
             drop (length (bodies ((log_pages L ! i) (unat layer)))) buf), d') \<and>
    ready d' \<and> log_rel cfg (img d') s inst L"
proof -
  let ?P = "log_pages L ! i" and ?b = "tr_block tr" and ?p = "tr_page tr"
  have at': "log_pos s i = (unat ?b, unat ?p)" using at by simp
  have P: "page_ok ?P" and h: "holds_page (img d (unat ?b) (unat ?p)) ?P"
    using rel i at' by (auto simp: log_rel_def pages_ok_def log_kept_def)
  have v: "valid_pos (unat ?b) (unat ?p)" using log_pos_valid [of s i] at' by simp
  have "log_rel cfg (img d') s inst L" if "same_flash (img d') (img d)" for d'
    using rel that pages_ok_same_flash tail_ok_same_flash by (auto simp: log_rel_def inst_inv_def)
  then show ?thesis using read_held [OF rd P h v l n len page0] by blast
qed

lemma ops_keep:
  assumes cfg: "good_build cfg" and ops: "list_all (op_ok cfg) ops" and rd: "ready d" and rel: "log_rel cfg (img d) s inst L"
  shows "\<exists>inst' d'. foldR (run_op cfg drv) ops (rets, inst, d) = Inr (rets @ replicate (length ops) OK, inst', d') \<and>
      ready d' \<and> log_rel cfg (img d') s inst' (fold log_op ops L) \<and>
      length (log_pages L) \<le> length (log_pages (fold log_op ops L)) \<and>
      same_outside (touched s (length (log_pages L)) (length (log_pages (fold log_op ops L)))) (img d') (img d)"
  using log.client_ops [OF ops, of s "length (log_pages L)" "img d" inst L d rets] cfg rd rel
  by (simp add: log_since_def)

lemma ops_refine:
  assumes "good_build cfg" and "list_all (op_ok cfg) ops" and "ready d" and "log_rel cfg (img d) s inst L"
  shows "\<exists>inst' d'. foldR (run_op cfg drv) ops (rets, inst, d) = Inr (rets @ replicate (length ops) OK, inst', d') \<and>
    ready d' \<and> log_rel cfg (img d') s inst' (fold log_op ops L)"
  using ops_keep [OF assms] by blast

text \<open>A direct write and the read of it, whatever the buffers held before.\<close>

lemma direct_roundtrip:
  assumes rd: "ready d" and v: "valid_pos (unat (tr_block tr)) (unat (tr_page tr))"
    and blank: "img d (unat (tr_block tr)) (unat (tr_page tr)) = blank_page"
    and n: "0 < length data" "length data + 16 \<le> PAGE_SIZE"
    and l: "unat layer = LAYER_DIRECT"
    and w: "length wbf = PAGE_SIZE" and r: "length page0 = PAGE_SIZE"
    and m: "m \<noteq> 0" "min (length data) (unat m) \<le> length buf"
  shows "\<exists>d1 d2. mxfs_write drv d layer (Some data) (of_nat (length data)) tr (Some wbf) = Inr (OK, d1) \<and>
    mxfs_read drv d1 layer (Some buf) m tr (Some page0) =
      Inr (int (min (length data) (unat m)),
        Some (take (unat m) data @ drop (min (length data) (unat m)) buf), d2) \<and> ready d2"
proof -
  let ?n = "of_nat (length data) :: u16" and ?b = "tr_block tr" and ?p = "tr_page tr"
  let ?cp = "direct_header ?n (compress_of (take 16 wbf))"
  let ?data = "compress_bytes ?cp @ data"
  have n16: "unat ?n = length data" "unat (?n + 16) = length data + 16"
    using n by (simp_all add: unat_of_nat_small unat_word_ariths)
  have nz: "?n \<noteq> 0" using n by (simp add: of_nat_eq_0_small)
  let ?w2 = "?data @ drop (length data + 16) wbf"
  have wr: "mxfs_write drv d layer (Some data) ?n tr (Some wbf) = drv_write drv d ?b ?p ?w2 (?n + 16)"
    using n w nz by (simp add: mxfs_write_def l mem_read_def mem_write_def n16 add.commute)
  obtain d1 fill where d1: "drv_write drv d ?b ?p ?w2 (?n + 16) = Inr (OK, d1)" "ready d1"
    "same_flash (img d1) ((img d)(unat ?b := (img d (unat ?b))(unat ?p := programmed ?data fill)))"
    using write_law [OF rd v _ _ blank, of "?n + 16" ?w2] n n16 by auto
  have pg: "img d1 (unat ?b) (unat ?p) = programmed ?data fill" using d1(3) v by (simp add: same_flash_def)
  obtain d2 where d2: "drv_read drv d1 ?b ?p page0 (of_nat PAGE_SIZE) = Inr (OK, programmed ?data fill, d2)" "ready d2"
    using read_law [OF d1(2) v, of "of_nat PAGE_SIZE" page0] r n by (auto simp: pg)
  let ?k = "min (length data) (unat m)"
  have len: "unat (tmp_base ?cp) = length data" and ty: "unat (cp_type ?cp) = 6" and mg: "cp_magic ?cp = MAGIC"
    using n n16 by (simp_all add: direct_header_def cp_simps take_bit_small unat_ucast_up)
  have lp: "length (programmed ?data fill) = PAGE_SIZE" using n by simp
  have "read_loop 6 (unat m) (programmed ?data fill) 0 (buf, 0) =
      copy_records (programmed ?data fill) 16 ?k 1 (buf, 0)"
    using read_loop_config [of 0 "programmed ?data fill" ?cp, OF _ mg ty] len by (simp add: programmed_def)
  also have "\<dots> = bindR (mem_write buf 0 (take ?k data)) (\<lambda>b. Inr (b, 0 + length (take ?k data)))"
    using copy_records_spec [of 16 "programmed ?data fill" "take ?k data"
        "drop ?k data @ replicate (PAGE_SIZE - length ?data) fill" 1 ?k buf 0] lp
    by (simp add: programmed_def)
  finally have "mxfs_read drv d1 layer (Some buf) m tr (Some page0) =
      Inr (int ?k, Some (take (unat m) data @ drop ?k buf), d2)"
    using m d2 by (simp add: mxfs_read_def l mem_write_def min_def)
  then show ?thesis using wr d1(1) d2(2) by auto
qed

end

section \<open>Room, stalls and losses\<close>

text \<open>A layer buffer with room never asks for more: over any driver a valid append stores its record.\<close>

lemma append_stores:
  assumes inv: "inst_inv cfg inst" and cfg: "good_build cfg" and l: "unat layer < LAYER_MAX"
    and room: "layer_room cfg (unat layer)" and n: "unat n = rsz (unat layer)" and buf: "unat n \<le> length buffer"
    and ap: "mxfs_append cfg drv inst d layer t buffer n = Inr (ret, inst', d')"
  shows "ret = OK \<and> (\<exists>ss. pending_of inst' (unat layer) = ss @ [(t, take (rsz (unat layer)) buffer)] \<and>
    (ss = pending_of inst (unat layer) \<or> ss = []))"
proof -
  let ?l = "unat layer"
  from ap obtain inst2 d2 where pr: "append_prepare cfg drv inst d ?l = Inr (inst2, d2)"
    and st: "append_store cfg ?l t buffer n inst2 = Inr (ret, inst')"
    by (auto simp: mxfs_append_unfold [OF inv l n] bindR_eq_Inr)
  have p: "inst_inv cfg inst2" "page_len (counts_of inst2) + rsz ?l \<le> PAGE_SIZE - 64"
    "inst2 = inst \<or> page_len (counts_of inst2) = 0"
    using append_prepare_inst [OF inv pr] by simp_all
  have ok: "layer_ok cfg inst2 ?l" using buffers_okD [OF inst_invD(1) [OF p(1)] l] .
  have "unat (mxfs_length inst2 ?l) + 8 + rsz ?l \<le> MXFS_BUFFER_SIZE cfg"
    using ok layer_room_enough [OF l p(2) room] by (simp add: layer_ok_def counts_of_def)
  from append_store_spec [OF cfg l ok n buf this, of t] st
  have "ret = OK" "pending_of inst' ?l = pending_of inst2 ?l @ [(t, take (rsz ?l) buffer)]" by auto
  moreover have "pending_of inst2 ?l = []" if "page_len (counts_of inst2) = 0"
    using that l by (simp add: page_len_0_iff counts_of_def unat_eq_0)
  ultimately show ?thesis using p(3) by auto
qed

lemma append_stalls:
  assumes inv: "inst_inv build_rp2040 inst" and c: "counts_of inst 5 = 819"
    and small: "page_len (counts_of inst) + 2 \<le> PAGE_SIZE - 64" and layer: "unat layer = LAYER_TEMPERATURE" and n: "unat n = 2"
  shows "mxfs_append build_rp2040 drv inst d layer t buffer n = Inr (NEED_MORE_BUFFER, inst, d)"
proof -
  have "layer_ok build_rp2040 inst 5" by (rule buffers_okD [OF inst_invD(1) [OF inv]]) simp
  then have "unat (mxfs_length inst 5) = 8190" using c by (simp add: layer_ok_def counts_of_def)
  moreover have "append_prepare build_rp2040 drv inst d 5 = Inr (inst, d)" using small by (simp add: append_prepare_def)
  ultimately show ?thesis
    using layer n by (simp add: mxfs_append_unfold [OF inv] append_store_def) (simp add: build_rp2040_def)
qed

lemma failed_write_loses:
  assumes inv: "inst_inv cfg inst" and ne: "page_len (counts_of inst) \<noteq> 0"
    and un: "\<not> marked inst (unat (mxfs_current_block inst))"
    and wr: "\<And>bs k. drv_write drv d (mxfs_current_block inst) (mxfs_current_page inst) bs k = Inr (r, d1)" and r: "r \<noteq> OK"
  shows "\<exists>inst'. mxfs_flush cfg drv inst d = Inr (r, inst', d1) \<and> position inst' = position inst \<and>
    (\<forall>l<LAYER_MAX. pending_of inst' l = [])"
proof -
  have "unat (mxfs_current_block inst) < BLOCK_COUNT" using inst_invD(3) [OF inv] by (simp add: position_ok_def)
  then have "flush_erase drv (clear_all inst) d = Inr (OK, clear_all inst, d)"
    using un by (intro flush_erase_simps(2)) (simp_all add: marked_def)
  then have "mxfs_flush cfg drv inst d = Inr (r, clear_all inst, d1)"
    using wr r by (simp add: mxfs_flush_unfold [OF inv ne])
  then show ?thesis by (auto simp: position_def)
qed

lemma failed_erase_unmarks:
  assumes inv: "inst_inv cfg inst" and ne: "page_len (counts_of inst) \<noteq> 0"
    and m: "marked inst (unat (mxfs_current_block inst))"
    and er: "drv_erase drv d (mxfs_current_block inst) = Inr (r, d1)" and r: "r \<noteq> OK"
  shows "\<exists>inst'. mxfs_flush cfg drv inst d = Inr (ERR, inst', d1) \<and> position inst' = position inst \<and>
    \<not> marked inst' (unat (mxfs_current_block inst)) \<and> (\<forall>l<LAYER_MAX. pending_of inst' l = [])"
proof -
  let ?b = "unat (mxfs_current_block inst)"
  have b: "?b < BLOCK_COUNT" using inst_invD(3) [OF inv] by (simp add: position_ok_def)
  have "(w AND NOT 1) AND 1 = (0 :: u32)" for w by (rule bit_word_eqI) (auto simp: bit_simps)
  then have z: "(w AND - 2) AND 1 = (0 :: u32)" for w by simp
  let ?c = "clear_all inst"
  let ?i = "?c\<lparr>blocks := (blocks inst)(?b := (blocks inst ?b)\<lparr>bs_flags := bs_flags (blocks inst ?b) AND NOT BLOCK_INVALID\<rparr>)\<rparr>"
  have "flush_erase drv ?c d = Inr (ERR, ?i, d1)"
    using flush_erase_simps(1) [of ?c "mxfs_current_block inst" drv d] b m er r by (simp add: marked_def)
  then have "mxfs_flush cfg drv inst d = Inr (ERR, ?i, d1)" by (simp add: mxfs_flush_unfold [OF inv ne])
  moreover have "pending_of ?i l = []" if "l < LAYER_MAX" for l using that by (simp add: pending_of_def)
  ultimately show ?thesis by (auto simp: position_def marked_def z)
qed

section \<open>The ring is cyclic\<close>

lemma log_pos_eq_iff:
  "1 \<le> s \<Longrightarrow> log_pos s i = log_pos s j \<longleftrightarrow> i mod 65472 = j mod 65472"
proof -
  have split: "k mod 65472 = k mod 64 + 64 * (k div 64 mod 1023)" for k :: nat
    using mod_mult2_eq [of k 64 1023] by simp
  have "(s - 1 + a) mod 1023 = (s - 1 + b) mod 1023 \<longleftrightarrow> a mod 1023 = b mod 1023" for a b :: nat
    unfolding nat_mod_eq_iff by (simp add: add.assoc)
  then have pos: "log_pos s i = log_pos s j \<longleftrightarrow> i div 64 mod 1023 = j div 64 mod 1023 \<and> i mod 64 = j mod 64"
    by (simp add: log_pos_def)
  have lt: "k mod 64 < 64" for k :: nat by simp
  have "a + 64 * x = b + 64 * y \<longleftrightarrow> a = b \<and> x = y" if "a < 64" "b < 64" for a b x y :: nat
  proof
    assume e: "a + 64 * x = b + 64 * y"
    have "(a + 64 * x) mod 64 = a" "(b + 64 * y) mod 64 = b" using that by simp_all
    then have "a = b" using e by metis
    then show "a = b \<and> x = y" using e by simp
  qed simp
  from this [OF lt lt, of i "i div 64 mod 1023" j "j div 64 mod 1023"]
  show ?thesis unfolding pos split [of i] split [of j] by blast
qed

lemma position_log_pos:
  assumes "position_ok inst"
  shows "position inst = log_pos (unat (mxfs_current_block inst)) (unat (mxfs_current_page inst))"
  using assms by (auto simp: position_ok_def position_def log_pos_def)

lemma advance_iter:
  assumes "position_ok inst"
  shows "position ((advance ^^ n) inst) = log_pos (unat (mxfs_current_block inst)) (unat (mxfs_current_page inst) + n) \<and>
    position_ok ((advance ^^ n) inst)"
proof (induction n)
  case 0
  then show ?case using assms position_log_pos by simp
next
  case (Suc n)
  then show ?case using advance_position [of "(advance ^^ n) inst"] by (simp add: next_log_pos)
qed

lemma advance_period:
  assumes "position_ok inst"
  shows "position ((advance ^^ n) inst) = position inst \<longleftrightarrow> 65472 dvd n"
proof -
  let ?p = "unat (mxfs_current_page inst)"
  have "1 \<le> unat (mxfs_current_block inst)" using assms by (simp add: position_ok_def)
  then have "position ((advance ^^ n) inst) = position inst \<longleftrightarrow> (?p + n) mod 65472 = ?p mod 65472"
    using advance_iter [OF assms, of n] by (simp add: position_log_pos [OF assms] log_pos_eq_iff)
  also have "\<dots> \<longleftrightarrow> 65472 dvd n" using mod_eq_dvd_iff_nat [of ?p "?p + n" 65472] by simp
  finally show ?thesis .
qed

section \<open>Reading any well-formed page\<close>

lemma read_any_page:
  assumes rd: "drv_read drv d (tr_block tr) (tr_page tr) page0 (of_nat PAGE_SIZE) = Inr (OK, page, d')"
    and ck: "\<forall>ck \<in> set cks. sensor_chunk ck" and page: "page = enc_chunks cks @ fill" "length page = PAGE_SIZE"
    and fill: "fill = [] \<or> 4 \<le> length fill \<and> le_word (take 4 fill) \<noteq> MAGIC"
    and n: "n \<noteq> 0"
  shows "mxfs_read drv d layer (Some buf) n tr (Some page0) =
    (let bs = layer_payload (unat layer) cks in
     if length bs \<le> length buf then Inr (int (length bs), Some (bs @ drop (length bs) buf), d') else Inl Out_of_bounds)"
proof -
  have "read_loop (unat layer) (unat n) page 0 (buf, 0) = foldR (read_visit (unat layer)) cks (buf, 0)"
    by (rule read_walk.walk_page [OF ck page fill])
  then show ?thesis using n rd by (auto simp: mxfs_read_def fold_read_visit mem_write_def Let_def)
qed

lemma oversized_direct_write:
  assumes "unat layer = LAYER_DIRECT" and "length wbf = PAGE_SIZE" and "PAGE_SIZE - 16 < unat n" and "unat n \<le> length data"
  shows "mxfs_write drv d layer (Some data) n tr (Some wbf) = Inl Out_of_bounds"
proof -
  have "n \<noteq> 0" using assms(3) by auto
  then show ?thesis using assms by (simp add: mxfs_write_def mem_read_def mem_write_def)
qed

section \<open>Header codec\<close>

lemma gyro_header_roundtrip:
  assumes "l < 32" and "k < 2 ^ 11"
  shows "compress_of (compress_bytes (gyro_header l t u k)) = gyro_header l t u k"
    "unat (cp_type (gyro_header l t u k)) = l" "unat (gyr_count (gyro_header l t u k)) = k"
    "cp_comp (gyro_header l t u k) = 1" "gyr_dim (gyro_header l t u k) = 3"
  using assms by (simp_all add: gyro_header_count) (simp_all add: gyro_header_def cp_simps)

end
