(* ===== verification/Mxfs_Timerange.thy ===== *)
theory Mxfs_Timerange
  imports Mxfs_Refine
begin

text \<open>
  \<open>mxfs_timerange\<close> and \<open>mxfs_timerange_by_block\<close> (\<open>sw/child/src/mxfs_timerange.cc\<close>): which pages hold
  records of a layer. The Linux branch of the first looks at the page status only; the other branch
  also reads the head of every page. The caller's array is a list, \<open>None\<close> for \<open>NULL\<close>. The walk of the
  second over the chunks of a page is a \<open>page_walker\<close> over its 2112-byte buffer.
\<close>

section \<open>Reporting a page\<close>

type_synonym 'd ranges = "nat \<times> timerange list \<times> 'd"
type_synonym 'd range_result = "int \<times> timerange list option \<times> 'd"

definition put_range ::
  "nat \<Rightarrow> (timerange \<Rightarrow> timerange) \<Rightarrow> 'd ranges \<Rightarrow> ('d range_result + 'd ranges) res" where
  "put_range timerangecount upd = (\<lambda>(cnt, tr, d).
     if cnt < timerangecount
     then if cnt < length tr then Inr (Inr (cnt + 1, tr[cnt := upd (tr ! cnt)], d)) else Inl Out_of_bounds
     else Inr (Inl (NEED_MORE_BUFFER, Some tr, d)))"

definition range_result :: "'d range_result + 'd ranges \<Rightarrow> 'd range_result" where
  "range_result r = (case r of Inl ret \<Rightarrow> ret | Inr (cnt, tr, d) \<Rightarrow> (int cnt, Some tr, d))"

definition data_pages :: "(nat \<times> nat) list" where
  "data_pages = List.product [BLOCK_START_DATA_AREA..<BLOCK_COUNT] [0..<PAGE_COUNT]"

definition set_range :: "nat \<times> nat \<Rightarrow> u64 \<Rightarrow> u64 \<Rightarrow> timerange \<Rightarrow> timerange" where
  "set_range pos start lst t =
     t\<lparr>tr_block := of_nat (fst pos), tr_page := of_nat (snd pos), tr_start_time := start, tr_last_time := lst\<rparr>"

section \<open>mxfs_timerange\<close>

definition timerange_page ::
  "'d driver \<Rightarrow> byte mxfs_inst \<Rightarrow> nat \<Rightarrow> nat \<Rightarrow> nat \<times> nat \<Rightarrow> 'd ranges \<Rightarrow> ('d range_result + 'd ranges) res" where
  "timerange_page drv inst layer timerangecount pos = (\<lambda>(cnt, tr, d).
     bindR (drv_read drv d (of_nat (fst pos)) (of_nat (snd pos)) (replicate 16 0) 16) (\<lambda>(r, rbf, d').
     if r \<noteq> OK then Inr (Inr (cnt, tr, d'))
     else if cp_magic (compress_of rbf) \<noteq> MAGIC then Inr (Inr (cnt, tr, d'))
     else if layer \<ge> LAYER_MAX then Inl Out_of_bounds
     else if ucast (bs_pages (blocks inst (fst pos)) (snd pos)) AND (page_flags_array ! layer) \<noteq> 0
     then put_range timerangecount (set_range pos 0 0) (cnt, tr, d')
     else Inr (Inr (cnt, tr, d'))))"

definition mxfs_timerange ::
  "'d driver \<Rightarrow> byte mxfs_inst \<Rightarrow> 'd \<Rightarrow> byte \<Rightarrow> timerange list option \<Rightarrow> u16 \<Rightarrow> 'd range_result res" where
  "mxfs_timerange drv inst d layer timerange timerangecount =
     (case timerange of
        None \<Rightarrow> Inr (ERR, None, d)
      | Some tr \<Rightarrow>
          if timerangecount = 0 then Inr (ERR, timerange, d)
          else bindR (loopR (timerange_page drv inst (unat layer) (unat timerangecount)) data_pages (0, tr, d))
                 (\<lambda>r. Inr (range_result r)))"

text \<open>The branch under \<open>__LINUX__\<close>: both times are the start time.\<close>

definition timerange_page_linux ::
  "page_status mxfs_inst \<Rightarrow> nat \<Rightarrow> nat \<Rightarrow> nat \<times> nat \<Rightarrow> unit ranges \<Rightarrow> (unit range_result + unit ranges) res" where
  "timerange_page_linux inst layer timerangecount pos s =
     (let st = bs_pages (blocks inst (fst pos)) (snd pos) in
      if layer \<ge> LAYER_MAX then Inl Out_of_bounds
      else if ps_flags st AND (PAGE_VALID OR (page_flags_array ! layer)) \<noteq> 0
      then put_range timerangecount (set_range pos (ps_start_time st) (ps_start_time st)) s
      else Inr (Inr s))"

definition mxfs_timerange_linux ::
  "page_status mxfs_inst \<Rightarrow> byte \<Rightarrow> timerange list option \<Rightarrow> u16 \<Rightarrow> unit range_result res" where
  "mxfs_timerange_linux inst layer timerange timerangecount =
     (case timerange of
        None \<Rightarrow> Inr (ERR, None, ())
      | Some tr \<Rightarrow>
          if timerangecount = 0 then Inr (ERR, timerange, ())
          else bindR (loopR (timerange_page_linux inst (unat layer) (unat timerangecount)) data_pages (0, tr, ()))
                 (\<lambda>r. Inr (range_result r)))"

section \<open>mxfs_timerange_by_block\<close>

text \<open>Start time, last time and number of records found so far in a page.\<close>

type_synonym found = "u64 \<times> u64 \<times> u16"

definition time64 :: "compress \<Rightarrow> u64" where
  "time64 cp = ucast (cp_time cp) * 1000 + ucast (cp_msec cp)"

text \<open>For the 3-axis and temperature layers the time is computed in 32 bits.\<close>

definition time32 :: "compress \<Rightarrow> u64" where
  "time32 cp = ucast (cp_time cp * 1000 + cp_msec cp)"

definition found_ant :: "compress \<Rightarrow> found \<Rightarrow> found" where
  "found_ant cp = (\<lambda>(start, last, n). (if start = 0 then time64 cp else start, time64 cp, n + 1))"

definition found_run :: "compress \<Rightarrow> u32 \<Rightarrow> found \<Rightarrow> found" where
  "found_run cp count = (\<lambda>(start, last, n).
     (if start = 0 then time32 cp else start, time32 cp + ucast count * ucast (cp_step cp), n + ucast count))"

function range_loop :: "nat \<Rightarrow> byte list \<Rightarrow> nat \<Rightarrow> found \<Rightarrow> found res" where
  "range_loop layer rbf offset acc =
     (if offset < 2112
      then bindR (mem_read rbf offset 4) (\<lambda>mg.
           if le_word mg \<noteq> MAGIC then Inr acc
           else bindR (mem_read rbf offset 16) (\<lambda>hb.
             let cp = compress_of hb; ty = unat (cp_type cp); off = offset + 16 in
             if ty \<le> LAYER_ANTP_CADENCE
             then range_loop layer rbf (off + unat (ant_length cp)) (if ty = layer then found_ant cp acc else acc)
             else if ty \<le> LAYER_ACCELEROMETER
             then range_loop layer rbf (off + unat (gyr_count cp) * 2 * 3)
                    (if ty = layer then found_run cp (gyr_count cp) acc else acc)
             else if ty = LAYER_TEMPERATURE
             then range_loop layer rbf (off + unat (tmp_count cp) * 2)
                    (if ty = layer then found_run cp (tmp_count cp) acc else acc)
             else range_loop layer rbf off acc))
      else Inr acc)"
  by pat_completeness auto
termination by (relation "measure (\<lambda>(layer, rbf, offset, acc). 2112 - offset)") auto

declare range_loop.simps [simp del]

definition by_block_page ::
  "'d driver \<Rightarrow> 'p mxfs_inst \<Rightarrow> nat \<Rightarrow> u16 \<Rightarrow> nat \<Rightarrow> nat \<Rightarrow> 'd ranges \<Rightarrow> ('d range_result + 'd ranges) res" where
  "by_block_page drv inst layer block timerangecount page = (\<lambda>(cnt, tr, d).
     if unat block \<ge> BLOCK_COUNT then Inl Out_of_bounds
     else bindR
       (if bs_flags (blocks inst (unat block)) AND BLOCK_INVALID \<noteq> 0
        then bindR (drv_read drv d block (of_nat page) (replicate 2112 0) 2112) (\<lambda>(r, rbf, d').
             if r \<noteq> OK then Inl Panic
             else bindR (range_loop layer rbf 0 (0, 0, 0)) (\<lambda>f. Inr (f, d')))
        else Inr ((0, 0, 0), d)) (\<lambda>((start, last, n), d').
     if n > 0
     then put_range timerangecount (\<lambda>t. (set_range (unat block, page) start last t)\<lparr>tr_record_count := n\<rparr>) (cnt, tr, d')
     else Inr (Inr (cnt, tr, d'))))"

text \<open>\<open>linux\<close> says whether \<open>__LINUX__\<close> is defined: then the call panics.\<close>

definition mxfs_timerange_by_block ::
  "bool \<Rightarrow> 'd driver \<Rightarrow> 'p mxfs_inst \<Rightarrow> 'd \<Rightarrow> byte \<Rightarrow> u16 \<Rightarrow> timerange list option \<Rightarrow> u16 \<Rightarrow> 'd range_result res" where
  "mxfs_timerange_by_block linux drv inst d layer block timerange timerangecount =
     (case timerange of
        None \<Rightarrow> Inr (ERR, None, d)
      | Some tr \<Rightarrow>
          if timerangecount = 0 then Inr (ERR, timerange, d)
          else if unat block < BLOCK_START_DATA_AREA then Inr (ERR, timerange, d)
          else if linux then Inl Panic
          else bindR (loopR (by_block_page drv inst (unat layer) block (unat timerangecount)) [0..<PAGE_COUNT] (0, tr, d))
                 (\<lambda>r. Inr (range_result r)))"

section \<open>Scans that report pages\<close>

text \<open>The entries written by the reports \<open>us\<close>, from entry \<open>cnt\<close> on.\<close>

primrec put_all :: "nat \<Rightarrow> (timerange \<Rightarrow> timerange) list \<Rightarrow> timerange list \<Rightarrow> timerange list" where
  "put_all cnt [] tr = tr"
| "put_all cnt (u # us) tr = put_all (Suc cnt) us (tr[cnt := u (tr ! cnt)])"

lemma length_put_all [simp]: "length (put_all cnt us tr) = length tr"
  by (induction us arbitrary: cnt tr) simp_all

lemma nth_put_all:
  "cnt + length us \<le> length tr \<Longrightarrow> i < length tr \<Longrightarrow>
   put_all cnt us tr ! i = (if cnt \<le> i \<and> i < cnt + length us then (us ! (i - cnt)) (tr ! i) else tr ! i)"
proof (induction us arbitrary: cnt tr)
  case Nil
  then show ?case by auto
next
  case (Cons u us)
  then show ?case by (auto simp: nth_list_update nth_Cons' not_less_eq_eq)
qed

text \<open>The outcome of a scan whose hits are reported as \<open>us\<close>.\<close>

definition scan_outcome :: "nat \<Rightarrow> nat \<Rightarrow> (timerange \<Rightarrow> timerange) list \<Rightarrow> timerange list \<Rightarrow> 'd \<Rightarrow> 'd range_result + 'd ranges" where
  "scan_outcome timerangecount cnt us tr d =
     (if cnt + length us \<le> timerangecount then Inr (cnt + length us, put_all cnt us tr, d)
      else Inl (NEED_MORE_BUFFER, Some (put_all cnt (take (timerangecount - cnt) us) tr), d))"

text \<open>
  The contract of a loop body that reports the elements of a set that are hits, over device states
  that stay \<open>good\<close>: the whole loop then has the outcome above.
\<close>

locale range_scan =
  fixes body :: "'x \<Rightarrow> 'd ranges \<Rightarrow> ('d range_result + 'd ranges) res"
    and S :: "'x set" and hit :: "'x \<Rightarrow> bool" and upd :: "'x \<Rightarrow> timerange \<Rightarrow> timerange"
    and timerangecount :: nat and good :: "'d \<Rightarrow> bool"
  assumes body_step: "x \<in> S \<Longrightarrow> good d \<Longrightarrow> \<exists>d'. good d' \<and> body x (cnt, tr, d) =
      (if hit x then put_range timerangecount (upd x) (cnt, tr, d') else Inr (Inr (cnt, tr, d')))"
begin

lemma scan:
  "set xs \<subseteq> S \<Longrightarrow> good d \<Longrightarrow> timerangecount \<le> length tr \<Longrightarrow> cnt \<le> timerangecount \<Longrightarrow>
   \<exists>d'. good d' \<and> loopR body xs (cnt, tr, d) =
     Inr (scan_outcome timerangecount cnt (map upd (filter hit xs)) tr d')"
proof (induction xs arbitrary: cnt tr d)
  case Nil
  then show ?case by (auto simp: scan_outcome_def)
next
  case (Cons x xs)
  then obtain d1 where d1: "good d1" and b: "body x (cnt, tr, d) =
      (if hit x then put_range timerangecount (upd x) (cnt, tr, d1) else Inr (Inr (cnt, tr, d1)))"
    using body_step [of x d cnt tr] by auto
  consider (miss) "\<not> hit x" | (room) "hit x" "cnt < timerangecount" | (full) "hit x" "cnt = timerangecount"
    using Cons.prems(4) by linarith
  then show ?case
  proof cases
    case miss
    then show ?thesis using Cons d1 b by (simp add: scan_outcome_def)
  next
    case room
    then have p: "body x (cnt, tr, d) = Inr (Inr (cnt + 1, tr[cnt := upd x (tr ! cnt)], d1))"
      using b Cons.prems(3) by (simp add: put_range_def)
    obtain d' where "good d'" and "loopR body xs (cnt + 1, tr[cnt := upd x (tr ! cnt)], d1) =
        Inr (scan_outcome timerangecount (cnt + 1) (map upd (filter hit xs)) (tr[cnt := upd x (tr ! cnt)]) d')"
      using Cons.IH [OF _ d1, of "tr[cnt := upd x (tr ! cnt)]" "cnt + 1"] Cons.prems room by auto
    moreover have "timerangecount - cnt = Suc (timerangecount - (cnt + 1))" using room by simp
    ultimately show ?thesis using p room by (auto simp: scan_outcome_def)
  next
    case full
    then show ?thesis using b d1 by (auto simp: put_range_def scan_outcome_def)
  qed
qed

end

section \<open>The Linux scan\<close>

definition hit_linux :: "page_status mxfs_inst \<Rightarrow> nat \<Rightarrow> nat \<times> nat \<Rightarrow> bool" where
  "hit_linux inst layer pos \<longleftrightarrow>
     ps_flags (bs_pages (blocks inst (fst pos)) (snd pos)) AND (page_flags_array ! layer) \<noteq> 0"

definition upd_linux :: "page_status mxfs_inst \<Rightarrow> nat \<times> nat \<Rightarrow> timerange \<Rightarrow> timerange" where
  "upd_linux inst pos =
     (let t = ps_start_time (bs_pages (blocks inst (fst pos)) (snd pos)) in set_range pos t t)"

interpretation linux_scan: range_scan "timerange_page_linux inst layer timerangecount" "{pos. layer < LAYER_MAX}"
    "hit_linux inst layer" "upd_linux inst" timerangecount "\<lambda>d. True"
  by unfold_locales (auto simp: timerange_page_linux_def hit_linux_def upd_linux_def Let_def)

lemma timerange_linux_spec:
  assumes "unat layer < LAYER_MAX" and "unat n \<le> length tr" and "n \<noteq> 0"
  shows "mxfs_timerange_linux inst layer (Some tr) n =
    Inr (range_result (scan_outcome (unat n) 0 (map (upd_linux inst) (filter (hit_linux inst (unat layer)) data_pages)) tr ()))"
  using assms linux_scan.scan [of data_pages "unat layer" "unat n" tr 0 inst]
  by (simp add: mxfs_timerange_linux_def)

section \<open>The scan that reads page heads\<close>

definition hit_flash :: "flash_image \<Rightarrow> byte mxfs_inst \<Rightarrow> nat \<Rightarrow> nat \<times> nat \<Rightarrow> bool" where
  "hit_flash f inst layer pos \<longleftrightarrow>
     cp_magic (compress_of (take 16 (f (fst pos) (snd pos)))) = MAGIC \<and>
     ucast (bs_pages (blocks inst (fst pos)) (snd pos)) AND (page_flags_array ! layer) \<noteq> 0"

lemma data_pages_valid: "pos \<in> set data_pages \<Longrightarrow> valid_pos (fst pos) (snd pos)"
  by (auto simp: data_pages_def)

lemma data_pages_mem: "(b, p) \<in> set data_pages \<longleftrightarrow> 1 \<le> b \<and> valid_pos b p"
  by (auto simp: data_pages_def)

context flash_driver
begin

lemma timerange_scan:
  assumes l: "layer < LAYER_MAX"
  shows "range_scan (timerange_page drv inst layer n) (set data_pages) (hit_flash f inst layer)
    (\<lambda>pos. set_range pos 0 0) n (\<lambda>d. ready d \<and> same_flash (img d) f)"
proof
  fix pos cnt tr d
  assume pos: "pos \<in> set data_pages" and d: "ready d \<and> same_flash (img d) f"
  obtain b p where bp: "pos = (b, p)" by (cases pos)
  have v: "valid_pos b p" using data_pages_valid [OF pos] bp by simp
  then have un: "unat (of_nat b :: u16) = b" "unat (of_nat p :: u16) = p" by (simp_all add: unat_of_nat_small)
  obtain d' where r: "drv_read drv d (of_nat b) (of_nat p) (replicate 16 0) 16 =
      Inr (OK, take 16 (img d b p), d')" and d': "ready d'" "same_flash (img d') (img d)"
    using read_law [of d "of_nat b" "of_nat p" 16 "replicate 16 0"] d v un by auto
  have "img d b p = f b p" using d v by (simp add: same_flash_def)
  then have "timerange_page drv inst layer n pos (cnt, tr, d) =
      (if hit_flash f inst layer pos then put_range n (set_range pos 0 0) (cnt, tr, d') else Inr (Inr (cnt, tr, d')))"
    using r l by (simp add: timerange_page_def hit_flash_def bp)
  then show "\<exists>d'. (ready d' \<and> same_flash (img d') f) \<and> timerange_page drv inst layer n pos (cnt, tr, d) =
      (if hit_flash f inst layer pos then put_range n (set_range pos 0 0) (cnt, tr, d') else Inr (Inr (cnt, tr, d')))"
    using d' d same_flash_trans by blast
qed

lemma timerange_spec:
  assumes l: "unat layer < LAYER_MAX" and rd: "ready d" and n: "n \<noteq> 0" "unat n \<le> length tr"
  shows "\<exists>d'. ready d' \<and> same_flash (img d') (img d) \<and> mxfs_timerange drv inst d layer (Some tr) n =
    Inr (range_result (scan_outcome (unat n) 0
      (map (\<lambda>pos. set_range pos 0 0) (filter (hit_flash (img d) inst (unat layer)) data_pages)) tr d'))"
proof -
  obtain d' where "ready d'" "same_flash (img d') (img d)"
    "loopR (timerange_page drv inst (unat layer) (unat n)) data_pages (0, tr, d) =
      Inr (scan_outcome (unat n) 0
        (map (\<lambda>pos. set_range pos 0 0) (filter (hit_flash (img d) inst (unat layer)) data_pages)) tr d')"
    using range_scan.scan [OF timerange_scan [OF l], of data_pages d "img d" "unat n" tr 0 inst] rd n by auto
  then show ?thesis using n by (auto simp: mxfs_timerange_def)
qed

end

text \<open>What \<open>mxfs_flush\<close> records of a page: the bit of a layer is set iff it has samples in the page.\<close>

lemma page_mask_bits:
  assumes "l < LAYER_MAX"
  shows "page_mask P AND (page_flags_array ! l) \<noteq> 0 \<longleftrightarrow> P l \<noteq> []"
    and "ucast (ucast (page_mask P) :: byte) AND (page_flags_array ! l) \<noteq> 0 \<longleftrightarrow> P l \<noteq> []"
proof -
  have l: "l = 0 \<or> l = 1 \<or> l = 2 \<or> l = 3 \<or> l = 4 \<or> l = 5" using assms by linarith
  have fl: "page_flags_array ! k = 2 ^ (k + 2)" if "k < LAYER_MAX" for k
  proof -
    have "\<forall>k<LAYER_MAX. page_flags_array ! k = 2 ^ (k + 2)"
      by (simp only: all_layers) (simp add: page_flags_array_def)
    then show ?thesis using that by blast
  qed
  have bit_mask: "bit (page_mask P) (l + 2) \<longleftrightarrow> P l \<noteq> []"
    using l by (elim disjE) (simp_all add: page_mask_def upt_layers fl bit_simps)
  have and_pow: "(w AND 2 ^ k \<noteq> 0) = bit w k" for w :: u32 and k
    by (simp add: and_exp_eq_0_iff_not_bit)
  have k: "l + 2 < 32" "l + 2 < 8" using assms by simp_all
  show "page_mask P AND (page_flags_array ! l) \<noteq> 0 \<longleftrightarrow> P l \<noteq> []"
    unfolding fl [OF assms] and_pow by (rule bit_mask)
  have "bit (ucast (ucast (page_mask P) :: byte) :: u32) (l + 2) = bit (page_mask P) (l + 2)"
    using k by (simp add: bit_simps)
  then show "ucast (ucast (page_mask P) :: byte) AND (page_flags_array ! l) \<noteq> 0 \<longleftrightarrow> P l \<noteq> []"
    unfolding fl [OF assms] and_pow using bit_mask by simp
qed

section \<open>The walk of mxfs_timerange_by_block\<close>

definition range_visit :: "nat \<Rightarrow> chunk \<Rightarrow> found \<Rightarrow> found res" where
  "range_visit layer ck acc = Inr
     (if ck_type ck \<noteq> layer then acc
      else if layer \<le> LAYER_ANTP_CADENCE then found_ant (ck_head ck) acc
      else if layer \<le> LAYER_ACCELEROMETER then found_run (ck_head ck) (gyr_count (ck_head ck)) acc
      else found_run (ck_head ck) (tmp_count (ck_head ck)) acc)"

interpretation range_walk: page_walker "range_loop layer" "range_visit layer" 2112
proof unfold_locales
  fix ck off page rest and a :: found
  assume ck: "sensor_chunk ck" and off: "off < 2112" and d: "drop off page = enc_chunk ck @ rest"
  have magic: "cp_magic (ck_head ck) = MAGIC" using ck by (simp add: sensor_chunk_def)
  note reads = chunk_reads [OF d]
  show "range_loop layer page off a =
      bindR (range_visit layer ck a) (range_loop layer page (off + length (enc_chunk ck)))"
    using ck
  proof (cases rule: sensor_chunk_cases)
    case ant
    then show ?thesis
      using off magic reads
      by (subst range_loop.simps) (simp add: range_visit_def ck_type_def enc_chunk_def Let_def add_ac mult_ac)
  next
    case gyro
    then show ?thesis
      using off magic reads
      by (subst range_loop.simps) (simp add: range_visit_def ck_type_def enc_chunk_def Let_def add_ac mult_ac)
  next
    case temp
    then show ?thesis
      using off magic reads
      by (subst range_loop.simps) (simp add: range_visit_def ck_type_def enc_chunk_def Let_def add_ac mult_ac)
  qed
next
  fix off :: nat and page and a :: found
  assume "off < 2112" "off + 4 \<le> length page" "le_word (take 4 (drop off page)) \<noteq> MAGIC"
  then show "range_loop layer page off a = Inr a"
    by (subst range_loop.simps) (simp add: mem_read_def)
next
  fix off :: nat and page and a :: found
  assume "2112 \<le> off"
  then show "range_loop layer page off a = Inr a"
    by (subst range_loop.simps) simp
qed

section \<open>The times of a page\<close>

lemma header_msec_unat: "unat (header_msec t) = unat t mod 1000"
proof -
  have "unat (ucast (t mod 1000) :: u32) = unat t mod 1000"
    by (simp add: unsigned_ucast_eq unat_mod_distrib take_bit_nat_eq_self)
  moreover have "w AND 0x3FF = take_bit 10 w" for w :: u32
    by (simp add: take_bit_eq_mask mask_eq_exp_minus_1)
  ultimately show ?thesis
    by (simp add: header_msec_def unsigned_take_bit_eq take_bit_nat_eq_self)
qed

lemma header_msec_take_bit [simp]: "take_bit 10 (header_msec t) = header_msec t"
  using header_msec_unat [of t] by (intro take_bit_small) simp

lemma time64_header:
  assumes "unat t < 2 ^ 32 * 1000"
  shows "time64 (set_msec (header_msec t) (compress_init (ucast (t div 1000)) c ty)) = t"
proof -
  have t: "unat (ucast (t div 1000) :: u32) = unat t div 1000"
    using assms by (simp add: unsigned_ucast_eq unat_div_distrib take_bit_nat_eq_self)
  have "unat (ucast (ucast (t div 1000) :: u32) * 1000 + ucast (header_msec t) :: u64) = unat t"
    using assms by (simp add: unat_word_ariths unat_ucast_up t header_msec_unat)
  then show ?thesis unfolding time64_def by (simp add: cp_simps unsigned_word_eqI)
qed

lemma time32_header:
  "time32 (set_msec (header_msec t) (compress_init (ucast (t div 1000)) c ty)) = ucast (ucast t :: u32)"
proof -
  have t: "unat (ucast (t div 1000) :: u32) = unat t div 1000 mod 2 ^ 32"
    by (simp add: unsigned_ucast_eq unat_div_distrib take_bit_eq_mod)
  have "(unat t div 1000 mod 2 ^ 32 * 1000 + unat t mod 1000) mod 2 ^ 32 =
      (unat t div 1000 * 1000 + unat t mod 1000) mod 2 ^ 32"
    by (metis mod_add_left_eq mod_mult_left_eq)
  then have "unat (ucast (t div 1000) * 1000 + header_msec t :: u32) = unat t mod 2 ^ 32"
    by (simp add: unat_word_ariths t header_msec_unat mod_add_left_eq)
  moreover have "unat (ucast t :: u32) = unat t mod 2 ^ 32" by (simp add: unsigned_ucast_eq take_bit_eq_mod)
  ultimately have "ucast (t div 1000) * 1000 + header_msec t = (ucast t :: u32)"
    by (simp only: word_unat_eq_iff)
  then show ?thesis unfolding time32_def by (simp add: cp_simps)
qed

section \<open>What a scan finds in a written page\<close>

definition run_found :: "u64 \<Rightarrow> sample list \<Rightarrow> found" where
  "run_found lst ss =
     (let t = fst (hd ss); start = ucast (ucast t :: u32); k = length ss in
      (start, start + of_nat k * ucast (sample_step t lst k), of_nat k))"

definition page_found :: "nat \<Rightarrow> pending \<Rightarrow> found" where
  "page_found l P =
     (if P l = [] then (0, 0, 0)
      else if l \<le> LAYER_ANTP_CADENCE then (first_time 0 (P l), fst (last (P l)), of_nat (length (P l)))
      else if l \<le> LAYER_ACCELEROMETER then run_found (fst (last (P l))) (P l)
      else run_found (temp_last (carried_last P) (P l)) (P l))"

text \<open>Times a header can hold: up to the year 2106, in milliseconds.\<close>

definition times_ok :: "sample list \<Rightarrow> bool" where
  "times_ok ss \<longleftrightarrow> list_all (\<lambda>s. unat (fst s) < 2 ^ 32 * 1000) ss"

lemma range_visit_other:
  "(\<And>ck. ck \<in> set cks \<Longrightarrow> ck_type ck \<noteq> l) \<Longrightarrow> foldR (range_visit l) cks acc = Inr acc"
  by (induction cks) (auto simp: range_visit_def)

lemma time64_set_ant_length [simp]: "time64 (set_ant_length v cp) = time64 cp"
  by (simp add: time64_def cp_simps)

lemma range_visit_ant:
  assumes "l \<le> 2"
  shows "times_ok ss \<Longrightarrow> foldR (range_visit l) (map (ant_chunk l) ss) (a, b, n) =
    Inr (first_time a ss, carry b ss, n + of_nat (length ss))"
proof (induction ss arbitrary: a b n)
  case Nil
  show ?case by (simp add: first_time_def carry_def)
next
  case (Cons s ss)
  have t: "time64 (ant_header l (fst s)) = fst s"
    using Cons.prems by (simp add: ant_header_def times_ok_def time64_header)
  have "range_visit l (ant_chunk l s) (a, b, n) = Inr (if a = 0 then fst s else a, fst s, n + 1)"
    using assms by (simp add: range_visit_def found_ant_def t) (simp add: ant_chunk_def t)
  then show ?case
    using Cons by (simp add: times_ok_def first_time_def carry_def add_ac)
qed

lemma sample_step_cut [simp]: "take_bit 16 (sample_step t u k) = sample_step t u k"
proof -
  have w: "w AND 0xFFFF = take_bit 16 w" for w :: u32
    by (simp add: take_bit_eq_mask mask_eq_exp_minus_1)
  show ?thesis by (simp add: sample_step_def w Let_def)
qed

lemma run_headers:
  "cp_step (gyro_header l t u k) = sample_step t u k" "cp_step (temp_header t u k) = sample_step t u k"
  "time32 (gyro_header l t u k) = ucast (ucast t :: u32)" "time32 (temp_header t u k) = ucast (ucast t :: u32)"
  using time32_header [of t 1 "of_nat l"] time32_header [of t 1 "of_nat LAYER_TEMPERATURE"]
  by (simp_all add: gyro_header_def temp_header_def cp_simps time32_def)

lemma ucast_unat_small: "unat (w :: u32) = k \<Longrightarrow> (ucast w :: 'a::len word) = of_nat k"
  by auto

lemma range_visit_gyro:
  assumes "l = 3 \<or> l = 4" and "length ss < 2 ^ 11" and "ss \<noteq> []"
  shows "foldR (range_visit l) (gyro_chunks l ss) (0, 0, 0) = Inr (run_found (fst (last ss)) ss)"
  using assms
  by (auto simp: ucast_unat_small [OF gyro_header_count [OF assms(2)]] gyro_chunks_def range_visit_def ck_type_def found_run_def run_found_def run_headers Let_def)

lemma range_visit_temp:
  assumes "length ss < 2 ^ 16" and "ss \<noteq> []"
  shows "foldR (range_visit 5) (temp_chunks t ss) (0, 0, 0) = Inr (run_found (temp_last t ss) ss)"
  using assms
  by (auto simp: ucast_unat_small [OF temp_header_count [OF assms(1)]] temp_chunks_def range_visit_def ck_type_def found_run_def run_found_def run_headers Let_def)

lemma chunk_types:
  "ck \<in> set (gyro_chunks k ss) \<Longrightarrow> k < 32 \<Longrightarrow> ck_type ck = k"
  "ck \<in> set (temp_chunks t ss) \<Longrightarrow> ck_type ck = 5"
  by (auto simp: gyro_chunks_def temp_chunks_def ck_type_def split: if_splits)

lemma range_visit_others:
  "k \<noteq> l \<Longrightarrow> k < 32 \<Longrightarrow> foldR (range_visit l) (map (ant_chunk k) ss) acc = Inr acc"
  "k \<noteq> l \<Longrightarrow> k < 32 \<Longrightarrow> foldR (range_visit l) (gyro_chunks k ss) acc = Inr acc"
  "l \<noteq> 5 \<Longrightarrow> foldR (range_visit l) (temp_chunks u ss) acc = Inr acc"
  "foldR (range_visit l) (gyro_chunks k []) acc = Inr acc"
  "foldR (range_visit l) (temp_chunks u []) acc = Inr acc"
proof -
  show "k \<noteq> l \<Longrightarrow> k < 32 \<Longrightarrow> foldR (range_visit l) (map (ant_chunk k) ss) acc = Inr acc"
    by (intro range_visit_other) auto
  show "k \<noteq> l \<Longrightarrow> k < 32 \<Longrightarrow> foldR (range_visit l) (gyro_chunks k ss) acc = Inr acc"
    using chunk_types(1) by (intro range_visit_other) blast
  show "l \<noteq> 5 \<Longrightarrow> foldR (range_visit l) (temp_chunks u ss) acc = Inr acc"
    using chunk_types(2) by (intro range_visit_other) metis
  show "foldR (range_visit l) (gyro_chunks k []) acc = Inr acc"
    "foldR (range_visit l) (temp_chunks u []) acc = Inr acc"
    by (simp_all add: gyro_chunks_def temp_chunks_def)
qed

lemma range_visit_page:
  assumes P: "page_ok P" and l: "l < LAYER_MAX" and t: "l \<le> 2 \<Longrightarrow> times_ok (P l)"
  shows "foldR (range_visit l) (page_chunks P) (0, 0, 0) = Inr (page_found l P)"
proof -
  have "l = 0 \<or> l = 1 \<or> l = 2 \<or> l = 3 \<or> l = 4 \<or> l = 5" using l by linarith
  then show ?thesis
  proof (elim disjE)
    assume "l = 0" with t show ?thesis
      by (simp add: page_chunks_def foldR_append range_visit_others range_visit_ant page_found_def first_time_def carry_def)
  next
    assume "l = 1" with t show ?thesis
      by (simp add: page_chunks_def foldR_append range_visit_others range_visit_ant page_found_def first_time_def carry_def)
  next
    assume "l = 2" with t show ?thesis
      by (simp add: page_chunks_def foldR_append range_visit_others range_visit_ant page_found_def first_time_def carry_def)
  next
    assume "l = 3" with page_okD(7) [OF P] show ?thesis
      by (cases "P 3 = []") (simp_all add: page_chunks_def foldR_append range_visit_others range_visit_gyro page_found_def)
  next
    assume "l = 4" with page_okD(8) [OF P] show ?thesis
      by (cases "P 4 = []") (simp_all add: page_chunks_def foldR_append range_visit_others range_visit_gyro page_found_def)
  next
    assume "l = 5" with page_okD(9) [OF P] show ?thesis
      by (cases "P 5 = []") (simp_all add: page_chunks_def foldR_append range_visit_others range_visit_temp page_found_def)
  qed
qed

text \<open>The 2112 bytes of the scan are the page and 64 bytes behind it, which are never reached.\<close>

lemma range_loop_page:
  assumes P: "page_ok P" and "holds_page page P" and l: "l < LAYER_MAX" and t: "l \<le> 2 \<Longrightarrow> times_ok (P l)"
    and ext: "length ext = 64"
  shows "range_loop l (page @ ext) 0 (0, 0, 0) = Inr (page_found l P)"
proof -
  obtain fill where fill: "idle_byte fill" and page: "page = programmed (page_image P) fill"
    using assms(2) by (auto simp: holds_page_def)
  have len: "length (page_image P) \<le> 2000" using length_page_ok [OF P] page_okD(10) [OF P] by simp
  let ?f = "replicate (PAGE_SIZE - length (page_image P)) fill"
  have "range_loop l (page @ ext) 0 (0, 0, 0) = foldR (range_visit l) (page_chunks P) (0, 0, 0)"
  proof (rule range_walk.walk_page [OF page_chunks_sensor [OF P]])
    show "page @ ext = enc_chunks (page_chunks P) @ (?f @ ext)" by (simp add: page programmed_def page_image_def)
    show "?f @ ext = [] \<or> 4 \<le> length (?f @ ext) \<and> le_word (take 4 (?f @ ext)) \<noteq> MAGIC"
      using len idle_fill_no_magic [OF fill, of "PAGE_SIZE - length (page_image P)"] by simp
  qed (use page len ext in simp)
  then show ?thesis by (simp add: range_visit_page [OF P l t])
qed

section \<open>Scanning a block\<close>

text \<open>A driver that also answers reads of a page with its 64 spare bytes.\<close>

locale flash_driver_spare = flash_driver +
  assumes read_spare: "ready d \<Longrightarrow> valid_pos (unat b) (unat p) \<Longrightarrow> length buf = 2112 \<Longrightarrow>
      \<exists>d' ext. drv_read drv d b p buf 2112 = Inr (OK, img d (unat b) (unat p) @ ext, d') \<and>
        length ext = 64 \<and> ready d' \<and> same_flash (img d') (img d)"

definition block_range :: "(nat \<Rightarrow> pending) \<Rightarrow> nat \<Rightarrow> nat \<Rightarrow> nat \<Rightarrow> timerange \<Rightarrow> timerange" where
  "block_range Q layer block p t =
     (case page_found layer (Q p) of (start, lst, n) \<Rightarrow> (set_range (block, p) start lst t)\<lparr>tr_record_count := n\<rparr>)"

lemma page_found_count:
  assumes "page_ok P" and "l < LAYER_MAX"
  shows "snd (snd (page_found l P)) = of_nat (length (P l))" and "length (P l) < 2 ^ 16"
proof -
  show "snd (snd (page_found l P)) = of_nat (length (P l))"
    by (simp add: page_found_def run_found_def Let_def)
  have "\<forall>l<LAYER_MAX. length (P l) < 2 ^ 16"
    using page_okD(7-10) [OF assms(1)] by (simp add: all_layers pending_len_def page_len_def)
  then show "length (P l) < 2 ^ 16" using assms(2) by blast
qed

context flash_driver_spare
begin

lemma by_block_scan:
  assumes l: "layer < LAYER_MAX" and b: "unat block < BLOCK_COUNT" and m: "marked inst (unat block)"
    and Q: "\<And>p. p < PAGE_COUNT \<Longrightarrow> page_ok (Q p) \<and> holds_page (f (unat block) p) (Q p)"
    and t: "\<And>p. layer \<le> 2 \<Longrightarrow> p < PAGE_COUNT \<Longrightarrow> times_ok (Q p layer)"
  shows "range_scan (by_block_page drv inst layer block n) {..<PAGE_COUNT} (\<lambda>p. Q p layer \<noteq> [])
    (block_range Q layer (unat block)) n (\<lambda>d. ready d \<and> same_flash (img d) f)"
proof
  fix p cnt tr d
  assume "p \<in> {..<PAGE_COUNT}" and d: "ready d \<and> same_flash (img d) f"
  then have p: "p < PAGE_COUNT" by simp
  then have up: "unat (of_nat p :: u16) = p" by (simp add: unat_of_nat_small)
  obtain d' ext where r: "drv_read drv d block (of_nat p) (replicate 2112 0) 2112 =
      Inr (OK, img d (unat block) p @ ext, d')" "length ext = 64" and d': "ready d'" "same_flash (img d') (img d)"
    using read_spare [of d block "of_nat p" "replicate 2112 0"] d b p up by auto
  have "img d (unat block) p = f (unat block) p" using d b p by (simp add: same_flash_def)
  then have "range_loop layer (img d (unat block) p @ ext) 0 (0, 0, 0) = Inr (page_found layer (Q p))"
    using range_loop_page [OF _ _ l _ r(2)] Q [OF p] t [OF _ p] by simp
  moreover obtain start lst k where pf: "page_found layer (Q p) = (start, lst, k)"
    using prod_cases3 by blast
  moreover have "k > 0 \<longleftrightarrow> Q p layer \<noteq> []"
    using page_found_count [OF _ l, of "Q p"] Q [OF p] pf by (simp add: word_greater_zero_iff of_nat_eq_0_small)
  ultimately have "by_block_page drv inst layer block n p (cnt, tr, d) =
      (if Q p layer \<noteq> [] then put_range n (block_range Q layer (unat block) p) (cnt, tr, d')
       else Inr (Inr (cnt, tr, d')))"
    using r m b by (simp add: by_block_page_def marked_def block_range_def [abs_def])
  then show "\<exists>d'. (ready d' \<and> same_flash (img d') f) \<and> by_block_page drv inst layer block n p (cnt, tr, d) =
      (if Q p layer \<noteq> [] then put_range n (block_range Q layer (unat block) p) (cnt, tr, d')
       else Inr (Inr (cnt, tr, d')))"
    using d' d same_flash_trans by blast
qed

lemma by_block_spec:
  assumes l: "unat layer < LAYER_MAX" and b: "1 \<le> unat block" "unat block < BLOCK_COUNT"
    and m: "marked inst (unat block)" and rd: "ready d"
    and Q: "\<And>p. p < PAGE_COUNT \<Longrightarrow> page_ok (Q p) \<and> holds_page (img d (unat block) p) (Q p)"
    and t: "\<And>p. unat layer \<le> 2 \<Longrightarrow> p < PAGE_COUNT \<Longrightarrow> times_ok (Q p (unat layer))"
    and n: "n \<noteq> 0" "unat n \<le> length tr"
  shows "\<exists>d'. ready d' \<and> same_flash (img d') (img d) \<and>
    mxfs_timerange_by_block False drv inst d layer block (Some tr) n =
      Inr (range_result (scan_outcome (unat n) 0
        (map (block_range Q (unat layer) (unat block)) (filter (\<lambda>p. Q p (unat layer) \<noteq> []) [0..<PAGE_COUNT])) tr d'))"
proof -
  have "set [0..<PAGE_COUNT] \<subseteq> {..<PAGE_COUNT}" by auto
  from range_scan.scan [OF by_block_scan [where Q = Q and f = "img d", OF l b(2) m Q t] this, of d "unat n" tr 0] rd n
  obtain d' where "ready d'" "same_flash (img d') (img d)"
    "loopR (by_block_page drv inst (unat layer) block (unat n)) [0..<PAGE_COUNT] (0, tr, d) =
      Inr (scan_outcome (unat n) 0 (map (block_range Q (unat layer) (unat block))
        (filter (\<lambda>p. Q p (unat layer) \<noteq> []) [0..<PAGE_COUNT])) tr d')"
    by auto
  then show ?thesis using n b by (auto simp: mxfs_timerange_by_block_def)
qed

end

interpretation fake_spare: flash_driver_spare "fake_driver malloc_ok" fake_img fake_ready
proof
  fix d :: fakeflashmem and b p :: u16 and buf :: "byte list"
  assume d: "fake_ready d" and v: "valid_pos (unat b) (unat p)" and n: "length buf = 2112"
  then show "\<exists>d' ext. drv_read (fake_driver malloc_ok) d b p buf 2112 = Inr (OK, fake_img d (unat b) (unat p) @ ext, d') \<and>
      length ext = 64 \<and> fake_ready d' \<and> same_flash (fake_img d') (fake_img d)"
    using fake_read_ready [OF d v, of 2112 buf] fake.img_length [OF d v] by (simp add: fake_driver_def)
qed

end
