(* ===== verification/Mxfs_Instance.thy ===== *)
theory Mxfs_Instance
  imports Mxfs_Timerange
begin

text \<open>
  \<open>mxfs_create_instance\<close> and \<open>mxfs_release_instance\<close> (\<open>sw/child/src/mxfs_instance.cc\<close>): the singleton
  count behind its mutex, the allocation of the layer buffers, and the mount, which reads
  the head of every block and picks the block to write next. What the preprocessor varies is a
  \<open>platform\<close>; which allocations succeed is an argument. \<open>PANIC\<close> aborts, since every build of the
  repository defines \<open>__DRIVER_INFO__\<close>.
\<close>

section \<open>Platforms and process state\<close>

record 'p platform =
  has_mutex :: bool
  zero_page :: 'p
  mount_bad :: "nat \<Rightarrow> 'p mxfs_inst \<Rightarrow> 'p mxfs_inst"
  mount_good :: "nat \<Rightarrow> compress \<Rightarrow> 'p mxfs_inst \<Rightarrow> 'p mxfs_inst"
  find_current :: "'p mxfs_inst \<Rightarrow> 'p mxfs_inst"

record 'd mxfs_sys =
  singleton :: int
  singleton_locked :: bool
  device :: 'd

section \<open>Mounting\<close>

definition set_block :: "nat \<Rightarrow> u32 \<Rightarrow> u64 \<Rightarrow> ((nat \<Rightarrow> 'p) \<Rightarrow> nat \<Rightarrow> 'p) \<Rightarrow> 'p mxfs_inst \<Rightarrow> 'p mxfs_inst" where
  "set_block block flags time pages inst =
     inst\<lparr>blocks := (blocks inst)(block := \<lparr>bs_flags = flags, bs_start_time = time,
       bs_pages = pages (bs_pages (blocks inst block))\<rparr>)\<rparr>"

definition head_flags :: "compress \<Rightarrow> u32" where
  "head_flags cp = (if cp_magic cp = MAGIC then BLOCK_INVALID else BLOCK_VALID)"

definition mount_bad_flash :: "nat \<Rightarrow> byte mxfs_inst \<Rightarrow> byte mxfs_inst" where
  "mount_bad_flash block = set_block block BLOCK_INVALID 0 (\<lambda>ps page. 0)"

definition mount_good_flash :: "nat \<Rightarrow> compress \<Rightarrow> byte mxfs_inst \<Rightarrow> byte mxfs_inst" where
  "mount_good_flash block cp = set_block block (head_flags cp) (ucast (cp_time cp)) (\<lambda>ps page. 0xFF)"

definition mount_bad_linux :: "nat \<Rightarrow> page_status mxfs_inst \<Rightarrow> page_status mxfs_inst" where
  "mount_bad_linux block inst =
     (set_block block BLOCK_INVALID 0 (\<lambda>ps. ps(0 := (ps 0)\<lparr>ps_flags := PAGE_INVALID\<rparr>)) inst)
       \<lparr>mxfs_invalid_block := mxfs_invalid_block inst + 1\<rparr>"

definition mount_good_linux :: "nat \<Rightarrow> compress \<Rightarrow> page_status mxfs_inst \<Rightarrow> page_status mxfs_inst" where
  "mount_good_linux block cp =
     set_block block (head_flags cp) (ucast (cp_time cp)) (\<lambda>ps. ps(0 := (ps 0)\<lparr>ps_flags := PAGE_VALID\<rparr>))"

definition use_block :: "nat \<Rightarrow> 'p mxfs_inst \<Rightarrow> 'p mxfs_inst" where
  "use_block block inst = inst\<lparr>mxfs_current_block := of_nat block, mxfs_current_page := 0\<rparr>"

text \<open>The search for the current block; \<open>start_tmm\<close> is 32 bits wide.\<close>

fun find_flash :: "nat list \<Rightarrow> u32 \<Rightarrow> byte mxfs_inst \<Rightarrow> byte mxfs_inst" where
  "find_flash [] newest inst = inst"
| "find_flash (block # bs) newest inst =
     (if bs_flags (blocks inst block) AND BLOCK_INVALID \<noteq> 0
      then if bs_start_time (blocks inst block) > ucast newest
           then find_flash bs (ucast (bs_start_time (blocks inst block))) (use_block block inst)
           else find_flash bs newest inst
      else use_block block inst)"

fun find_linux :: "nat list \<Rightarrow> u32 \<Rightarrow> page_status mxfs_inst \<Rightarrow> page_status mxfs_inst" where
  "find_linux [] newest inst = inst"
| "find_linux (block # bs) newest inst =
     (let st = bs_pages (blocks inst block) 0 in
      if ps_flags st AND PAGE_VALID \<noteq> 0 \<and> ps_start_time st > ucast newest
      then find_linux bs (ucast (ps_start_time st)) (use_block block inst)
      else find_linux bs newest inst)"

abbreviation data_blocks :: "nat list" where
  "data_blocks \<equiv> [BLOCK_START_DATA_AREA..<BLOCK_COUNT]"

definition platform_rp2040 :: "byte platform" where
  "platform_rp2040 = \<lparr>has_mutex = False, zero_page = 0, mount_bad = mount_bad_flash,
     mount_good = mount_good_flash, find_current = find_flash data_blocks 0\<rparr>"

definition platform_macos :: "byte platform" where
  "platform_macos = \<lparr>has_mutex = True, zero_page = 0, mount_bad = mount_bad_flash,
     mount_good = mount_good_flash, find_current = find_flash data_blocks 0\<rparr>"

definition platform_linux :: "page_status platform" where
  "platform_linux = \<lparr>has_mutex = True, zero_page = \<lparr>ps_flags = 0, ps_start_time = 0, ps_last_time = 0\<rparr>,
     mount_bad = mount_bad_linux, mount_good = mount_good_linux, find_current = find_linux data_blocks 0\<rparr>"

text \<open>The client's callback runs on every readable block and may change the instance.\<close>

type_synonym 'p mount_callback = "('p mxfs_inst \<Rightarrow> nat \<Rightarrow> 'p mxfs_inst) option"

definition mount_block ::
  "'p platform \<Rightarrow> 'd driver \<Rightarrow> 'p mount_callback \<Rightarrow> nat \<Rightarrow> 'p mxfs_inst \<times> 'd \<Rightarrow> ('p mxfs_inst \<times> 'd) res" where
  "mount_block pf drv callback block = (\<lambda>(inst, d).
     bindR (drv_read drv d (of_nat block) 0 (replicate 16 0) 16) (\<lambda>(r, rbf, d').
     if r \<noteq> OK then Inr (mount_bad pf block inst, d')
     else let inst1 = mount_good pf block (compress_of rbf) inst in
          Inr (case callback of None \<Rightarrow> inst1 | Some cb \<Rightarrow> cb inst1 block, d')))"

section \<open>Creation and release\<close>

text \<open>The instance after \<open>memset\<close> and the allocation of the layer buffers.\<close>

definition fresh_inst :: "'p build \<Rightarrow> 'p platform \<Rightarrow> 'p mxfs_inst" where
  "fresh_inst cfg pf =
     \<lparr>mxfs_current_block = of_nat BLOCK_START_DATA_AREA, mxfs_invalid_block = 0, mxfs_current_page = 0,
      mxfs_buffer = (\<lambda>layer. replicate (MXFS_BUFFER_SIZE cfg) 0xFF), mxfs_length = (\<lambda>layer. 0),
      mxfs_count = (\<lambda>layer. 0),
      blocks = (\<lambda>block. \<lparr>bs_flags = 0, bs_start_time = 0, bs_pages = (\<lambda>page. zero_page pf)\<rparr>)\<rparr>"

text \<open>\<open>malloc_ok 0\<close> is the allocation of the instance, \<open>malloc_ok (n + 1)\<close> that of layer \<open>n\<close>'s buffer.\<close>

definition create_setup ::
  "'p build \<Rightarrow> 'p platform \<Rightarrow> 'd driver \<Rightarrow> (nat \<Rightarrow> bool) \<Rightarrow> 'p mount_callback \<Rightarrow> 'd \<Rightarrow> ('p mxfs_inst \<times> 'd) res" where
  "create_setup cfg pf drv malloc_ok callback d =
     (if \<not> list_all (\<lambda>n. malloc_ok (n + 1)) [0..<LAYER_MAX] then Inl Panic
      else bindR (drv_create_gpio drv d) (\<lambda>(r, d1).
           if r \<noteq> OK then Inl Panic
           else bindR (drv_create_spi drv d1) (\<lambda>(r, d2).
                if r \<noteq> OK then Inl Panic
                else bindR (foldR (mount_block pf drv callback) data_blocks (fresh_inst cfg pf, d2)) (\<lambda>(inst, d3).
                     Inr (find_current pf inst, d3)))))"

definition mxfs_create_instance ::
  "'p build \<Rightarrow> 'p platform \<Rightarrow> 'd driver \<Rightarrow> (nat \<Rightarrow> bool) \<Rightarrow> 'p mount_callback \<Rightarrow> 'd mxfs_sys \<Rightarrow>
   (int \<times> 'p mxfs_inst option \<times> 'd mxfs_sys) res" where
  "mxfs_create_instance cfg pf drv malloc_ok callback sys =
     (if has_mutex pf \<and> singleton_locked sys then Inl Spins
      else let sys1 = sys\<lparr>singleton_locked := has_mutex pf\<rparr> in
        if singleton sys1 \<noteq> 0 then Inr (ERR, None, sys1)
        else let sys2 = sys1\<lparr>singleton := singleton sys1 + 1, singleton_locked := False\<rparr> in
          if \<not> malloc_ok 0 then Inr (ERR, None, sys2)
          else bindR (create_setup cfg pf drv malloc_ok callback (device sys2)) (\<lambda>(inst, d).
               Inr (OK, Some inst, sys2\<lparr>device := d\<rparr>)))"

definition mxfs_release_instance ::
  "'p platform \<Rightarrow> 'd driver \<Rightarrow> 'p mxfs_inst option \<Rightarrow> 'd mxfs_sys \<Rightarrow> (int \<times> 'p mxfs_inst option \<times> 'd mxfs_sys) res" where
  "mxfs_release_instance pf drv inst sys =
     (case inst of
        None \<Rightarrow> Inr (ERR, None, sys)
      | Some i \<Rightarrow>
          if has_mutex pf \<and> singleton_locked sys then Inl Spins
          else if singleton sys = 0 then Inl Panic
          else let sys1 = sys\<lparr>singleton := singleton sys - 1, singleton_locked := False\<rparr> in
            bindR (drv_release_gpio drv (device sys1)) (\<lambda>(r, d1).
            if r \<noteq> OK then Inl Panic
            else bindR (drv_release_spi drv d1) (\<lambda>(r, d2).
                 if r \<noteq> OK then Inl Panic
                 else Inr (OK, None, sys1\<lparr>device := d2\<rparr>))))"

section \<open>What the mount reads\<close>

text \<open>The head of a block's first page, and the instance after all heads were read without error.\<close>

definition block_head :: "flash_image \<Rightarrow> nat \<Rightarrow> compress" where
  "block_head f b = compress_of (take 16 (f b 0))"

definition mounted :: "'p platform \<Rightarrow> flash_image \<Rightarrow> 'p mxfs_inst \<Rightarrow> 'p mxfs_inst" where
  "mounted pf f inst = fold (\<lambda>b. mount_good pf b (block_head f b)) data_blocks inst"

context flash_driver
begin

lemma mount_scan:
  assumes "\<forall>b \<in> set bs. b < BLOCK_COUNT" and "ready d" and "same_flash (img d) f"
  shows "\<exists>d'. foldR (mount_block pf drv None) bs (inst, d) =
      Inr (fold (\<lambda>b. mount_good pf b (block_head f b)) bs inst, d') \<and> ready d' \<and> same_flash (img d') f"
  using assms
proof (induction bs arbitrary: inst d)
  case Nil
  then show ?case by auto
next
  case (Cons b bs)
  have b: "b < BLOCK_COUNT" using Cons.prems by simp
  then have ub: "unat (of_nat b :: u16) = b" by (simp add: unat_of_nat_small)
  obtain d1 where r: "drv_read drv d (of_nat b) 0 (replicate 16 0) 16 = Inr (OK, take 16 (img d b 0), d1)"
    and d1: "ready d1" "same_flash (img d1) (img d)"
    using read_law [of d "of_nat b" 0 16 "replicate 16 0"] Cons.prems(2) b ub by auto
  have "take 16 (img d b 0) = take 16 (f b 0)" using Cons.prems(3) b by (simp add: same_flash_def)
  then have "mount_block pf drv None b (inst, d) = Inr (mount_good pf b (block_head f b) inst, d1)"
    using r by (simp add: mount_block_def block_head_def)
  moreover have "same_flash (img d1) f" using d1(2) Cons.prems(3) by (rule same_flash_trans)
  ultimately show ?case using Cons.IH [OF _ d1(1)] Cons.prems(1) by auto
qed

lemma create_setup_ok:
  assumes "\<And>n. malloc_ok n" and "drv_create_gpio drv d = Inr (OK, d1)" and "drv_create_spi drv d1 = Inr (OK, d2)"
    and rd: "ready d2"
  shows "\<exists>d'. create_setup cfg pf drv malloc_ok None d =
      Inr (find_current pf (mounted pf (img d2) (fresh_inst cfg pf)), d') \<and> ready d' \<and> same_flash (img d') (img d2)"
  using mount_scan [OF _ rd same_flash_refl, of data_blocks pf "fresh_inst cfg pf"] assms(1-3)
  by (auto simp: create_setup_def mounted_def list_all_iff)

end

section \<open>The instance after the mount\<close>

lemma mounted_flash_fold:
  "blocks (fold (\<lambda>b. mount_good_flash b (block_head f b)) bs inst) =
     (\<lambda>b. if b \<in> set bs then \<lparr>bs_flags = head_flags (block_head f b),
        bs_start_time = ucast (cp_time (block_head f b)), bs_pages = (\<lambda>page. 0xFF)\<rparr> else blocks inst b)"
  by (induction bs arbitrary: inst) (auto simp: mount_good_flash_def set_block_def fun_eq_iff)

lemma mounted_frame:
  assumes "\<And>b cp i. mxfs_buffer (mount_good pf b cp i) = mxfs_buffer i \<and> mxfs_length (mount_good pf b cp i) = mxfs_length i \<and>
      mxfs_count (mount_good pf b cp i) = mxfs_count i \<and> mxfs_current_block (mount_good pf b cp i) = mxfs_current_block i \<and>
      mxfs_current_page (mount_good pf b cp i) = mxfs_current_page i"
  shows "mxfs_buffer (mounted pf f inst) = mxfs_buffer inst \<and> mxfs_length (mounted pf f inst) = mxfs_length inst \<and>
    mxfs_count (mounted pf f inst) = mxfs_count inst \<and> mxfs_current_block (mounted pf f inst) = mxfs_current_block inst \<and>
    mxfs_current_page (mounted pf f inst) = mxfs_current_page inst"
proof -
  have "mxfs_buffer i' = mxfs_buffer inst \<and> mxfs_length i' = mxfs_length inst \<and> mxfs_count i' = mxfs_count inst \<and>
      mxfs_current_block i' = mxfs_current_block inst \<and> mxfs_current_page i' = mxfs_current_page inst"
    if "i' = fold (\<lambda>b. mount_good pf b (block_head f b)) bs inst" for bs i'
    using that by (induction bs arbitrary: i' rule: rev_induct) (simp_all add: assms)
  then show ?thesis by (simp add: mounted_def)
qed

section \<open>The search for the current block\<close>

lemma use_block_frame [simp]:
  "blocks (use_block b inst) = blocks inst" "mxfs_buffer (use_block b inst) = mxfs_buffer inst"
  "mxfs_length (use_block b inst) = mxfs_length inst" "mxfs_count (use_block b inst) = mxfs_count inst"
  "mxfs_current_page (use_block b inst) = 0" "mxfs_current_block (use_block b inst) = of_nat b"
  by (simp_all add: use_block_def)

lemma find_flash_frame [simp]:
  "blocks (find_flash bs t inst) = blocks inst" "mxfs_buffer (find_flash bs t inst) = mxfs_buffer inst"
  "mxfs_length (find_flash bs t inst) = mxfs_length inst" "mxfs_count (find_flash bs t inst) = mxfs_count inst"
  by (induction bs t inst rule: find_flash.induct) simp_all

text \<open>A free block wins: the first one.\<close>

lemma find_flash_free:
  assumes "bs = pre @ b # post" and "\<forall>k \<in> set pre. marked inst k" and "\<not> marked inst b"
  shows "mxfs_current_block (find_flash bs t inst) = of_nat b \<and> mxfs_current_page (find_flash bs t inst) = 0"
  using assms
proof (induction pre arbitrary: bs t inst)
  case Nil
  then show ?case by (simp add: marked_def)
next
  case (Cons k pre)
  have "marked (use_block k inst) = marked inst" by (simp add: marked_def fun_eq_iff)
  then show ?case
    using Cons.IH [of "pre @ b # post" inst] Cons.IH [of "pre @ b # post" "use_block k inst"] Cons.prems
    by (simp add: marked_def)
qed

text \<open>Without one, the block with the newest head.\<close>

lemma find_flash_newest:
  assumes "\<forall>b \<in> set bs. marked inst b \<and> bs_start_time (blocks inst b) = ucast (tm b :: u32)"
    and "\<exists>b \<in> set bs. tm b > t"
  shows "\<exists>b \<in> set bs. (\<forall>k \<in> set bs. tm k \<le> tm b) \<and>
    mxfs_current_block (find_flash bs t inst) = of_nat b \<and> mxfs_current_page (find_flash bs t inst) = 0"
  using assms
proof (induction bs arbitrary: t inst)
  case Nil
  then show ?case by simp
next
  case (Cons k bs)
  have cmp: "(ucast (x :: u32) :: u64) > ucast y \<longleftrightarrow> x > y" for x y :: u32
    by (simp add: word_less_nat_alt unat_ucast_up)
  have k: "bs_flags (blocks inst k) AND BLOCK_INVALID \<noteq> 0" "bs_start_time (blocks inst k) = ucast (tm k)"
    using Cons.prems(1) by (simp_all add: marked_def)
  have rest: "\<forall>b \<in> set bs. marked (use_block k inst) b \<and> bs_start_time (blocks (use_block k inst) b) = ucast (tm b)"
    using Cons.prems(1) by (simp add: marked_def)
  have u: "(ucast (ucast (tm k) :: u64) :: u32) = tm k" by (rule bit_word_eqI) (auto simp: bit_simps)
  show ?case
  proof (cases "tm k > t")
    case True
    then have step: "find_flash (k # bs) t inst = find_flash bs (tm k) (use_block k inst)"
      using k by (simp add: cmp u)
    show ?thesis
    proof (cases "\<exists>b \<in> set bs. tm b > tm k")
      case True
      from Cons.IH [OF rest True] obtain b where b: "b \<in> set bs" "\<forall>j \<in> set bs. tm j \<le> tm b"
        "mxfs_current_block (find_flash (k # bs) t inst) = of_nat b" "mxfs_current_page (find_flash (k # bs) t inst) = 0"
        unfolding step by blast
      moreover have "tm k \<le> tm b" using True b(2) by (meson less_imp_le order_trans)
      ultimately show ?thesis by (intro bexI [of _ b]) simp_all
    next
      case False
      have "find_flash bs (tm k) (use_block k inst) = use_block k inst" if "\<forall>b \<in> set bs. tm b \<le> tm k"
        using rest that
        by (induction bs) (auto simp: marked_def cmp not_less)
      then show ?thesis using step False by (auto simp: not_less)
    qed
  next
    case False
    then have step: "find_flash (k # bs) t inst = find_flash bs t inst" using k by (simp add: cmp)
    have "\<exists>b \<in> set bs. tm b > t" using Cons.prems(2) False by auto
    then obtain j where j: "j \<in> set bs" "tm j > t" by blast
    have "\<exists>b \<in> set bs. (\<forall>k \<in> set bs. tm k \<le> tm b) \<and>
        mxfs_current_block (find_flash bs t inst) = of_nat b \<and> mxfs_current_page (find_flash bs t inst) = 0"
      by (rule Cons.IH) (use Cons.prems(1) j in auto)
    then obtain b where b: "b \<in> set bs" "\<forall>j \<in> set bs. tm j \<le> tm b"
      "mxfs_current_block (find_flash (k # bs) t inst) = of_nat b" "mxfs_current_page (find_flash (k # bs) t inst) = 0"
      unfolding step by blast
    moreover have "tm k \<le> tm b" using False j b(2) by (meson not_less less_imp_le order_trans)
    ultimately show ?thesis by (intro bexI [of _ b]) simp_all
  qed
qed

lemma find_linux_none: "find_linux bs t inst = inst"
  by (induction bs t inst rule: find_linux.induct) simp_all

section \<open>A created instance starts an empty log\<close>

definition empty_log :: mxfs_log where
  "empty_log = \<lparr>log_pages = [], log_pending = (\<lambda>l. [])\<rparr>"

definition free_block :: "flash_image \<Rightarrow> nat \<Rightarrow> bool" where
  "free_block f b \<longleftrightarrow> cp_magic (block_head f b) \<noteq> MAGIC"

text \<open>An instance that has nothing buffered and is at the first page of a block.\<close>

definition starts_at :: "'p build \<Rightarrow> 'p mxfs_inst \<Rightarrow> nat \<Rightarrow> bool" where
  "starts_at cfg inst b \<longleftrightarrow> inst_inv cfg inst \<and> position inst = (b, 0) \<and> 1 \<le> b \<and> b < BLOCK_COUNT \<and> (\<forall>l. pending_of inst l = [])"

lemma starts_atI:
  assumes "good_build cfg" and b: "1 \<le> b" "b < BLOCK_COUNT"
    and cur: "mxfs_current_block inst = of_nat b" "mxfs_current_page inst = 0"
    and buf: "mxfs_buffer inst = mxfs_buffer (fresh_inst cfg pf)" "mxfs_length inst = mxfs_length (fresh_inst cfg pf)"
      "mxfs_count inst = mxfs_count (fresh_inst cfg pf)"
  shows "starts_at cfg inst b"
proof -
  have pos: "position inst = (b, 0)" using cur b by (simp add: position_def unat_of_nat_small)
  have cnt: "counts_of inst l = 0" for l by (simp add: counts_of_def buf fresh_inst_def)
  have "buffers_ok cfg inst" by (simp add: buffers_ok_def layer_ok_def list_all_iff buf fresh_inst_def)
  moreover have "page_len (counts_of inst) = 0" by (simp add: page_len_0_iff cnt)
  ultimately have "inst_inv cfg inst" using pos b by (simp add: inst_inv_def position_ok_iff)
  moreover have "pending_of inst l = []" for l by (simp add: pending_of_def buf fresh_inst_def)
  ultimately show ?thesis using pos b by (simp add: starts_at_def)
qed

lemma log_rel_start:
  assumes "starts_at cfg inst b" and "marked inst b \<or> (\<forall>q<PAGE_COUNT. f b q = blank_page)"
  shows "log_rel cfg f b inst empty_log"
  using assms by (auto simp: starts_at_def log_rel_def empty_log_def pages_ok_def tail_ok_def log_pos_def)

lemma mounted_flash:
  fixes f :: flash_image
  assumes "mount_good pf = mount_good_flash"
  shows "blocks (mounted pf f inst) =
     (\<lambda>b. if b \<in> set data_blocks then \<lparr>bs_flags = head_flags (block_head f b),
        bs_start_time = ucast (cp_time (block_head f b)), bs_pages = (\<lambda>page. 0xFF)\<rparr> else blocks inst b)"
    and "mxfs_buffer (mounted pf f inst) = mxfs_buffer inst" "mxfs_length (mounted pf f inst) = mxfs_length inst"
    "mxfs_count (mounted pf f inst) = mxfs_count inst"
  using mounted_flash_fold [of f data_blocks inst] mounted_frame [of pf f inst]
  by (simp_all add: mounted_def assms mount_good_flash_def set_block_def)

text \<open>The block chosen by the mount: the first free one, or the one with the newest head.\<close>

definition chosen_block :: "flash_image \<Rightarrow> nat \<Rightarrow> bool" where
  "chosen_block f b \<longleftrightarrow> b \<in> set data_blocks \<and>
     (if \<exists>k \<in> set data_blocks. free_block f k
      then free_block f b \<and> (\<forall>k \<in> set data_blocks. k < b \<longrightarrow> \<not> free_block f k)
      else \<forall>k \<in> set data_blocks. cp_time (block_head f k) \<le> cp_time (block_head f b))"

lemma free_block_cong: "block_head f b = block_head g b \<Longrightarrow> free_block f b = free_block g b"
  by (simp add: free_block_def)

lemma chosen_block_cong:
  assumes "\<And>b. b \<in> set data_blocks \<Longrightarrow> block_head f b = block_head g b"
  shows "chosen_block f b = chosen_block g b"
proof -
  have free: "k \<in> set data_blocks \<Longrightarrow> free_block f k = free_block g k" for k by (rule free_block_cong) (rule assms)
  have ex: "(\<exists>k \<in> set data_blocks. free_block f k) = (\<exists>k \<in> set data_blocks. free_block g k)" by (rule bex_cong [OF refl free])
  have low: "(\<forall>k \<in> set data_blocks. k < b \<longrightarrow> \<not> free_block f k) = (\<forall>k \<in> set data_blocks. k < b \<longrightarrow> \<not> free_block g k)"
    by (rule ball_cong [OF refl]) (simp only: free)
  have new: "b \<in> set data_blocks \<Longrightarrow> (\<forall>k \<in> set data_blocks. cp_time (block_head f k) \<le> cp_time (block_head f b)) =
      (\<forall>k \<in> set data_blocks. cp_time (block_head g k) \<le> cp_time (block_head g b))"
    by (rule ball_cong [OF refl]) (simp only: assms)
  show ?thesis unfolding chosen_block_def ex low by (rule conj_cong [OF refl]) (simp only: new free)
qed

lemma first_split:
  assumes "\<exists>k \<in> set [a..<n]. Q k"
  shows "\<exists>b. b \<in> set [a..<n] \<and> Q b \<and> [a..<n] = [a..<b] @ b # [Suc b..<n] \<and> (\<forall>k \<in> set [a..<b]. \<not> Q k)"
proof -
  define b where "b = (LEAST k. a \<le> k \<and> Q k)"
  obtain k where k: "a \<le> k \<and> Q k" "k < n" using assms by auto
  have b: "a \<le> b \<and> Q b" unfolding b_def by (rule LeastI) (rule k(1))
  have "b \<le> k" unfolding b_def by (rule Least_le) (rule k(1))
  then have lt: "b < n" using k(2) by simp
  have "\<not> (a \<le> k \<and> Q k)" if "k < b" for k using that unfolding b_def by (rule not_less_Least)
  then have pre: "\<forall>k \<in> set [a..<b]. \<not> Q k" by simp
  have split: "[a..<n] = [a..<b] @ b # [Suc b..<n]"
    using b lt upt_add_eq_append [of a b "n - b"] by (simp add: upt_conv_Cons [of b n])
  have "b \<in> set [a..<n]" using b lt by simp
  with b pre split show ?thesis by blast
qed

lemma mount_chooses:
  assumes pf: "mount_good pf = mount_good_flash" "find_current pf = find_flash data_blocks 0"
    and tm: "\<exists>b \<in> set data_blocks. free_block f b \<or> cp_time (block_head f b) > 0"
  shows "\<exists>b. chosen_block f b \<and>
    mxfs_current_block (find_current pf (mounted pf f (fresh_inst cfg pf))) = of_nat b \<and>
    mxfs_current_page (find_current pf (mounted pf f (fresh_inst cfg pf))) = 0"
proof -
  let ?i = "mounted pf f (fresh_inst cfg pf)"
  have m: "marked ?i b \<longleftrightarrow> \<not> free_block f b" "bs_start_time (blocks ?i b) = ucast (cp_time (block_head f b))"
    if "b \<in> set data_blocks" for b
    using that by (auto simp: marked_def mounted_flash(1) [OF pf(1)] head_flags_def free_block_def)
  show ?thesis
  proof (cases "\<exists>b \<in> set data_blocks. free_block f b")
    case True
    from first_split [OF True] obtain b where b: "b \<in> set data_blocks" "free_block f b"
      "data_blocks = [1..<b] @ b # [Suc b..<BLOCK_COUNT]" "\<forall>k \<in> set [1..<b]. \<not> free_block f k" by blast
    have "mxfs_current_block (find_flash data_blocks 0 ?i) = of_nat b \<and> mxfs_current_page (find_flash data_blocks 0 ?i) = 0"
      by (rule find_flash_free [OF b(3)]) (use b m in auto)
    moreover have "chosen_block f b" using b True by (auto simp: chosen_block_def)
    ultimately show ?thesis by (auto simp: pf(2))
  next
    case False
    have "\<exists>b \<in> set data_blocks. (\<forall>k \<in> set data_blocks. cp_time (block_head f k) \<le> cp_time (block_head f b)) \<and>
        mxfs_current_block (find_flash data_blocks 0 ?i) = of_nat b \<and> mxfs_current_page (find_flash data_blocks 0 ?i) = 0"
      by (rule find_flash_newest) (use m False tm in auto)
    then show ?thesis using False by (auto simp: pf(2) chosen_block_def)
  qed
qed

context flash_driver
begin

lemma create_chooses:
  assumes cfg: "good_build cfg" and pf: "mount_good pf = mount_good_flash" "find_current pf = find_flash data_blocks 0"
    and mal: "\<And>n. malloc_ok n" and sys: "singleton sys = 0" "\<not> singleton_locked sys"
    and drv: "drv_create_gpio drv (device sys) = Inr (OK, d1)" "drv_create_spi drv d1 = Inr (OK, d2)" "ready d2"
    and tm: "\<exists>b \<in> set data_blocks. free_block (img d2) b \<or> cp_time (block_head (img d2) b) > 0"
  shows "\<exists>inst d' b. mxfs_create_instance cfg pf drv malloc_ok None sys =
      Inr (OK, Some inst, \<lparr>singleton = 1, singleton_locked = False, device = d'\<rparr>) \<and> ready d' \<and> same_flash (img d') (img d2) \<and>
    chosen_block (img d2) b \<and> starts_at cfg inst b \<and> (marked inst b \<longleftrightarrow> \<not> free_block (img d2) b)"
proof -
  let ?i = "find_current pf (mounted pf (img d2) (fresh_inst cfg pf))"
  obtain d' where d': "create_setup cfg pf drv malloc_ok None (device sys) = Inr (?i, d')" "ready d'"
    "same_flash (img d') (img d2)"
    using create_setup_ok [of malloc_ok "device sys" d1 d2 cfg pf, OF mal drv] by blast
  obtain b where b: "chosen_block (img d2) b" and cur: "mxfs_current_block ?i = of_nat b" "mxfs_current_page ?i = 0"
    using mount_chooses [OF pf tm] by blast
  have in_b: "b \<in> set data_blocks" using b by (simp add: chosen_block_def)
  have "marked ?i b \<longleftrightarrow> \<not> free_block (img d2) b"
    using in_b by (simp add: marked_def pf(2) mounted_flash(1) [OF pf(1)] head_flags_def free_block_def)
  moreover have "starts_at cfg ?i b"
    by (rule starts_atI [where pf = pf, OF cfg _ _ cur]) (use in_b in \<open>simp_all add: pf(2) mounted_flash(2-4) [OF pf(1)]\<close>)
  moreover have "mxfs_create_instance cfg pf drv malloc_ok None sys =
      Inr (OK, Some ?i, \<lparr>singleton = 1, singleton_locked = False, device = d'\<rparr>)"
    using d' mal sys by (auto simp: mxfs_create_instance_def Let_def intro!: mxfs_sys.equality)
  ultimately show ?thesis using d'(2,3) b by blast
qed

lemma create_starts_log:
  assumes cfg: "good_build cfg" and pf: "mount_good pf = mount_good_flash" "find_current pf = find_flash data_blocks 0"
    and mal: "\<And>n. malloc_ok n" and sys: "singleton sys = 0" "\<not> singleton_locked sys"
    and drv: "drv_create_gpio drv (device sys) = Inr (OK, d1)" "drv_create_spi drv d1 = Inr (OK, d2)" "ready d2"
    and free: "\<And>b. b \<in> set data_blocks \<Longrightarrow> free_block (img d2) b \<Longrightarrow> (\<forall>q<PAGE_COUNT. img d2 b q = blank_page)"
    and tm: "\<exists>b \<in> set data_blocks. free_block (img d2) b \<or> cp_time (block_head (img d2) b) > 0"
  shows "\<exists>inst d' b. mxfs_create_instance cfg pf drv malloc_ok None sys =
      Inr (OK, Some inst, \<lparr>singleton = 1, singleton_locked = False, device = d'\<rparr>) \<and> ready d' \<and> same_flash (img d') (img d2) \<and>
    chosen_block (img d2) b \<and> log_rel cfg (img d') b inst empty_log"
proof -
  have "\<exists>inst d' b. mxfs_create_instance cfg pf drv malloc_ok None sys =
      Inr (OK, Some inst, \<lparr>singleton = 1, singleton_locked = False, device = d'\<rparr>) \<and> ready d' \<and> same_flash (img d') (img d2) \<and>
    chosen_block (img d2) b \<and> starts_at cfg inst b \<and> (marked inst b \<longleftrightarrow> \<not> free_block (img d2) b)"
    by (rule create_chooses [OF cfg pf mal sys drv tm])
  then obtain inst d' b where c: "mxfs_create_instance cfg pf drv malloc_ok None sys =
      Inr (OK, Some inst, \<lparr>singleton = 1, singleton_locked = False, device = d'\<rparr>)" "ready d'" "same_flash (img d') (img d2)"
    "chosen_block (img d2) b" "starts_at cfg inst b" "marked inst b \<longleftrightarrow> \<not> free_block (img d2) b" by blast
  have b: "b \<in> set data_blocks" using c(4) by (simp add: chosen_block_def)
  then have "marked inst b \<or> (\<forall>q<PAGE_COUNT. img d' b q = blank_page)"
    using c(6) free [OF b] same_flashD [OF c(3)] by auto
  from log_rel_start [where f = "img d'", OF c(5) this] show ?thesis using c(1-4) by blast
qed

text \<open>Creation, a run of valid operations, and what can be read back afterwards.\<close>

lemma created_run:
  assumes cfg: "good_build cfg" and pf: "mount_good pf = mount_good_flash" "find_current pf = find_flash data_blocks 0"
    and mal: "\<And>n. malloc_ok n" and sys: "singleton sys = 0" "\<not> singleton_locked sys"
    and drv: "drv_create_gpio drv (device sys) = Inr (OK, d1)" "drv_create_spi drv d1 = Inr (OK, d2)" "ready d2"
    and free: "\<And>b. b \<in> set data_blocks \<Longrightarrow> free_block (img d2) b \<Longrightarrow> (\<forall>q<PAGE_COUNT. img d2 b q = blank_page)"
    and tm: "\<exists>b \<in> set data_blocks. free_block (img d2) b \<or> cp_time (block_head (img d2) b) > 0"
    and ops: "list_all (op_ok cfg) ops"
  shows "\<exists>inst d inst' d' L b.
    mxfs_create_instance cfg pf drv malloc_ok None sys = Inr (OK, Some inst, \<lparr>singleton = 1, singleton_locked = False, device = d\<rparr>) \<and>
    chosen_block (img d2) b \<and>
    foldR (run_op cfg drv) ops ([], inst, d) = Inr (replicate (length ops) OK, inst', d') \<and>
    (\<forall>l<LAYER_MAX. log_samples L l = concat (map (op_samples l) ops)) \<and>
    (\<forall>l<LAYER_MAX. pending_of inst' l = log_pending L l) \<and>
    (\<forall>i layer tr n buf page0. log_kept L i \<longrightarrow> unat layer < LAYER_MAX \<longrightarrow>
      (unat (tr_block tr), unat (tr_page tr)) = log_pos b i \<longrightarrow> n \<noteq> 0 \<longrightarrow> length page0 = PAGE_SIZE \<longrightarrow>
      length (bodies ((log_pages L ! i) (unat layer))) \<le> length buf \<longrightarrow>
      (\<exists>d''. mxfs_read drv d' layer (Some buf) n tr (Some page0) =
        Inr (int (length (bodies ((log_pages L ! i) (unat layer)))),
          Some (bodies ((log_pages L ! i) (unat layer)) @
            drop (length (bodies ((log_pages L ! i) (unat layer)))) buf), d'')))"
proof -
  let ?L = "fold log_op ops empty_log"
  have "\<exists>inst d b. mxfs_create_instance cfg pf drv malloc_ok None sys =
      Inr (OK, Some inst, \<lparr>singleton = 1, singleton_locked = False, device = d\<rparr>) \<and> ready d \<and> same_flash (img d) (img d2) \<and>
    chosen_block (img d2) b \<and> log_rel cfg (img d) b inst empty_log"
    by (rule create_starts_log [OF cfg pf mal sys drv free tm])
  then obtain inst d b where c: "mxfs_create_instance cfg pf drv malloc_ok None sys =
      Inr (OK, Some inst, \<lparr>singleton = 1, singleton_locked = False, device = d\<rparr>)" "ready d" "chosen_block (img d2) b"
      "log_rel cfg (img d) b inst empty_log"
    by blast
  obtain inst' d' where r: "foldR (run_op cfg drv) ops ([], inst, d) = Inr (replicate (length ops) OK, inst', d')" "ready d'"
      "log_rel cfg (img d') b inst' ?L"
    using ops_refine [OF cfg ops c(2,4), of "[]"] by auto
  have "log_samples ?L l = concat (map (op_samples l) ops)" if "l < LAYER_MAX" for l
    using log_samples_ops [OF that, of ops empty_log] by (simp add: log_samples_def empty_log_def)
  moreover have "\<forall>l<LAYER_MAX. pending_of inst' l = log_pending ?L l" using r(3) by (simp add: log_rel_def)
  ultimately show ?thesis
    using c(1,3) r(1) read_refines [OF r(2,3)]
    by (intro exI [of _ inst] exI [of _ d] exI [of _ inst'] exI [of _ d'] exI [of _ ?L] exI [of _ b]) blast
qed

end

section \<open>The singleton\<close>

lemma create_twice:
  assumes "has_mutex pf" and "singleton sys \<noteq> 0" and "\<not> singleton_locked sys"
  shows "\<exists>sys'. mxfs_create_instance cfg pf drv malloc_ok callback sys = Inr (ERR, None, sys') \<and>
    singleton sys' = singleton sys \<and> device sys' = device sys \<and> singleton_locked sys' \<and>
    (\<forall>m cb. mxfs_create_instance cfg pf drv m cb sys' = Inl Spins) \<and>
    (\<forall>i. mxfs_release_instance pf drv (Some i) sys' = Inl Spins)"
  using assms by (simp add: mxfs_create_instance_def mxfs_release_instance_def)

lemma create_release_create:
  assumes ok: "mxfs_create_instance cfg pf drv malloc_ok cb sys = Inr (OK, Some inst, sys')"
    and rel: "mxfs_release_instance pf drv (Some inst) sys' = Inr (OK, None, sys'')"
  shows "singleton sys'' = singleton sys" and "\<not> singleton_locked sys''"
    and "mxfs_create_instance cfg pf drv m cb' sys'' \<noteq> Inl Spins \<or>
      (\<exists>d. create_setup cfg pf drv m cb' d = Inl Spins)"
proof -
  have "singleton sys = 0" "singleton sys' = 1"
    using ok by (auto simp: mxfs_create_instance_def Let_def bindR_eq_Inr split: if_splits)
  then show s: "singleton sys'' = singleton sys" and l: "\<not> singleton_locked sys''"
    using rel by (auto simp: mxfs_release_instance_def Let_def bindR_eq_Inr split: if_splits)
  show "mxfs_create_instance cfg pf drv m cb' sys'' \<noteq> Inl Spins \<or> (\<exists>d. create_setup cfg pf drv m cb' d = Inl Spins)"
    using l by (auto simp: mxfs_create_instance_def Let_def bindR_eq_Inl)
qed

section \<open>The fake device after creation\<close>

lemma fake_created:
  "\<exists>mem. fake_create_spi True d = Inr (OK, Some mem) \<and> fake_ready (Some mem) \<and> (\<forall>b p. mem b p = blank_page)"
  by (simp add: fake_create_spi_def fake_ready_def blank_page_def)

lemma blank_head: "cp_magic (compress_of (take 16 blank_page)) \<noteq> MAGIC"
proof -
  have "take 4 (take 16 blank_page) = replicate 4 0xFF" by (simp add: blank_page_def)
  then show ?thesis by (simp add: compress_of_def)
qed

lemma fake_create_starts_log:
  assumes "good_build cfg" and "mount_good pf = mount_good_flash" "find_current pf = find_flash data_blocks 0"
    and "singleton sys = 0" "\<not> singleton_locked sys"
  shows "\<exists>inst d'. mxfs_create_instance cfg pf (fake_driver True) (\<lambda>n. True) None sys =
      Inr (OK, Some inst, \<lparr>singleton = 1, singleton_locked = False, device = d'\<rparr>) \<and> fake_ready d' \<and>
      log_rel cfg (fake_img d') 1 inst empty_log"
proof -
  obtain mem where mem: "fake_create_spi True (device sys) = Inr (OK, Some mem)" "fake_ready (Some mem)"
    "\<And>b p. mem b p = blank_page" using fake_created by blast
  have img: "fake_img (Some mem) b p = blank_page" for b p by (simp add: fake_img_def mem)
  have free: "free_block (fake_img (Some mem)) b" for b
    using blank_head by (simp add: free_block_def block_head_def img)
  have c: "drv_create_gpio (fake_driver True) (device sys) = Inr (OK, device sys)"
    "drv_create_spi (fake_driver True) (device sys) = Inr (OK, Some mem)"
    using mem by (simp_all add: fake_driver_def fake_gpio_def)
  have one: "(1::nat) \<in> set data_blocks" by simp
  have "\<exists>inst d' b. mxfs_create_instance cfg pf (fake_driver True) (\<lambda>n. True) None sys =
      Inr (OK, Some inst, \<lparr>singleton = 1, singleton_locked = False, device = d'\<rparr>) \<and> fake_ready d' \<and>
    same_flash (fake_img d') (fake_img (Some mem)) \<and> chosen_block (fake_img (Some mem)) b \<and> log_rel cfg (fake_img d') b inst empty_log"
  proof (rule fake.create_starts_log [OF assms(1-3) _ assms(4,5) c mem(2)])
    show "\<exists>b \<in> set data_blocks. free_block (fake_img (Some mem)) b \<or> cp_time (block_head (fake_img (Some mem)) b) > 0"
      using one free by blast
  qed (simp_all add: img)
  then obtain inst d' b where r: "mxfs_create_instance cfg pf (fake_driver True) (\<lambda>n. True) None sys =
      Inr (OK, Some inst, \<lparr>singleton = 1, singleton_locked = False, device = d'\<rparr>)" "fake_ready d'"
    "chosen_block (fake_img (Some mem)) b" "log_rel cfg (fake_img d') b inst empty_log"
    by (elim exE conjE) (rule that)
  have "b = 1"
  proof (rule ccontr)
    assume "b \<noteq> 1"
    moreover have "b \<in> set data_blocks" using r(3) by (simp add: chosen_block_def)
    ultimately have "1 < b" by simp
    then show False using r(3) free one unfolding chosen_block_def by metis
  qed
  then show ?thesis using r by blast
qed

section \<open>The Linux mount\<close>

lemma mount_linux_current:
  assumes "foldR (mount_block platform_linux drv None) bs (inst, d) = Inr (inst', d')"
  shows "mxfs_current_block inst' = mxfs_current_block inst \<and> mxfs_current_page inst' = mxfs_current_page inst"
  using assms
proof (induction bs arbitrary: inst d)
  case Nil
  then show ?case by simp
next
  case (Cons b bs)
  then obtain i1 d1 where "mount_block platform_linux drv None b (inst, d) = Inr (i1, d1)"
    and "foldR (mount_block platform_linux drv None) bs (i1, d1) = Inr (inst', d')"
    by (auto simp: bindR_eq_Inr)
  moreover from this(1) have "mxfs_current_block i1 = mxfs_current_block inst \<and> mxfs_current_page i1 = mxfs_current_page inst"
    by (auto simp: mount_block_def bindR_eq_Inr platform_linux_def mount_bad_linux_def mount_good_linux_def set_block_def
        Let_def split: if_splits)
  ultimately show ?case using Cons.IH by metis
qed

lemma linux_mount_first_block:
  assumes "create_setup cfg platform_linux drv malloc_ok None d = Inr (inst, d')"
  shows "mxfs_current_block inst = 1 \<and> mxfs_current_page inst = 0"
proof -
  obtain d2 i where "foldR (mount_block platform_linux drv None) data_blocks (fresh_inst cfg platform_linux, d2) = Inr (i, d')"
    and "inst = find_linux data_blocks 0 i"
    using assms by (auto simp: create_setup_def bindR_eq_Inr platform_linux_def split: if_splits)
  then show ?thesis using mount_linux_current by (fastforce simp: find_linux_none fresh_inst_def)
qed

end
