(* ===== verification/Rp2040_Flash.thy ===== *)
theory Rp2040_Flash
  imports Nand_Chip Driver_Rp2040 Mxfs_Instance
begin

text \<open>
  The RP2040 driver over the chip is a flash device in the sense of \<open>flash_driver\<close>: the file system's theorems hold
  for it. The device state is the history of the bus; the image is the array of the chip.
\<close>

locale rp_nand = nand_chip +
  assumes live: "live (sleeping 1000) (rp_status chip)"

definition rp_ready :: "bus \<Rightarrow> bool" where
  "rp_ready h \<longleftrightarrow> bus_ok h \<and> unprotected h"

text \<open>The set-up events of the creation.\<close>

fun set_up_event :: "bus_event \<Rightarrow> bool" where
  "set_up_event (Cs high) \<longleftrightarrow> high"
| "set_up_event (Tx bs) \<longleftrightarrow> False"
| "set_up_event (Rx bs) \<longleftrightarrow> False"
| "set_up_event e \<longleftrightarrow> True"

lemma set_up_ok:
  assumes "bus_ok h" and "list_all set_up_event es"
  shows "bus_ok (h @ es)"
proof -
  have "framed False es" using assms(2) by (induction es) (auto elim: set_up_event.elims)
  moreover have "guarded g es" for g using assms(2) by (induction es arbitrary: g) (auto elim: set_up_event.elims)
  ultimately show ?thesis by (rule bus_ok_append [OF assms(1)])
qed

lemma set_up_quiet: "list_all set_up_event es \<Longrightarrow> list_all quiet es"
  by (induction es) (auto elim: set_up_event.elims)

lemma set_up_commands: "list_all set_up_event es \<Longrightarrow> commands es = []"
  by (induction es) (auto elim: set_up_event.elims)

sublocale rp_nand \<subseteq> polled: polled_chip chip arr cache "rp_status chip" 1000
  by (intro polled_chip.intro polled_chip_axioms.intro nand_chip_axioms rp.status_reader_axioms live)

context rp_nand
begin

section \<open>Waits\<close>

lemma idle:
  assumes "bus_ok h"
  shows "\<exists>st' h'. rp_wait not_busy chip (st, h) = Inr (st', h') \<and> bus_ok h' \<and> idle_after h' \<and> same_chip h h'"
  using polled.idle_poll [OF assms, of st] by (auto simp: rp_wait_def of_option_def)

lemma enable_wait:
  assumes "bus_ok h" and "idle_after h"
  shows "\<exists>st' h'. rp_wait write_enabled chip (st, instr [WRITE_ENABLE] h) = Inr (st', h') \<and> bus_ok h' \<and> idle_after h' \<and>
    same_chip (instr [WRITE_ENABLE] h) h' \<and> armed_after h' \<and> guard_after h' = (False, Some st') \<and> write_enabled st'"
  using polled.enable_poll [OF assms, of st] by (auto simp: rp_wait_def of_option_def)

section \<open>The three operations\<close>

lemma rp_erase_flash:
  assumes ready: "rp_ready h" and b: "unat block < BLOCK_COUNT"
  shows "\<exists>h'. rp_erase chip h block = Inr (OK, h') \<and> rp_ready h' \<and>
    same_flash (arr h') ((arr h)(unat block := (\<lambda>p. blank_page)))"
proof -
  have ok: "bus_ok h" using ready by (simp add: rp_ready_def)
  let ?un = "[WRITE_STATUS_REGISTER_L, STATUS_REGISTER_1_ADDR, 0] :: byte list" and ?we = "[WRITE_ENABLE] :: byte list"
  obtain s1 h1 where 1: "rp_wait not_busy chip (0xFF, h) = Inr (s1, h1)" "bus_ok h1" "idle_after h1" "same_chip h h1"
    using idle [OF ok] by blast
  note i1 = quiet_instr [OF 1(2), of ?we, simplified]
  obtain s2 h2 where 2: "rp_wait write_enabled chip (s1, instr ?we h1) = Inr (s2, h2)" "bus_ok h2" "same_chip (instr ?we h1) h2"
    using enable_wait [OF 1(2,3)] by blast
  note i2 = quiet_instr [OF 2(2), of ?un, simplified]
  obtain s3 h3 where 3: "rp_wait not_busy chip (s2, instr ?un h2) = Inr (s3, h3)" "bus_ok h3" "idle_after h3" "same_chip (instr ?un h2) h3"
    using idle [OF i2(1)] by blast
  note i3 = quiet_instr [OF 3(2), of ?we, simplified]
  obtain s4 h4 where 4: "rp_wait write_enabled chip (s3, instr ?we h3) = Inr (s4, h4)" "bus_ok h4" "same_chip (instr ?we h3) h4"
      "armed_after h4" "guard_after h4 = (False, Some s4)" "write_enabled s4"
    using enable_wait [OF 3(2,3)] by blast
  let ?er = "BLOCK_ERASE # row_bytes block 0"
  have ok5: "bus_ok (instr ?er h4)" using instr_ok [OF 4(2), of ?er] 4(5,6) by auto
  obtain s5 h5 where 5: "rp_wait not_busy chip (s4, instr ?er h4) = Inr (s5, h5)" "bus_ok h5" "same_chip (instr ?er h4) h5"
    using idle [OF ok5] by blast
  have run: "rp_erase chip h block = Inr (OK, h5)" by (simp add: rp_erase_def 1(1) 2(1) 3(1) 4(1) 5(1))
  have u3: "unprotected h3" using same_chipD(4) [OF 3(4)] unprotect_instr by (simp add: unprotected_def)
  then have u4: "unprotected h4" using same_chipD(4) [OF 4(3)] enable_unprotected by simp
  have "last_written STATUS_REGISTER_1_ADDR (instr ?er h4) = Some 0"
    using u4 by (simp add: unprotected_def register_write_def row_bytes_def)
  then have u5: "unprotected h5" using same_chipD(4) [OF 5(3)] by (simp add: unprotected_def)
  have "same_flash (arr h4) (arr h)"
    using same_chipD(1) [OF 1(4)] i1(2) same_chipD(1) [OF 2(3)] i2(2) same_chipD(1) [OF 3(4)] i3(2) same_chipD(1) [OF 4(3)]
    by (simp add: same_flash_def)
  moreover have "same_flash (arr (instr ?er h4)) ((arr h4)(unat block := (\<lambda>p. blank_page)))"
    by (rule erase [OF 4(4,5,6) u4 b])
  ultimately have "same_flash (arr h5) ((arr h)(unat block := (\<lambda>p. blank_page)))"
    using same_chipD(1) [OF 5(3)] by (simp add: same_flash_def)
  then show ?thesis using run 5(2) u5 by (auto simp: rp_ready_def)
qed

lemma rp_load_programmed:
  "length data \<le> PAGE_SIZE \<Longrightarrow> rp_load data = [RANDOM_PG_DATA_LOAD, 0, 0] @ programmed data 0"
  by (simp add: rp_load_def programmed_def min_def)

text \<open>Whatever the page held: a write reports no error, and clears bits.\<close>

lemma rp_write_overlays:
  assumes ready: "rp_ready h" and v: "valid_pos (unat block) (unat page)" and n: "unat n \<le> PAGE_SIZE" "unat n \<le> length data"
  shows "\<exists>h'. rp_write chip h block page data n = Inr (OK, h') \<and> rp_ready h' \<and>
    same_flash (arr h') (replace_page (arr h) (unat block) (unat page)
      (overlay (arr h (unat block) (unat page)) (programmed (take (unat n) data) 0)))"
proof -
  have ok: "bus_ok h" using ready by (simp add: rp_ready_def)
  let ?un = "[WRITE_STATUS_REGISTER_L, STATUS_REGISTER_1_ADDR, 0] :: byte list" and ?we = "[WRITE_ENABLE] :: byte list"
  let ?P = "programmed (take (unat n) data) 0"
  let ?ld = "[RANDOM_PG_DATA_LOAD, 0, 0] @ ?P"
  let ?ex = "PG_EXECUTE # row_bytes block page"
  have lenP: "length ?P = PAGE_SIZE" using n by simp
  have load_eq: "rp_load (take (unat n) data) = ?ld" using n by (intro rp_load_programmed) simp
  obtain s1 h1 where 1: "rp_wait not_busy chip (0xFF, h) = Inr (s1, h1)" "bus_ok h1" "same_chip h h1"
    using idle [OF ok] by blast
  note i1 = quiet_instr [OF 1(2), of ?un, simplified]
  obtain s2 h2 where 2: "rp_wait not_busy chip (s1, instr ?un h1) = Inr (s2, h2)" "bus_ok h2" "idle_after h2" "same_chip (instr ?un h1) h2"
    using idle [OF i1(1)] by blast
  note i2 = quiet_instr [OF 2(2), of ?we, simplified]
  obtain s3 h3 where 3: "rp_wait write_enabled chip (s2, instr ?we h2) = Inr (s3, h3)" "bus_ok h3" "idle_after h3" "same_chip (instr ?we h2) h3"
    using enable_wait [OF 2(2,3)] by blast
  have ok3: "bus_ok (instr ?ld h3)" using instr_ok [OF 3(2), of ?ld] by simp
  obtain s4 h4 where 4: "rp_wait not_busy chip (s3, instr ?ld h3) = Inr (s4, h4)" "bus_ok h4" "idle_after h4" "same_chip (instr ?ld h3) h4"
    using idle [OF ok3] by blast
  note i4 = quiet_instr [OF 4(2), of ?we, simplified]
  obtain s5 h5 where 5: "rp_wait write_enabled chip (s4, instr ?we h4) = Inr (s5, h5)" "bus_ok h5" "same_chip (instr ?we h4) h5"
      "armed_after h5" "guard_after h5 = (False, Some s5)" "write_enabled s5"
    using enable_wait [OF 4(2,3)] by blast
  have ok5: "bus_ok (instr ?ex h5)" using instr_ok [OF 5(2), of ?ex] 5(5,6) by auto
  obtain s6 h6 where 6: "rp_wait not_busy chip (s5, instr ?ex h5) = Inr (s6, h6)" "bus_ok h6" "same_chip (instr ?ex h5) h6"
    using idle [OF ok5] by blast
  have m: "mem_read data 0 (unat n) = Inr (take (unat n) data)" using n by (simp add: mem_read_def)
  have run: "rp_write chip h block page data n = Inr (OK, h6)"
    using n load_eq 4(1) by (simp add: rp_write_def m 1(1) 2(1) 3(1) 5(1) 6(1))
  have u2: "last_written STATUS_REGISTER_1_ADDR h2 = Some 0" using same_chipD(3) [OF 2(4)] unprotect_instr by simp
  then have u3: "last_written STATUS_REGISTER_1_ADDR h3 = Some 0" using same_chipD(3) [OF 3(4)] i2(4) by (simp add: register_write_def)
  have "last_written STATUS_REGISTER_1_ADDR (instr ?ld h3) = Some 0" using u3 lenP by (simp add: register_write_def)
  then have u4: "last_written STATUS_REGISTER_1_ADDR h4 = Some 0" using same_chipD(3) [OF 4(4)] by simp
  then have u5: "unprotected h5" using same_chipD(3) [OF 5(3)] i4(4) by (simp add: unprotected_def register_write_def)
  have "last_written STATUS_REGISTER_1_ADDR (instr ?ex h5) = Some 0"
    using u5 by (simp add: unprotected_def register_write_def row_bytes_def)
  then have u6: "unprotected h6" using same_chipD(4) [OF 6(3)] by (simp add: unprotected_def)
  have kld: "same_flash (arr (instr ?ld h3)) (arr h3)"
    unfolding instr_def by (rule arr_kept) simp
  have a5: "same_flash (arr h5) (arr h)"
    using same_chipD(1) [OF 1(3)] i1(2) same_chipD(1) [OF 2(4)] i2(2) same_chipD(1) [OF 3(4)] kld same_chipD(1) [OF 4(4)] i4(2)
      same_chipD(1) [OF 5(3)]
    by (simp add: same_flash_def)
  have "cache h5 = ?P @ drop PAGE_SIZE (cache h3)"
    using same_chipD(2) [OF 5(3)] i4(3) same_chipD(2) [OF 4(4)] load [OF 3(3), of ?P] lenP by simp
  then have c5: "take PAGE_SIZE (cache h5) = ?P" using lenP by simp
  have old: "arr h5 (unat block) (unat page) = arr h (unat block) (unat page)" by (rule same_flashD [OF a5 v])
  let ?Q = "overlay (arr h (unat block) (unat page)) ?P"
  from program [OF 5(4,5,6) u5 v]
  have "same_flash (arr (instr ?ex h5)) (replace_page (arr h) (unat block) (unat page) ?Q)"
    unfolding c5 old by (rule same_flash_trans) (rule replace_same_flash [OF a5])
  then have "same_flash (arr h6) (replace_page (arr h) (unat block) (unat page) ?Q)"
    by (rule same_flash_trans [OF same_chipD(1) [OF 6(3)]])
  then show ?thesis using run 6(2) u6 by (auto simp: rp_ready_def)
qed

lemma rp_write_flash:
  assumes "rp_ready h" and "valid_pos (unat block) (unat page)" and n: "unat n \<le> PAGE_SIZE" "unat n \<le> length data"
    and blank: "arr h (unat block) (unat page) = blank_page"
  shows "\<exists>h'. rp_write chip h block page data n = Inr (OK, h') \<and> rp_ready h' \<and>
    same_flash (arr h') (replace_page (arr h) (unat block) (unat page) (programmed (take (unat n) data) 0))"
  using rp_write_overlays [OF assms(1-4)] n by (simp add: blank overlay_blank)

lemma rp_read_flash:
  assumes ready: "rp_ready h" and v: "valid_pos (unat block) (unat page)" and n: "unat n \<le> 2112" "unat n \<le> length buf"
  shows "\<exists>h' ext. rp_read chip h block page buf n =
      Inr (OK, take (unat n) (arr h (unat block) (unat page) @ ext) @ drop (unat n) buf, h') \<and> length ext = 64 \<and>
    rp_ready h' \<and> same_flash (arr h') (arr h)"
proof -
  have ok: "bus_ok h" and u: "unprotected h" using ready by (simp_all add: rp_ready_def)
  let ?pg = "PG_DATA_READ # row_bytes block page"
  let ?rd = "[READ_DATA, 0, 0, 0] :: byte list" and ?r1 = "[READ_STATUS_REGISTER_L, STATUS_REGISTER_1_ADDR] :: byte list"
  obtain s1 h1 where 1: "rp_wait not_busy chip (0xFF, h) = Inr (s1, h1)" "bus_ok h1" "same_chip h h1"
    using idle [OF ok] by blast
  define k1 where "k1 = h1 @ [Cs False, Tx ?r1, Rx [0], Cs True]"
  have "rx_byte chip (h1 @ [Cs False, Tx ?r1]) 0 = 0" using protection same_chipD(4) [OF 1(3)] u by blast
  then have q: "rp_query chip ?r1 1 h1 = ([0], k1)" by (simp add: rp_query_def rx_bytes_def k1_def Let_def)
  have k1: "bus_ok k1" "same_chip h1 k1"
    unfolding k1_def using query_ok [OF 1(2), of ?r1 "[0]"] query_same_chip by (simp_all add: changes_array_def)
  obtain s2 h2 where 2: "rp_wait not_busy chip (s1, k1) = Inr (s2, h2)" "bus_ok h2" "same_chip k1 h2"
    using idle [OF k1(1)] by blast
  let ?rm = "[WRITE_STATUS_REGISTER_L, STATUS_REGISTER_2_ADDR, read_mode 0]"
  note i2 = quiet_instr [OF 2(2), of ?rm, simplified]
  obtain s3 h3 where 3: "rp_wait not_busy chip (s2, instr ?rm h2) = Inr (s3, h3)" "bus_ok h3" "idle_after h3" "same_chip (instr ?rm h2) h3"
    using idle [OF i2(1)] by blast
  have ok3: "bus_ok (instr ?pg h3)" using instr_ok [OF 3(2), of ?pg] by simp
  obtain s4 h4 where 4: "rp_wait not_busy chip (s3, instr ?pg h3) = Inr (s4, h4)" "bus_ok h4" "idle_after h4" "same_chip (instr ?pg h3) h4"
    using idle [OF ok3] by blast
  have "buffer_mode (instr ?rm h2)"
    by (simp add: buffer_mode_def register_write_def read_mode_def)
  then have m3: "buffer_mode h3" using same_chipD(5) [OF 3(4)] by simp
  have "buffer_mode (instr ?pg h3)"
    using m3 by (simp add: buffer_mode_def register_write_def row_bytes_def)
  then have m4: "buffer_mode h4" using same_chipD(5) [OF 4(4)] by simp
  have c4: "take PAGE_SIZE (cache h4) = arr h3 (unat block) (unat page)"
    using same_chipD(2) [OF 4(4)] page_read [OF 3(3) m3 v] by simp
  have a3: "same_flash (arr h3) (arr h)"
    using same_chipD(1) [OF 1(3)] same_chipD(1) [OF k1(2)] same_chipD(1) [OF 2(3)] i2(2) same_chipD(1) [OF 3(4)]
    by (simp add: same_flash_def)
  define bs where "bs = take (unat n) (cache h4)"
  have "rx_bytes chip (h4 @ [Cs False, Tx ?rd]) (unat n) = bs"
    unfolding bs_def rx_bytes_def using n cache_length [of h4]
    by (intro nth_equalityI) (simp_all add: read_data [OF 4(3) m4])
  then have q4: "rp_query chip ?rd (unat n) h4 = (bs, h4 @ [Cs False, Tx ?rd, Rx bs, Cs True])"
    by (simp add: rp_query_def Let_def)
  define h5 where "h5 = h4 @ [Cs False, Tx ?rd, Rx bs, Cs True]"
  have len: "length bs = unat n" using n cache_length [of h4] by (simp add: bs_def)
  have w: "mem_write buf 0 bs = Inr (bs @ drop (unat n) buf)" using n len by (simp add: mem_write_def)
  have run: "rp_read chip h block page buf n = Inr (OK, bs @ drop (unat n) buf, h5)"
    using q by (simp add: rp_read_def rp_protected_eq 1(1) 2(1) 3(1) 4(1) q4 w h5_def)
  have ok5: "bus_ok h5" using query_ok [OF 4(2), of ?rd bs] by (simp add: h5_def)
  have kpg: "same_flash (arr (instr ?pg h3)) (arr h3)" unfolding instr_def by (rule arr_kept) simp
  have "same_flash (arr h5) (arr h4)" unfolding h5_def by (rule arr_kept) simp
  then have a5: "same_flash (arr h5) (arr h)" using a3 kpg same_chipD(1) [OF 4(4)] by (simp add: same_flash_def)
  have "last_written STATUS_REGISTER_1_ADDR h5 = last_written STATUS_REGISTER_1_ADDR h"
    using same_chipD(3) [OF 1(3)] same_chipD(3) [OF k1(2)] same_chipD(3) [OF 2(3)] i2(4) same_chipD(3) [OF 3(4)] same_chipD(3) [OF 4(4)]
    by (simp add: h5_def register_write_def row_bytes_def)
  then have "rp_ready h5" using u ok5 by (simp add: rp_ready_def unprotected_def)
  moreover have "bs = take (unat n) (arr h (unat block) (unat page) @ drop PAGE_SIZE (cache h4))"
    unfolding bs_def by (rule arg_cong [where f = "take (unat n)"])
      (metis append_take_drop_id c4 same_flashD [OF a3 v])
  ultimately show ?thesis using run a5 cache_length [of h4]
    by (intro exI [of _ h5] exI [of _ "drop PAGE_SIZE (cache h4)"]) simp
qed

lemma rp_is_flash: "flash_driver_spare (rp_driver chip) arr rp_ready"
proof
  show "valid_pos blk pg \<Longrightarrow> length (arr d blk pg) = PAGE_SIZE" for d blk pg by (rule arr_length)
next
  fix d :: bus and b p n :: u16 and buf :: "byte list"
  assume d: "rp_ready d" and v: "valid_pos (unat b) (unat p)" and n: "unat n \<le> PAGE_SIZE" "unat n \<le> length buf"
  then obtain d' ext where "rp_read chip d b p buf n = Inr (OK, take (unat n) (arr d (unat b) (unat p) @ ext) @ drop (unat n) buf, d')"
      "rp_ready d'" "same_flash (arr d') (arr d)"
    using rp_read_flash [OF d v _ n(2)] by auto
  then show "\<exists>d'. drv_read (rp_driver chip) d b p buf n = Inr (OK, take (unat n) (arr d (unat b) (unat p)) @ drop (unat n) buf, d') \<and>
      rp_ready d' \<and> same_flash (arr d') (arr d)"
    using n(1) arr_length [OF v] by (auto simp: rp_driver_def)
next
  fix d :: bus and b p n :: u16 and data :: "byte list"
  assume "rp_ready d" and "valid_pos (unat b) (unat p)" and "unat n \<le> PAGE_SIZE" and "unat n \<le> length data"
    and "arr d (unat b) (unat p) = blank_page"
  then obtain d' where "rp_write chip d b p data n = Inr (OK, d')" "rp_ready d'"
      "same_flash (arr d') (replace_page (arr d) (unat b) (unat p) (programmed (take (unat n) data) 0))"
    using rp_write_flash by blast
  then show "\<exists>d' fill. drv_write (rp_driver chip) d b p data n = Inr (OK, d') \<and> rp_ready d' \<and> idle_byte fill \<and>
      same_flash (arr d') ((arr d)(unat b := (arr d (unat b))(unat p := programmed (take (unat n) data) fill)))"
    by (intro exI [of _ d'] exI [of _ 0]) (simp add: rp_driver_def idle_byte_def replace_page_def)
next
  fix d :: bus and b :: u16
  assume "rp_ready d" and "unat b < BLOCK_COUNT"
  then show "\<exists>d'. drv_erase (rp_driver chip) d b = Inr (OK, d') \<and> rp_ready d' \<and>
      same_flash (arr d') ((arr d)(unat b := (\<lambda>p. blank_page)))"
    using rp_erase_flash by (simp add: rp_driver_def)
next
  fix d :: bus and b p :: u16 and buf :: "byte list"
  assume d: "rp_ready d" and v: "valid_pos (unat b) (unat p)" and n: "length buf = 2112"
  obtain d' ext where "rp_read chip d b p buf 2112 = Inr (OK, take 2112 (arr d (unat b) (unat p) @ ext) @ drop 2112 buf, d')"
      "length ext = 64" "rp_ready d'" "same_flash (arr d') (arr d)"
    using rp_read_flash [OF d v, of 2112 buf] n by auto
  then show "\<exists>d' ext. drv_read (rp_driver chip) d b p buf 2112 = Inr (OK, arr d (unat b) (unat p) @ ext, d') \<and> length ext = 64 \<and>
      rp_ready d' \<and> same_flash (arr d') (arr d)"
    using n arr_length [OF v] by (intro exI [of _ d'] exI [of _ ext]) (simp add: rp_driver_def)
qed

section \<open>Creation\<close>

lemma set_up_same_chip: "list_all set_up_event es \<Longrightarrow> same_chip h (h @ es)"
  by (intro events_same_chip set_up_commands set_up_quiet)

lemma rp_create_ready:
  assumes ok: "bus_ok h"
  shows "\<exists>d1 d2. rp_create_gpio h = Inr (OK, d1) \<and> rp_create_spi chip d1 = Inr (OK, d2) \<and> rp_ready d2 \<and> same_flash (arr d2) (arr h)"
proof -
  let ?un = "[WRITE_STATUS_REGISTER_L, STATUS_REGISTER_1_ADDR, 0] :: byte list" and ?we = "[WRITE_ENABLE] :: byte list"
  let ?rs = "[DEVICE_RESET] :: byte list" and ?id = "[JEDEC_ID, 0] :: byte list"
  define e1 where "e1 = [Hw ''gpio_init'' [17], Hw ''gpio_set_dir'' [17, 1], Cs True,
       Hw ''gpio_init'' [14], Hw ''gpio_set_dir'' [14, 1], Hw ''gpio_put'' [14, 0],
       Hw ''gpio_init'' [15], Hw ''gpio_set_dir'' [15, 1], Hw ''gpio_put'' [15, 1]] @
       concat (replicate 5 [Hw ''led'' [1], Delay (100 * 1000), Hw ''led'' [0], Delay (100 * 1000)])"
  define d1 where "d1 = h @ e1"
  have "list_all set_up_event e1" by (simp add: e1_def list_all_iff)
  moreover have "rp_create_gpio h = Inr (OK, d1)" by (simp add: rp_create_gpio_def rp_blink_def d1_def e1_def)
  ultimately have g: "rp_create_gpio h = Inr (OK, d1)" "d1 = h @ e1" "list_all set_up_event e1" by (simp_all add: d1_def)
  define e2 where "e2 = [Hw ''spi_init'' [8000000], Hw ''spi_set_slave'' [0], Hw ''spi_set_format'' [8, 0, 0],
            Hw ''gpio_set_function'' [18], Hw ''gpio_set_function'' [19], Hw ''gpio_set_function'' [16]] @
            concat (replicate 5 [Hw ''led'' [1], Delay (200 * 1000), Hw ''led'' [0], Delay (200 * 1000)])"
  have e2: "list_all set_up_event e2" by (simp add: e2_def list_all_iff)
  define h1 where "h1 = d1 @ e2"
  have h1: "bus_ok h1" unfolding h1_def g(2) using set_up_ok [OF set_up_ok [OF ok g(3)] e2] by simp
  have same1: "same_flash (arr h1) (arr h)"
    unfolding h1_def g(2)
    by (rule same_flash_trans [OF same_chipD(1) [OF set_up_same_chip [OF e2]] same_chipD(1) [OF set_up_same_chip [OF g(3)]]])
  obtain s2 h2 where 2: "rp_wait not_busy chip (0xFF, h1) = Inr (s2, h2)" "bus_ok h2" "same_chip h1 h2"
    using idle [OF h1] by blast
  have r: "bus_ok (instr ?rs h2 @ [Delay 1000])" using instr_ok [OF 2(2), of ?rs] by simp
  obtain s3 h3 where 3: "rp_wait not_busy chip (s2, instr ?rs h2 @ [Delay 1000]) = Inr (s3, h3)" "bus_ok h3"
      "same_chip (instr ?rs h2 @ [Delay 1000]) h3"
    using idle [OF r] by blast
  define jid where "jid = rx_bytes chip (h3 @ [Cs False, Tx ?id]) 3"
  have jid: "jid = [0xEF, 0xAA, 0x21]"
    by (simp add: jid_def rx_bytes_def upt_rec jedec)
  define h4 where "h4 = h3 @ [Cs False, Tx ?id, Rx jid, Cs True]"
  have q: "rp_query chip ?id 3 h3 = (jid, h4)" by (simp add: rp_query_def jid_def h4_def Let_def)
  have ok4: "bus_ok h4" using query_ok [OF 3(2), of ?id jid] by (simp add: h4_def)
  note i4 = quiet_instr [OF ok4, of ?un, simplified]
  obtain s5 h5 where 5: "rp_wait not_busy chip (s3, instr ?un h4) = Inr (s5, h5)" "bus_ok h5" "idle_after h5" "same_chip (instr ?un h4) h5"
    using idle [OF i4(1)] by blast
  note i5 = quiet_instr [OF 5(2), of ?we, simplified]
  obtain s6 h6 where 6: "rp_wait write_enabled chip (s5, instr ?we h5) = Inr (s6, h6)" "bus_ok h6" "same_chip (instr ?we h5) h6"
    using enable_wait [OF 5(2,3)] by blast
  have "rp_create_spi chip d1 = Inr (OK, h6)"
    using 2(1) 3(1) 5(1) 6(1) q jid by (simp add: rp_create_spi_def rp_blink_def Let_def h1_def e2_def)
  moreover have "last_written STATUS_REGISTER_1_ADDR h6 = Some 0"
    using same_chipD(3) [OF 6(3)] i5(4) same_chipD(3) [OF 5(4)] i4(4) by (simp add: register_write_def)
  moreover have "same_flash (arr (instr ?rs h2 @ [Delay 1000])) (arr h2)"
    unfolding instr_def append_assoc by (rule arr_kept) simp
  moreover have "same_flash (arr h4) (arr h3)" unfolding h4_def by (rule arr_kept) simp
  ultimately show ?thesis
    using g(1) 6(2) same1 same_chipD(1) [OF 2(3)] same_chipD(1) [OF 3(3)] i4(2) same_chipD(1) [OF 5(4)] i5(2) same_chipD(1) [OF 6(3)]
    by (intro exI [of _ d1] exI [of _ h6]) (simp add: rp_ready_def unprotected_def same_flash_def)
qed

end

sublocale rp_nand \<subseteq> rp_flash: flash_driver_spare "rp_driver chip" arr rp_ready
  by (rule rp_is_flash)

end
