(* ===== verification/Mxfs_Restart.thy ===== *)
theory Mxfs_Restart
  imports Rp2040_Flash
begin

text \<open>
  Several lives of the child on one chip. A session is a process that creates the instance, runs client operations and
  ends without warning, so that what it had not flushed is lost; the next one mounts what it finds. The locale \<open>restartable\<close>
  extends the contract of the driver by the promise that a creation leaves the pages alone. Inside it: a session changes only the
  blocks its own pages go to; every page of an earlier session in another block stays; and on a blank chip the sessions follow one
  another, block after block, until the ring is full.
\<close>

section \<open>Sessions\<close>

definition session ::
  "'p build \<Rightarrow> 'p platform \<Rightarrow> 'd driver \<Rightarrow> client_op list \<Rightarrow> 'd \<Rightarrow> (int list \<times> 'p mxfs_inst option \<times> 'd) res" where
  "session cfg pf drv ops d =
     bindR (mxfs_create_instance cfg pf drv (\<lambda>n. True) None \<lparr>singleton = 0, singleton_locked = False, device = d\<rparr>)
       (\<lambda>(r, i, sys). case i of
          None \<Rightarrow> Inr ([r], None, device sys)
        | Some inst \<Rightarrow> bindR (foldR (run_op cfg drv) ops ([r], inst, device sys)) (\<lambda>(rets, inst', d').
            Inr (rets, Some inst', d')))"

definition next_session ::
  "'p build \<Rightarrow> 'p platform \<Rightarrow> 'd driver \<Rightarrow> client_op list \<Rightarrow> int list list \<times> 'd \<Rightarrow> (int list list \<times> 'd) res" where
  "next_session cfg pf drv ops = (\<lambda>(retss, d).
     bindR (session cfg pf drv ops d) (\<lambda>(rets, i, d'). Inr (retss @ [rets], d')))"

definition sessions ::
  "'p build \<Rightarrow> 'p platform \<Rightarrow> 'd driver \<Rightarrow> client_op list list \<Rightarrow> 'd \<Rightarrow> (int list list \<times> 'd) res" where
  "sessions cfg pf drv opss d = foldR (next_session cfg pf drv) opss ([], d)"

text \<open>The log of one session, and the answers of its calls when all went well.\<close>

definition session_log :: "client_op list \<Rightarrow> mxfs_log" where
  "session_log ops = fold log_op ops empty_log"

definition all_ok :: "client_op list \<Rightarrow> int list" where
  "all_ok ops = replicate (Suc (length ops)) OK"

text \<open>Records dated after the first second of the epoch, in the 32 bits of a header.\<close>

definition op_dated :: "client_op \<Rightarrow> bool" where
  "op_dated op = (case op of Append layer t bs \<Rightarrow> (ucast (t div 1000) :: u32) \<noteq> 0 | Flush \<Rightarrow> True)"

definition ops_good :: "'p build \<Rightarrow> client_op list \<Rightarrow> bool" where
  "ops_good cfg ops \<longleftrightarrow> list_all (op_ok cfg) ops \<and> list_all op_dated ops"

section \<open>What a session finds\<close>

text \<open>A block that is blank or starts with a dated page, and a flash whose data blocks are all so.\<close>

abbreviation block_ok :: "flash_image \<Rightarrow> nat \<Rightarrow> bool" where
  "block_ok f b \<equiv> (if free_block f b then \<forall>q<PAGE_COUNT. f b q = blank_page else cp_time (block_head f b) > 0)"

definition flash_ok :: "flash_image \<Rightarrow> bool" where
  "flash_ok f \<longleftrightarrow> (\<forall>b \<in> set data_blocks. block_ok f b)"

lemma flash_ok_mountable:
  assumes "flash_ok f"
  shows "\<And>b. b \<in> set data_blocks \<Longrightarrow> free_block f b \<Longrightarrow> \<forall>q<PAGE_COUNT. f b q = blank_page"
    and "\<exists>b \<in> set data_blocks. free_block f b \<or> cp_time (block_head f b) > 0"
proof -
  show "b \<in> set data_blocks \<Longrightarrow> free_block f b \<Longrightarrow> \<forall>q<PAGE_COUNT. f b q = blank_page" for b
    using assms by (simp add: flash_ok_def)
  have one: "1 \<in> set data_blocks" by simp
  then show "\<exists>b \<in> set data_blocks. free_block f b \<or> cp_time (block_head f b) > 0"
    using assms unfolding flash_ok_def by (intro bexI [OF _ one]) (metis one)
qed

lemma block_head_cong: "f b 0 = g b 0 \<Longrightarrow> block_head f b = block_head g b"
  by (simp add: block_head_def)

lemma same_flash_head: "same_flash f g \<Longrightarrow> b \<in> set data_blocks \<Longrightarrow> block_head f b = block_head g b"
  by (rule block_head_cong) (simp add: same_flash_def)

lemma block_ok_same:
  assumes "b \<in> set data_blocks" and "\<And>q. q < PAGE_COUNT \<Longrightarrow> f b q = g b q"
  shows "block_ok f b = block_ok g b"
proof -
  have h: "block_head f b = block_head g b" by (rule block_head_cong) (use assms(2) in simp)
  have "free_block f b = free_block g b" by (rule free_block_cong [OF h])
  then show ?thesis using h assms(2) by simp
qed

lemma flash_ok_changed:
  assumes "flash_ok g" and "same_outside B f g" and "\<And>b. b \<in> B \<Longrightarrow> b \<in> set data_blocks \<Longrightarrow> block_ok f b"
  shows "flash_ok f"
  unfolding flash_ok_def
proof
  fix b
  assume b: "b \<in> set data_blocks"
  show "block_ok f b"
  proof (cases "b \<in> B")
    case False
    have "f b q = g b q" if "q < PAGE_COUNT" for q using assms(2) False b that by (simp add: same_outside_def)
    from block_ok_same [where f = f and g = g, OF b this] show ?thesis using assms(1) b by (simp add: flash_ok_def)
  qed (rule assms(3) [OF _ b])
qed

lemma flash_ok_same: "flash_ok g \<Longrightarrow> same_flash f g \<Longrightarrow> flash_ok f"
  using flash_ok_changed [OF _ same_flash_outside, of g f "{}"] by simp

section \<open>The head of a written block\<close>

text \<open>The chunks by layer, and the first chunk of a page that is not empty: it belongs to the first sample of a layer.\<close>

definition layer_chunks :: "pending \<Rightarrow> nat \<Rightarrow> chunk list" where
  "layer_chunks P l =
     (if l \<le> LAYER_ANTP_CADENCE then map (ant_chunk l) (P l)
      else if l \<le> LAYER_ACCELEROMETER then gyro_chunks l (P l) else temp_chunks (carried_last P) (P l))"

lemma page_chunks_layers: "page_chunks P = concat (map (layer_chunks P) [0, 1, 2, 3, 4, 5])"
  by (simp add: page_chunks_def layer_chunks_def)

lemma first_of_concat:
  "\<exists>x \<in> set xs. f x \<noteq> [] \<Longrightarrow> concat (map f xs) \<noteq> [] \<and> (\<exists>x \<in> set xs. f x \<noteq> [] \<and> hd (concat (map f xs)) = hd (f x))"
  by (induction xs) (auto simp: hd_append)

lemma first_of_layer:
  assumes "P l \<noteq> []"
  shows "layer_chunks P l \<noteq> []" "cp_magic (ck_head (hd (layer_chunks P l))) = MAGIC"
    "cp_time (ck_head (hd (layer_chunks P l))) = ucast (fst (hd (P l)) div 1000)"
  using assms
  by (simp_all add: layer_chunks_def gyro_chunks_def temp_chunks_def hd_map ant_chunk_def,
      simp_all add: ant_header_def gyro_header_def temp_header_def cp_simps)

lemma layer_chunks_Nil: "P l = [] \<Longrightarrow> layer_chunks P l = []"
  by (simp add: layer_chunks_def gyro_chunks_def temp_chunks_def)

lemma first_chunk:
  assumes "pending_len P \<noteq> 0"
  shows "\<exists>ck cks l s. page_chunks P = ck # cks \<and> l < LAYER_MAX \<and> s \<in> set (P l) \<and>
    cp_magic (ck_head ck) = MAGIC \<and> cp_time (ck_head ck) = ucast (fst s div 1000)"
proof -
  have "\<exists>l \<in> set [0, 1, 2, 3, 4, 5]. P l \<noteq> []" using assms by (auto simp: pending_len_def page_len_def)
  then have "\<exists>l \<in> set [0, 1, 2, 3, 4, 5]. layer_chunks P l \<noteq> []" using first_of_layer(1) by blast
  from first_of_concat [OF this] obtain l where l: "l \<in> set [0, 1, 2, 3, 4, 5 :: nat]" "layer_chunks P l \<noteq> []"
    "page_chunks P \<noteq> []" "hd (page_chunks P) = hd (layer_chunks P l)"
    unfolding page_chunks_layers by blast
  have ne: "P l \<noteq> []" using l(2) layer_chunks_Nil by blast
  then have "hd (P l) \<in> set (P l)" and "l < LAYER_MAX" using l(1) by auto
  then show ?thesis using l(3,4) first_of_layer [where P = P and l = l, OF ne] by (metis list.collapse)
qed

lemma page_head:
  assumes "page_ok P" and "pending_len P \<noteq> 0" and "holds_page pg P"
  shows "cp_magic (compress_of (take 16 pg)) = MAGIC \<and>
    (\<exists>l<LAYER_MAX. \<exists>s \<in> set (P l). cp_time (compress_of (take 16 pg)) = ucast (fst s div 1000))"
proof -
  from first_chunk [OF assms(2)] obtain ck cks l s where c: "page_chunks P = ck # cks" "l < LAYER_MAX" "s \<in> set (P l)"
    "cp_magic (ck_head ck) = MAGIC" "cp_time (ck_head ck) = ucast (fst s div 1000)" by blast
  obtain fill where "pg = programmed (page_image P) fill" using assms(3) by (auto simp: holds_page_def)
  then have "take 16 pg = compress_bytes (ck_head ck)"
    by (simp add: programmed_def page_image_def c(1) enc_chunks_def enc_chunk_def)
  then show ?thesis using c by auto
qed

section \<open>The blocks of a session\<close>

text \<open>A block that a session wrote still starts with one of its pages at the end.\<close>

lemma touched_first_page:
  assumes "b \<in> touched s 0 n"
  shows "\<exists>i. log_low n \<le> i \<and> i < n \<and> log_pos s i = (b, 0)"
proof -
  obtain j where j: "j < n" "b = 1 + (s - 1 + j div 64) mod 1023" using assms by (auto simp: touched_def log_pos_def)
  define R where "R = (n - 1) div 64"
  define a where "a = j div 64"
  define q where "q = (R - a) mod 1023"
  define r where "r = R - q"
  have le: "a \<le> R" unfolding R_def a_def by (rule div_le_mono) (use j in simp)
  have m: "q \<le> R - a" "q < 1023" by (simp_all add: q_def)
  have "1023 dvd (R - a) - q" unfolding q_def by (rule dvd_minus_mod)
  moreover have "(R - a) - q = r - a" unfolding r_def by simp
  ultimately have d: "a \<le> r" "1023 dvd r - a" using m le unfolding r_def by simp_all
  have "s - 1 + r - (s - 1 + a) = r - a" by simp
  then have "(s - 1 + r) mod 1023 = (s - 1 + a) mod 1023"
    using d mod_eq_dvd_iff_nat [of "s - 1 + a" "s - 1 + r" 1023] by simp
  then have "log_pos s (64 * r) = (b, 0)" using j by (simp add: log_pos_def a_def)
  moreover have "R - 1022 \<le> r" using m unfolding r_def by simp
  then have "log_low n \<le> 64 * r" unfolding log_low_def R_def [symmetric] by simp
  moreover have "64 * r < n"
  proof -
    have "64 * r \<le> 64 * R" unfolding r_def by simp
    also have "\<dots> \<le> n - 1" unfolding R_def by simp
    finally show ?thesis using j by linarith
  qed
  ultimately show ?thesis by blast
qed

text \<open>No page of the log is empty, and its samples were appended.\<close>

definition pages_good :: "(sample \<Rightarrow> bool) \<Rightarrow> mxfs_log \<Rightarrow> bool" where
  "pages_good Q L \<longleftrightarrow> (\<forall>P \<in> set (log_pages L). pending_len P \<noteq> 0 \<and> (\<forall>l<LAYER_MAX. \<forall>s \<in> set (P l). Q s)) \<and>
     (\<forall>l<LAYER_MAX. \<forall>s \<in> set (log_pending L l). Q s)"

lemma pages_good_flush: "pages_good Q L \<Longrightarrow> pages_good Q (log_flush L)"
  by (auto simp: pages_good_def log_flush_def)

lemma pages_good_op:
  assumes "pages_good Q L" and "case op of Append layer t bs \<Rightarrow> Q (t, bs) | Flush \<Rightarrow> True"
  shows "pages_good Q (log_op op L)"
proof (cases op)
  case (Append layer t bs)
  have "pages_good Q (log_prepare (unat layer) L)" using assms(1) pages_good_flush by (simp add: log_prepare_def)
  then show ?thesis using assms(2) by (auto simp: Append log_op_def log_append_prepare pages_good_def)
qed (use assms pages_good_flush in \<open>simp add: log_op_def\<close>)

definition dated :: "sample \<Rightarrow> bool" where
  "dated s \<longleftrightarrow> (ucast (fst s div 1000) :: u32) \<noteq> 0"

lemma session_log_dated: "list_all op_dated ops \<Longrightarrow> pages_good dated (session_log ops)"
proof (induction ops rule: rev_induct)
  case Nil
  then show ?case by (simp add: session_log_def empty_log_def pages_good_def)
next
  case (snoc op ops)
  then have good: "pages_good dated (session_log ops)" and "op_dated op" by simp_all
  from this(2) have "case op of Append layer t bs \<Rightarrow> dated (t, bs) | Flush \<Rightarrow> True"
    by (cases op) (simp_all add: op_dated_def dated_def)
  with good have "pages_good dated (log_op op (session_log ops))" by (rule pages_good_op)
  then show ?case by (simp add: session_log_def)
qed

lemma written_head:
  assumes rel: "pages_ok f s (log_pages L)" and L: "pages_good dated L" and b: "b \<in> touched s 0 (length (log_pages L))"
  shows "\<not> free_block f b" "cp_time (block_head f b) > 0"
proof -
  obtain i where i: "log_low (length (log_pages L)) \<le> i" "i < length (log_pages L)" "log_pos s i = (b, 0)"
    using touched_first_page [OF b] by blast
  let ?P = "log_pages L ! i"
  have P: "page_ok ?P" "holds_page (f b 0) ?P" using rel i by (auto simp: pages_ok_def)
  have in_L: "?P \<in> set (log_pages L)" using i(2) by simp
  then have ne: "pending_len ?P \<noteq> 0" and dt: "\<forall>l<LAYER_MAX. \<forall>s \<in> set (?P l). dated s" using L by (simp_all add: pages_good_def)
  from page_head [OF P(1) ne P(2)] obtain l s where h: "cp_magic (block_head f b) = MAGIC" "l < LAYER_MAX" "s \<in> set (?P l)"
    "cp_time (block_head f b) = ucast (fst s div 1000)" unfolding block_head_def by blast
  have "dated s" using dt h(2,3) by blast
  then show "\<not> free_block f b" "cp_time (block_head f b) > 0"
    using h(1,4) by (simp_all add: free_block_def dated_def word_gt_0)
qed

lemma flash_ok_written:
  assumes "flash_ok f" and rel: "pages_ok g s (log_pages L)" and L: "pages_good dated L"
    and out: "same_outside (touched s 0 (length (log_pages L))) g f"
  shows "flash_ok g"
  by (rule flash_ok_changed [OF assms(1) out]) (use written_head [OF rel L] in simp)

section \<open>What a history of sessions keeps\<close>

text \<open>
  A history is the list of the sessions so far, each with the block it started at and its log. A page of
  session \<open>k\<close> is kept where that session kept it and no later one used its block. Beside the history, \<open>gone\<close> lists the blocks that
  each session lost in other ways; the pages left are those kept in none of the blocks lost since.
\<close>

type_synonym history = "(nat \<times> mxfs_log) list"

abbreviation hist_page :: "history \<Rightarrow> nat \<Rightarrow> nat \<Rightarrow> pending" where
  "hist_page hist k i \<equiv> log_pages (snd (hist ! k)) ! i"

abbreviation hist_pos :: "history \<Rightarrow> nat \<Rightarrow> nat \<Rightarrow> nat \<times> nat" where
  "hist_pos hist k i \<equiv> log_pos (fst (hist ! k)) i"

definition reused :: "history \<Rightarrow> nat set" where
  "reused hist = (\<Union>(s, L) \<in> set hist. touched s 0 (length (log_pages L)))"

definition page_kept :: "history \<Rightarrow> nat \<Rightarrow> nat \<Rightarrow> bool" where
  "page_kept hist k i \<longleftrightarrow> k < length hist \<and> log_kept (snd (hist ! k)) i \<and> fst (hist_pos hist k i) \<notin> reused (drop (Suc k) hist)"

definition page_left :: "history \<Rightarrow> nat set list \<Rightarrow> nat \<Rightarrow> nat \<Rightarrow> bool" where
  "page_left hist gone k i \<longleftrightarrow> page_kept hist k i \<and> fst (hist_pos hist k i) \<notin> \<Union> (set (drop k gone))"

definition history_left :: "flash_image \<Rightarrow> history \<Rightarrow> nat set list \<Rightarrow> bool" where
  "history_left f hist gone \<longleftrightarrow> length gone = length hist \<and> (\<forall>k i. page_left hist gone k i \<longrightarrow>
     page_ok (hist_page hist k i) \<and> holds_page (f (fst (hist_pos hist k i)) (snd (hist_pos hist k i))) (hist_page hist k i))"

definition history_ok :: "flash_image \<Rightarrow> history \<Rightarrow> bool" where
  "history_ok f hist \<longleftrightarrow> history_left f hist (map (\<lambda>x. {}) hist)"

lemma reused_append: "reused (xs @ ys) = reused xs \<union> reused ys"
  by (simp add: reused_def)

lemma history_left_Nil: "history_left f [] []"
  by (simp add: history_left_def page_left_def page_kept_def)

lemma page_left_all: "page_left hist (map (\<lambda>x. {}) hist) k i = page_kept hist k i"
  using set_drop_subset [of k "map (\<lambda>x. {}) hist"] by (auto simp: page_left_def)

lemma history_left_snoc:
  assumes h: "history_left f hist gone" and new: "pages_ok g s (log_pages L)"
    and out: "same_outside (touched s 0 (length (log_pages L))) g f" and lost: "same_outside B g' g"
  shows "history_left g' (hist @ [(s, L)]) (gone @ [B])"
proof -
  have len: "length gone = length hist" using h by (simp add: history_left_def)
  have "page_ok (hist_page (hist @ [(s, L)]) k i) \<and>
      holds_page (g' (fst (hist_pos (hist @ [(s, L)]) k i)) (snd (hist_pos (hist @ [(s, L)]) k i))) (hist_page (hist @ [(s, L)]) k i)"
    if k: "page_left (hist @ [(s, L)]) (gone @ [B]) k i" for k i
  proof (cases "k = length hist")
    case True
    then have "log_kept L i" "fst (log_pos s i) \<notin> B" using k len by (simp_all add: page_left_def page_kept_def)
    then show ?thesis using True new lost log_pos_valid(1) [of s i] by (simp add: log_kept_def pages_ok_def same_outside_def)
  next
    case False
    let ?q = "hist_pos hist k i"
    have lt: "k < length hist" using k False by (simp add: page_left_def page_kept_def)
    then have left: "page_left hist gone k i" and free: "fst ?q \<notin> touched s 0 (length (log_pages L))" "fst ?q \<notin> B"
      using k len by (simp_all add: page_left_def page_kept_def nth_append reused_append) (simp add: reused_def)
    have "g' (fst ?q) (snd ?q) = f (fst ?q) (snd ?q)"
      using out lost free log_pos_valid(1) [of "fst (hist ! k)" i] by (simp add: same_outside_def)
    then show ?thesis using h left lt by (simp add: history_left_def nth_append)
  qed
  then show ?thesis using len by (simp add: history_left_def)
qed

lemma history_ok_snoc:
  assumes "history_ok f hist" and "pages_ok g s (log_pages L)" and "same_outside (touched s 0 (length (log_pages L))) g f"
  shows "history_ok g (hist @ [(s, L)])"
  using history_left_snoc [OF assms(1) [unfolded history_ok_def] assms(2,3) same_outside_refl [of "{}"]] by (simp add: history_ok_def)

section \<open>Sessions one behind the other\<close>

text \<open>On a chip whose first blocks are in use and whose other blocks are blank, sessions take the next blocks in turn.\<close>

definition log_blocks :: "mxfs_log \<Rightarrow> nat" where
  "log_blocks L = (length (log_pages L) + (PAGE_COUNT - 1)) div PAGE_COUNT"

primrec packed :: "nat \<Rightarrow> mxfs_log list \<Rightarrow> nat list" where
  "packed m [] = []"
| "packed m (L # Ls) = m # packed (m + log_blocks L) Ls"

definition used_to :: "flash_image \<Rightarrow> nat \<Rightarrow> bool" where
  "used_to f m \<longleftrightarrow> (\<forall>b \<in> set data_blocks. free_block f b \<longleftrightarrow> m \<le> b)"

lemma chosen_used_to:
  assumes "used_to f m" and "1 \<le> m" "m < BLOCK_COUNT" and "chosen_block f b"
  shows "b = m"
proof -
  have m: "m \<in> set data_blocks" "free_block f m" using assms(1-3) by (simp_all add: used_to_def)
  then have "free_block f b \<and> b \<in> set data_blocks \<and> (\<forall>k \<in> set data_blocks. k < b \<longrightarrow> \<not> free_block f k)"
    using assms(4) unfolding chosen_block_def by metis
  moreover from this have "m \<le> b" using assms(1) unfolding used_to_def by blast
  ultimately show ?thesis using m by (metis le_neq_implies_less)
qed

lemma log_pos_straight:
  assumes "1 \<le> m" and "m + log_blocks L \<le> BLOCK_COUNT" and "i < length (log_pages L)"
  shows "fst (log_pos m i) = m + i div 64" "i div 64 < log_blocks L"
proof -
  have "i div 64 \<le> (length (log_pages L) - 1) div 64" by (rule div_le_mono) (use assms(3) in simp)
  also have "(length (log_pages L) - 1) div 64 + 1 = log_blocks L" using assms(3) by (simp add: log_blocks_def div_add_self2 [symmetric])
  finally show "i div 64 < log_blocks L" by simp
  then show "fst (log_pos m i) = m + i div 64" using assms(1,2) by (simp add: log_pos_def)
qed

lemma touched_straight:
  assumes "1 \<le> m" and "m + log_blocks L \<le> BLOCK_COUNT"
  shows "touched m 0 (length (log_pages L)) = {m..<m + log_blocks L}"
proof
  show "touched m 0 (length (log_pages L)) \<subseteq> {m..<m + log_blocks L}"
    using log_pos_straight [OF assms] by (auto simp: touched_def)
  show "{m..<m + log_blocks L} \<subseteq> touched m 0 (length (log_pages L))"
  proof
    fix b
    assume b: "b \<in> {m..<m + log_blocks L}"
    then have "b - m + 1 \<le> (length (log_pages L) + 63) div 64" by (auto simp: log_blocks_def)
    then have "(b - m + 1) * 64 \<le> length (log_pages L) + 63" by (simp add: less_eq_div_iff_mult_less_eq)
    then have i: "64 * (b - m) < length (log_pages L)" by simp
    then have "fst (log_pos m (64 * (b - m))) = b" using log_pos_straight(1) [OF assms i] b by simp
    then show "b \<in> touched m 0 (length (log_pages L))" using i by (force simp: touched_def)
  qed
qed

lemma reused_packed:
  assumes "1 \<le> m" and "m + sum_list (map log_blocks Ls) \<le> BLOCK_COUNT"
  shows "b \<in> reused (zip (packed m Ls) Ls) \<Longrightarrow> m \<le> b"
  using assms
proof (induction Ls arbitrary: m)
  case (Cons L Ls)
  have "touched m 0 (length (log_pages L)) = {m..<m + log_blocks L}" by (rule touched_straight) (use Cons.prems in simp_all)
  moreover have "m + log_blocks L \<le> b" if "b \<in> reused (zip (packed (m + log_blocks L) Ls) Ls)"
    using Cons.IH [OF that] Cons.prems by simp
  moreover have "b \<in> touched m 0 (length (log_pages L)) \<or> b \<in> reused (zip (packed (m + log_blocks L) Ls) Ls)"
    using Cons.prems(1) by (simp add: reused_def)
  ultimately show ?case by fastforce
qed (simp add: reused_def)

lemma length_packed [simp]: "length (packed m Ls) = length Ls"
  by (induction Ls arbitrary: m) simp_all

lemma packed_kept:
  assumes "1 \<le> m" and "m + sum_list (map log_blocks Ls) \<le> BLOCK_COUNT"
    and "k < length Ls" and "i < length (log_pages (Ls ! k))"
  shows "page_kept (zip (packed m Ls) Ls) k i"
  using assms
proof (induction Ls arbitrary: m k)
  case (Cons L Ls)
  show ?case
  proof (cases k)
    case 0
    have i: "i < length (log_pages L)" using Cons.prems 0 by simp
    have fits: "m + log_blocks L \<le> BLOCK_COUNT" using Cons.prems(2) by simp
    note at = log_pos_straight [OF Cons.prems(1) fits i]
    have "length (log_pages L) - 1 < length (log_pages L)" using i by simp
    from log_pos_straight(2) [OF Cons.prems(1) fits this] have "(length (log_pages L) - 1) div 64 < 1023"
      using fits Cons.prems(1) by linarith
    then have "log_low (length (log_pages L)) = 0" by (simp add: log_low_def)
    moreover have "fst (log_pos m i) \<notin> reused (zip (packed (m + log_blocks L) Ls) Ls)"
      using reused_packed [of "m + log_blocks L" Ls "fst (log_pos m i)"] Cons.prems(1,2) at by auto
    ultimately show ?thesis using i 0 by (simp add: page_kept_def log_kept_def)
  next
    case (Suc j)
    then show ?thesis using Cons.IH [of "m + log_blocks L" j] Cons.prems by (simp add: page_kept_def)
  qed
qed simp

lemma used_to_written:
  assumes f: "used_to f m" and m: "1 \<le> m" "m + log_blocks L \<le> BLOCK_COUNT"
    and rel: "pages_ok g m (log_pages L)" and L: "pages_good dated L"
    and out: "same_outside (touched m 0 (length (log_pages L))) g f"
  shows "used_to g (m + log_blocks L)"
  unfolding used_to_def
proof
  fix b
  assume b: "b \<in> set data_blocks"
  have t: "touched m 0 (length (log_pages L)) = {m..<m + log_blocks L}" by (rule touched_straight [OF m])
  show "free_block g b \<longleftrightarrow> m + log_blocks L \<le> b"
  proof (cases "b \<in> {m..<m + log_blocks L}")
    case True
    then show ?thesis using written_head(1) [OF rel L] t by simp
  next
    case False
    then have "g b 0 = f b 0" using out b t by (simp add: same_outside_def)
    then have "free_block g b = free_block f b" by (rule free_block_cong [OF block_head_cong])
    then show ?thesis using f b False by (auto simp: used_to_def)
  qed
qed

text \<open>\<open>mxfs_read\<close> gives back, layer by layer, the samples of a page.\<close>

definition reads_page :: "'d driver \<Rightarrow> 'd \<Rightarrow> pending \<Rightarrow> nat \<times> nat \<Rightarrow> bool" where
  "reads_page drv d P pos \<longleftrightarrow> (\<forall>layer tr n buf page0.
     unat layer < LAYER_MAX \<longrightarrow> (unat (tr_block tr), unat (tr_page tr)) = pos \<longrightarrow> n \<noteq> 0 \<longrightarrow> length page0 = PAGE_SIZE \<longrightarrow>
     length (bodies (P (unat layer))) \<le> length buf \<longrightarrow>
     (\<exists>d'. mxfs_read drv d layer (Some buf) n tr (Some page0) =
        Inr (int (length (bodies (P (unat layer)))),
          Some (bodies (P (unat layer)) @ drop (length (bodies (P (unat layer)))) buf), d')))"

text \<open>The pages of the sessions, where each starts behind the one before it.\<close>

definition session_page :: "client_op list list \<Rightarrow> nat \<times> nat \<Rightarrow> pending \<Rightarrow> bool" where
  "session_page opss pos P \<longleftrightarrow> (\<exists>k i. k < length opss \<and> i < length (log_pages (session_log (opss ! k))) \<and>
     log_pos (packed 1 (map session_log opss) ! k) i = pos \<and> P = log_pages (session_log (opss ! k)) ! i)"

section \<open>A driver that can be created again\<close>

locale restartable = flash_driver +
  fixes alive :: "'a \<Rightarrow> bool"
  assumes ready_alive: "ready d \<Longrightarrow> alive d"
    and restart: "alive d \<Longrightarrow> \<exists>d1 d2. drv_create_gpio drv d = Inr (OK, d1) \<and> drv_create_spi drv d1 = Inr (OK, d2) \<and>
      ready d2 \<and> same_flash (img d2) (img d)"
begin

text \<open>One session: all calls succeed, from the block the mount chooses, and only the blocks of its pages change.\<close>

lemma mount_runs:
  assumes cfg: "good_build cfg" and pf: "mount_good pf = mount_good_flash" "find_current pf = find_flash data_blocks 0"
    and d: "alive d" and f: "flash_ok (img d)"
  shows "\<exists>inst d'. mxfs_create_instance cfg pf drv (\<lambda>n. True) None \<lparr>singleton = 0, singleton_locked = False, device = d\<rparr> =
      Inr (OK, Some inst, \<lparr>singleton = 1, singleton_locked = False, device = d'\<rparr>) \<and> ready d' \<and> same_flash (img d') (img d) \<and>
    chosen_block (img d) (fst (position inst)) \<and> log_rel cfg (img d') (fst (position inst)) inst empty_log"
proof -
  obtain d1 d2 where c: "drv_create_gpio drv d = Inr (OK, d1)" "drv_create_spi drv d1 = Inr (OK, d2)" "ready d2"
    and same: "same_flash (img d2) (img d)" using restart [OF d] by blast
  have f2: "flash_ok (img d2)" by (rule flash_ok_same [OF f same])
  let ?sys = "\<lparr>singleton = 0, singleton_locked = False, device = d\<rparr>"
  have dev: "device ?sys = d" "singleton ?sys = 0" "\<not> singleton_locked ?sys" by simp_all
  have "\<exists>inst d' b. mxfs_create_instance cfg pf drv (\<lambda>n. True) None ?sys =
      Inr (OK, Some inst, \<lparr>singleton = 1, singleton_locked = False, device = d'\<rparr>) \<and> ready d' \<and> same_flash (img d') (img d2) \<and>
    chosen_block (img d2) b \<and> log_rel cfg (img d') b inst empty_log"
    by (rule create_starts_log [OF cfg pf _ dev(2,3) _ c(2,3)])
      (use c(1) flash_ok_mountable [OF f2] in \<open>auto simp: dev\<close>)
  then obtain inst d3 b where m: "mxfs_create_instance cfg pf drv (\<lambda>n. True) None ?sys =
      Inr (OK, Some inst, \<lparr>singleton = 1, singleton_locked = False, device = d3\<rparr>)" "ready d3" "same_flash (img d3) (img d2)"
    "chosen_block (img d2) b" "log_rel cfg (img d3) b inst empty_log" by blast
  have "1 \<le> b" "b - 1 < 1023" using m(4) by (auto simp: chosen_block_def)
  then have b: "fst (position inst) = b" using m(5) by (simp add: log_rel_def empty_log_def log_pos_def)
  have "chosen_block (img d2) b = chosen_block (img d) b"
    by (rule chosen_block_cong) (rule same_flash_head [OF same])
  then show ?thesis using m b same_flash_trans [OF m(3) same] by blast
qed

lemma client_runs:
  assumes cfg: "good_build cfg" and ops: "ops_good cfg ops" and d: "ready d" and f: "flash_ok f" "same_flash (img d) f"
    and rel: "log_rel cfg (img d) s inst empty_log"
  shows "\<exists>inst' d'. foldR (run_op cfg drv) ops (rets, inst, d) = Inr (rets @ replicate (length ops) OK, inst', d') \<and> ready d' \<and>
    log_rel cfg (img d') s inst' (session_log ops) \<and>
    same_outside (touched s 0 (length (log_pages (session_log ops)))) (img d') f \<and> flash_ok (img d')"
proof -
  have good: "list_all (op_ok cfg) ops" "list_all op_dated ops" using ops by (simp_all add: ops_good_def)
  let ?n = "length (log_pages (session_log ops))"
  obtain inst' d' where r: "foldR (run_op cfg drv) ops (rets, inst, d) = Inr (rets @ replicate (length ops) OK, inst', d')"
    "ready d'" "log_rel cfg (img d') s inst' (session_log ops)" "same_outside (touched s 0 ?n) (img d') (img d)"
    using ops_keep [OF cfg good(1) d rel, of rets] by (auto simp: session_log_def empty_log_def)
  have out: "same_outside (touched s 0 ?n) (img d') f"
    by (rule same_outside_trans [OF r(4) same_flash_outside [OF f(2), where B = "{}"]]) simp_all
  have "flash_ok (img d')"
    by (rule flash_ok_written [OF f(1) _ session_log_dated [OF good(2)] out]) (use r(3) in \<open>simp add: log_rel_def\<close>)
  then show ?thesis using r out by blast
qed

lemma session_runs:
  assumes cfg: "good_build cfg" and pf: "mount_good pf = mount_good_flash" "find_current pf = find_flash data_blocks 0"
    and ops: "ops_good cfg ops" and d: "alive d" and f: "flash_ok (img d)"
  shows "\<exists>b inst d'. session cfg pf drv ops d = Inr (all_ok ops, Some inst, d') \<and> ready d' \<and> chosen_block (img d) b \<and>
    log_rel cfg (img d') b inst (session_log ops) \<and>
    same_outside (touched b 0 (length (log_pages (session_log ops)))) (img d') (img d) \<and> flash_ok (img d')"
proof -
  obtain inst d1 where m: "mxfs_create_instance cfg pf drv (\<lambda>n. True) None \<lparr>singleton = 0, singleton_locked = False, device = d\<rparr> =
      Inr (OK, Some inst, \<lparr>singleton = 1, singleton_locked = False, device = d1\<rparr>)" "ready d1" "same_flash (img d1) (img d)"
    "chosen_block (img d) (fst (position inst))" "log_rel cfg (img d1) (fst (position inst)) inst empty_log"
    using mount_runs [OF cfg pf d f] by blast
  obtain inst' d' where r: "foldR (run_op cfg drv) ops ([OK], inst, d1) = Inr ([OK] @ replicate (length ops) OK, inst', d')" "ready d'"
    "log_rel cfg (img d') (fst (position inst)) inst' (session_log ops)"
    "same_outside (touched (fst (position inst)) 0 (length (log_pages (session_log ops)))) (img d') (img d)" "flash_ok (img d')"
    using client_runs [OF cfg ops m(2) f m(3,5), of "[OK]"] by blast
  have "session cfg pf drv ops d = Inr (all_ok ops, Some inst', d')" using m(1) r(1) by (simp add: session_def all_ok_def)
  then show ?thesis using m(4) r(2-5) by blast
qed

text \<open>Any number of sessions.\<close>

lemma sessions_run:
  assumes cfg: "good_build cfg" and pf: "mount_good pf = mount_good_flash" "find_current pf = find_flash data_blocks 0"
    and "list_all (ops_good cfg) opss" and "alive d" and "flash_ok (img d)" and "history_ok (img d) hist"
  shows "\<exists>starts d'. foldR (next_session cfg pf drv) opss (retss, d) = Inr (retss @ map all_ok opss, d') \<and> alive d' \<and>
    length starts = length opss \<and> history_ok (img d') (hist @ zip starts (map session_log opss)) \<and> same_outside {1..} (img d') (img d) \<and>
    (opss \<noteq> [] \<longrightarrow> ready d' \<and> chosen_block (img d) (hd starts)) \<and>
    (\<forall>m. 1 \<le> m \<longrightarrow> used_to (img d) m \<longrightarrow> m + sum_list (map log_blocks (map session_log opss)) < BLOCK_COUNT \<longrightarrow>
      starts = packed m (map session_log opss))"
  using assms(4-)
proof (induction opss arbitrary: retss d hist)
  case Nil
  then show ?case by (intro exI [of _ "[]"]) simp
next
  case (Cons ops opss)
  have ops: "ops_good cfg ops" and rest: "list_all (ops_good cfg) opss" using Cons.prems(1) by simp_all
  obtain b inst d1 where s: "session cfg pf drv ops d = Inr (all_ok ops, Some inst, d1)" "ready d1" "chosen_block (img d) b"
    "log_rel cfg (img d1) b inst (session_log ops)"
    "same_outside (touched b 0 (length (log_pages (session_log ops)))) (img d1) (img d)" "flash_ok (img d1)"
    using session_runs [OF cfg pf ops Cons.prems(2,3)] by blast
  have h: "history_ok (img d1) (hist @ [(b, session_log ops)])"
    by (rule history_ok_snoc [OF Cons.prems(4) _ s(5)]) (use s(4) in \<open>simp add: log_rel_def\<close>)
  obtain starts d' where r: "foldR (next_session cfg pf drv) opss (retss @ [all_ok ops], d1) =
      Inr ((retss @ [all_ok ops]) @ map all_ok opss, d')" "alive d'" "length starts = length opss"
    "history_ok (img d') ((hist @ [(b, session_log ops)]) @ zip starts (map session_log opss))"
    "opss \<noteq> [] \<longrightarrow> ready d'" and data: "same_outside {1..} (img d') (img d1)"
    and later: "\<And>m. 1 \<le> m \<Longrightarrow> used_to (img d1) m \<Longrightarrow> m + sum_list (map log_blocks (map session_log opss)) < BLOCK_COUNT \<Longrightarrow>
      starts = packed m (map session_log opss)"
    using Cons.IH [OF rest ready_alive [OF s(2)] s(6) h, of "retss @ [all_ok ops]"] by blast
  have "ready d'"
  proof (cases opss)
    case Nil
    then show ?thesis using r(1) s(2) by simp
  qed (use r(5) in simp)
  moreover have "next_session cfg pf drv ops (retss, d) = Inr (retss @ [all_ok ops], d1)"
    using s(1) by (simp add: next_session_def)
  moreover have "b # starts = packed m (map session_log (ops # opss))"
    if m: "1 \<le> m" "used_to (img d) m" "m + sum_list (map log_blocks (map session_log (ops # opss))) < BLOCK_COUNT" for m
  proof -
    have "b = m" by (rule chosen_used_to [OF m(2,1) _ s(3)]) (use m(3) in simp)
    moreover have "used_to (img d1) (m + log_blocks (session_log ops))"
      by (rule used_to_written [OF m(2,1) _ _ _ s(5) [unfolded \<open>b = m\<close>]])
        (use s(4) m(3) ops in \<open>simp_all add: log_rel_def \<open>b = m\<close> session_log_dated ops_good_def\<close>)
    ultimately show ?thesis using later m(1,3) by simp
  qed
  moreover have "same_outside {1..} (img d') (img d)"
    by (rule same_outside_trans [OF data s(5)]) (auto simp: touched_def log_pos_def)
  ultimately show ?case using r s(3) by (intro exI [of _ "b # starts"] exI [of _ d']) simp
qed

lemma held_reads_page:
  assumes "ready d" and "page_ok P" and "holds_page (img d b p) P" and "valid_pos b p"
  shows "reads_page drv d P (b, p)"
  unfolding reads_page_def using read_held [OF assms(1,2)] assms(3,4) by fastforce

lemma history_reads:
  assumes rd: "ready d" and "history_left (img d) hist gone" and "page_left hist gone k i"
  shows "reads_page drv d (hist_page hist k i) (hist_pos hist k i)"
  using held_reads_page [OF rd _ _ log_pos_valid(1)] assms(2,3) unfolding history_left_def by (metis prod.collapse)

lemma sessions_fill:
  assumes cfg: "good_build cfg" and pf: "mount_good pf = mount_good_flash" "find_current pf = find_flash data_blocks 0"
    and ops: "list_all (ops_good cfg) opss" "opss \<noteq> []" and d: "alive d"
    and blank: "\<And>b q. b \<in> set data_blocks \<Longrightarrow> q < PAGE_COUNT \<Longrightarrow> img d b q = blank_page"
    and room: "sum_list (map log_blocks (map session_log opss)) < BLOCK_COUNT - 1"
  shows "\<exists>d'. sessions cfg pf drv opss d = Inr (map all_ok opss, d') \<and> ready d' \<and> same_outside {1..} (img d') (img d) \<and>
    (\<forall>b p P. session_page opss (b, p) P \<longrightarrow> page_ok P \<and> holds_page (img d' b p) P \<and> valid_pos b p)"
proof -
  have free: "free_block (img d) b" if "b \<in> set data_blocks" for b
    using blank [OF that, of 0] blank_head by (simp add: free_block_def block_head_def)
  have f: "flash_ok (img d)" using free blank by (simp add: flash_ok_def)
  have u: "used_to (img d) 1" unfolding used_to_def using free by (metis atLeastLessThan_upt atLeastLessThan_iff)
  have "history_ok (img d) []" by (simp add: history_ok_def history_left_Nil)
  from sessions_run [OF cfg pf ops(1) d f this, of "[]"] obtain starts d' where
    r: "foldR (next_session cfg pf drv) opss ([], d) = Inr ([] @ map all_ok opss, d')" "length starts = length opss"
    "history_ok (img d') ([] @ zip starts (map session_log opss))" "opss \<noteq> [] \<longrightarrow> ready d' \<and> chosen_block (img d) (hd starts)"
    "same_outside {1..} (img d') (img d)"
    "\<forall>m. 1 \<le> m \<longrightarrow> used_to (img d) m \<longrightarrow> m + sum_list (map log_blocks (map session_log opss)) < BLOCK_COUNT \<longrightarrow>
      starts = packed m (map session_log opss)"
    by blast
  have st: "starts = packed 1 (map session_log opss)" using r(6) u room by simp
  let ?h = "zip starts (map session_log opss)"
  have "page_ok P \<and> holds_page (img d' b p) P \<and> valid_pos b p" if P: "session_page opss (b, p) P" for b p P
  proof -
    obtain k i where k: "k < length opss" "i < length (log_pages (session_log (opss ! k)))"
      "log_pos (packed 1 (map session_log opss) ! k) i = (b, p)" "P = log_pages (session_log (opss ! k)) ! i"
      using P by (auto simp: session_page_def)
    have "page_kept ?h k i" unfolding st by (rule packed_kept) (use k room in simp_all)
    moreover have "?h ! k = (starts ! k, session_log (opss ! k))" using k(1) r(2) by simp
    moreover have "page_ok (hist_page ?h k i) \<and> holds_page (img d' (fst (hist_pos ?h k i)) (snd (hist_pos ?h k i))) (hist_page ?h k i)"
      if "page_kept ?h k i"
      using r(3) that by (simp add: history_ok_def history_left_def page_left_all)
    ultimately show ?thesis using k(3,4) log_pos_valid(1) [of "starts ! k" i] st by simp
  qed
  then show ?thesis using r(1,4,5) ops(2) by (auto simp: sessions_def)
qed

text \<open>When every block is in use, the next session erases the block with the newest head.\<close>

lemma full_session_erases:
  assumes cfg: "good_build cfg" and pf: "mount_good pf = mount_good_flash" "find_current pf = find_flash data_blocks 0"
    and ops: "ops_good cfg ops" and d: "alive d" "flash_ok (img d)" and full: "\<And>b. b \<in> set data_blocks \<Longrightarrow> \<not> free_block (img d) b"
    and n: "n = length (log_pages (session_log ops))" "0 < n" "n < PAGE_COUNT"
  shows "\<exists>b inst d'. session cfg pf drv ops d = Inr (all_ok ops, Some inst, d') \<and> b \<in> set data_blocks \<and>
    (\<forall>k \<in> set data_blocks. cp_time (block_head (img d) k) \<le> cp_time (block_head (img d) b)) \<and>
    same_outside {b} (img d') (img d) \<and> (\<forall>q. n \<le> q \<and> q < PAGE_COUNT \<longrightarrow> img d' b q = blank_page)"
proof -
  obtain b inst d' where s: "session cfg pf drv ops d = Inr (all_ok ops, Some inst, d')" "chosen_block (img d) b"
    "log_rel cfg (img d') b inst (session_log ops)" "same_outside (touched b 0 n) (img d') (img d)"
    using session_runs [OF cfg pf ops d] unfolding n(1) [symmetric] by metis
  have "\<not> (\<exists>k \<in> set data_blocks. free_block (img d) k)" using full by blast
  from s(2) [unfolded chosen_block_def if_not_P [OF this]]
  have b: "b \<in> set data_blocks" "\<forall>k \<in> set data_blocks. cp_time (block_head (img d) k) \<le> cp_time (block_head (img d) b)"
    by (rule conjunct1, rule conjunct2)
  have blocks: "fst (log_pos b i) = b" if "i \<le> n" for i using that n(3) b(1) by (auto simp: log_pos_def)
  have "touched b 0 n \<subseteq> {b}" using blocks by (auto simp: touched_def)
  then have out: "same_outside {b} (img d') (img d)" using s(4) by (auto simp: same_outside_def)
  have pos: "position inst = (b, n)" and tail: "tail_ok (img d') inst"
    using s(3) blocks [of n] n by (auto simp: log_rel_def log_pos_def)
  have "img d' b q = blank_page" if q: "n \<le> q" "q < PAGE_COUNT" for q
    using tail_ok_position(2) [OF tail pos _ q] tail_ok_position(1) [OF tail pos] n(2) by blast
  then show ?thesis using s(1) b out by blast
qed

end

section \<open>The RP2040 over a chip\<close>

context rp_nand
begin

lemma rp_restarts: "restartable (rp_driver chip) arr rp_ready bus_ok"
  using rp_create_ready by (intro restartable.intro restartable_axioms.intro flash_driver_spare.axioms(1) [OF rp_is_flash])
    (auto simp: rp_ready_def rp_driver_def)

end

sublocale rp_nand \<subseteq> rp_restart: restartable "rp_driver chip" arr rp_ready bus_ok
  by (rule rp_restarts)

end
