(* ===== verification/Driver_Bcm2711.thy ===== *)
theory Driver_Bcm2711
  imports Spi_Bus
begin

text \<open>
  The BCM2711 (Raspberry Pi) driver (\<open>sw/child/src/drivers/bcm2711\<close>). Transfers go through \<open>ioctl\<close>, which
  may fail (as may the \<open>malloc\<close> before it): nobody looks at the result, so a failed send puts nothing
  on the bus and a failed receive leaves the receiving variable as it was. The device state holds the bus and
  the descriptors that \<open>mxfs_inst_t\<close> has on Linux; what \<open>open\<close>, \<open>mmap\<close> and the set-up \<open>ioctl\<close>s answer
  is an argument of the creation functions.
\<close>

section \<open>Transfers\<close>

definition bcm_tx :: "chip \<Rightarrow> byte list \<Rightarrow> bus \<Rightarrow> bus" where
  "bcm_tx chip bs h = (if tx_ok chip h then h @ [Tx bs] else h)"

definition bcm_rx :: "chip \<Rightarrow> byte list \<Rightarrow> bus \<Rightarrow> byte list \<times> bus" where
  "bcm_rx chip old h =
     (if rx_ok chip h then (let bs = rx_bytes chip h (length old) in (bs, h @ [Rx bs])) else (old, h))"

definition bcm_instr :: "chip \<Rightarrow> byte list \<Rightarrow> bus \<Rightarrow> bus" where
  "bcm_instr chip cmd h = bcm_tx chip cmd (h @ [Cs False]) @ [Cs True]"

definition bcm_query :: "chip \<Rightarrow> byte list \<Rightarrow> byte list \<Rightarrow> bus \<Rightarrow> byte list \<times> bus" where
  "bcm_query chip cmd old h =
     (case bcm_rx chip old (bcm_tx chip cmd (h @ [Cs False])) of (bs, h') \<Rightarrow> (bs, h' @ [Cs True]))"

definition bcm_register :: "chip \<Rightarrow> byte \<Rightarrow> byte option \<Rightarrow> bus \<Rightarrow> byte option \<times> bus" where
  "bcm_register chip addr flg h =
     (case flg of
        None \<Rightarrow> (None, h)
      | Some old \<Rightarrow> (case bcm_query chip [READ_STATUS_REGISTER_L, addr] [old] h of (bs, h') \<Rightarrow> (Some (hd bs), h')))"

definition bcm_read_registers ::
  "chip \<Rightarrow> byte option \<Rightarrow> byte option \<Rightarrow> byte option \<Rightarrow> bus \<Rightarrow> (byte option \<times> byte option \<times> byte option) \<times> bus" where
  "bcm_read_registers chip flg_protected flg_config flg_status h =
     (case bcm_register chip STATUS_REGISTER_1_ADDR flg_protected h of (p, h1) \<Rightarrow>
      case bcm_register chip STATUS_REGISTER_2_ADDR flg_config h1 of (c, h2) \<Rightarrow>
      case bcm_register chip STATUS_REGISTER_3_ADDR flg_status h2 of (s, h3) \<Rightarrow> ((p, c, s), h3))"

definition bcm_status :: "chip \<Rightarrow> byte \<Rightarrow> bus \<Rightarrow> byte \<times> bus" where
  "bcm_status chip st h =
     (case bcm_read_registers chip None None (Some st) h of ((p, c, s), h') \<Rightarrow> (the s, h'))"

definition bcm_wait :: "(byte \<Rightarrow> bool) \<Rightarrow> chip \<Rightarrow> byte \<times> bus \<Rightarrow> (byte \<times> bus) res" where
  "bcm_wait ready chip = (\<lambda>(st, h). of_option Spins (poll ready 10 (bcm_status chip) st h))"

section \<open>Read, write, erase\<close>

definition bcm_read_bus :: "chip \<Rightarrow> bus \<Rightarrow> u16 \<Rightarrow> u16 \<Rightarrow> byte list \<Rightarrow> u16 \<Rightarrow> (int \<times> byte list \<times> bus) res" where
  "bcm_read_bus chip h block page buffer bufferlen =
     bindR (bcm_wait not_busy chip (0xFF, h)) (\<lambda>(st, h).
     case bcm_read_registers chip (Some 0xFF) None None h of ((p, c, s), h) \<Rightarrow>
     bindR (bcm_wait not_busy chip
       (st, bcm_instr chip [WRITE_STATUS_REGISTER_L, STATUS_REGISTER_2_ADDR, read_mode (the p)] h)) (\<lambda>(st, h).
     bindR (bcm_wait not_busy chip (st, bcm_instr chip (PG_DATA_READ # row_bytes block page) h)) (\<lambda>(st, h).
     bindR (mem_read buffer 0 (unat bufferlen)) (\<lambda>old.
     case bcm_query chip [READ_DATA, 0, 0, 0] old h of (bs, h) \<Rightarrow>
     bindR (mem_write buffer 0 bs) (\<lambda>buffer'. Inr (OK, buffer', h))))))"

text \<open>The length is checked only after the write-enable; nothing waits for the end of the execute.\<close>

definition bcm_write_bus :: "chip \<Rightarrow> bus \<Rightarrow> u16 \<Rightarrow> u16 \<Rightarrow> byte list \<Rightarrow> u16 \<Rightarrow> (int \<times> bus) res" where
  "bcm_write_bus chip h block page buffer bufferlen =
     bindR (bcm_wait not_busy chip (0xFF, h)) (\<lambda>(st, h).
     bindR (bcm_wait not_busy chip (st, bcm_instr chip [WRITE_STATUS_REGISTER_L, STATUS_REGISTER_1_ADDR, 0] h)) (\<lambda>(st, h).
     bindR (bcm_wait write_enabled chip (st, bcm_instr chip [WRITE_ENABLE] h)) (\<lambda>(st, h).
     if unat bufferlen > 2112 - 3 then Inr (ERR, h)
     else bindR (mem_read buffer 0 (unat bufferlen)) (\<lambda>data.
     bindR (bcm_wait write_enabled chip
       (st, bcm_instr chip [WRITE_ENABLE] (bcm_instr chip ([RANDOM_PG_DATA_LOAD, 0, 0] @ data) h))) (\<lambda>(st, h).
     Inr (OK, bcm_instr chip (PG_EXECUTE # row_bytes block page) h))))))"

definition bcm_erase_bus :: "chip \<Rightarrow> bus \<Rightarrow> u16 \<Rightarrow> (int \<times> bus) res" where
  "bcm_erase_bus chip h block =
     bindR (bcm_wait not_busy chip (0xFF, h)) (\<lambda>(st, h).
     bindR (bcm_wait not_busy chip (st, bcm_instr chip [WRITE_STATUS_REGISTER_L, STATUS_REGISTER_1_ADDR, 0] h)) (\<lambda>(st, h).
     bindR (bcm_wait write_enabled chip (st, bcm_instr chip [WRITE_ENABLE] h)) (\<lambda>(st, h).
     Inr (OK, bcm_instr chip (BLOCK_ERASE # row_bytes block 0) h))))"

section \<open>Descriptors, creation and release\<close>

record bcm_dev =
  bcm_bus :: bus
  spi_fd :: int
  gpio_fd :: int

text \<open>What the operating system answers: the two \<open>open\<close>s, whether \<open>mmap\<close> succeeds, and the six set-up \<open>ioctl\<close>s.\<close>

record bcm_env =
  open_gpio :: int
  open_spi :: int
  mmap_ok :: bool
  setup_ioctls :: "int list"

definition bcm_create_gpio :: "bcm_env \<Rightarrow> bcm_dev \<Rightarrow> (int \<times> bcm_dev) res" where
  "bcm_create_gpio env d =
     (if open_gpio env > 0
      then if mmap_ok env
           then Inr (OK, d\<lparr>gpio_fd := open_gpio env, bcm_bus := bcm_bus d @
             [Hw ''GPFSEL0 &=~'' [7 * 2 ^ 15], Hw ''GPFSEL0 |='' [2 ^ 15], Hw ''GPCLR0'' [2 ^ 5],
              Hw ''GPFSEL0 &=~'' [7 * 2 ^ 18], Hw ''GPFSEL0 |='' [2 ^ 18], Hw ''GPSET0'' [2 ^ 6],
              Hw ''GPFSEL2 &=~'' [7 * 2 ^ 6], Hw ''GPFSEL2 |='' [2 ^ 6], Cs True,
              Hw ''GPFSEL1 &=~'' [7 * 2 ^ 3], Hw ''GPFSEL1 |='' [4 * 2 ^ 3], Hw ''GPSET0'' [2 ^ 11],
              Hw ''GPFSEL1 &=~'' [7], Hw ''GPFSEL1 |='' [4], Hw ''GPSET0'' [2 ^ 10],
              Hw ''GPFSEL0 &=~'' [7 * 2 ^ 27], Hw ''GPFSEL0 |='' [4 * 2 ^ 27], Hw ''GPSET0'' [2 ^ 9]]\<rparr>)
           else Inl Out_of_bounds
      else Inr (ERR, d\<lparr>gpio_fd := open_gpio env\<rparr>))"

definition bcm_release :: "bcm_dev \<Rightarrow> (int \<times> bcm_dev) res" where
  "bcm_release d = Inr (OK, d)"

text \<open>The identification: a failed transfer leaves the zeroed buffer, which is no known device.\<close>

definition bcm_create_spi :: "chip \<Rightarrow> bcm_env \<Rightarrow> bcm_dev \<Rightarrow> (int \<times> bcm_dev) res" where
  "bcm_create_spi chip env d =
     (let d1 = d\<lparr>spi_fd := open_spi env\<rparr> in
      if spi_fd d1 > 0 \<and> gpio_fd d1 > 0
      then if list_all (\<lambda>r. r \<ge> 0) (setup_ioctls env)
           then case bcm_query chip [JEDEC_ID, 0] (replicate 3 0)
                  (bcm_instr chip [DEVICE_RESET] (bcm_bus d1) @ [Delay 1000]) of (jid, h) \<Rightarrow>
                if jid \<noteq> [0xEF, 0xAA, 0x21] then Inl Panic else Inr (OK, d1\<lparr>bcm_bus := h\<rparr>)
           else Inr (ERR, d1)
      else Inr (OK, d1))"

definition on_bus :: "(bus \<Rightarrow> (int \<times> bus) res) \<Rightarrow> bcm_dev \<Rightarrow> (int \<times> bcm_dev) res" where
  "on_bus f d = bindR (f (bcm_bus d)) (\<lambda>(r, h). Inr (r, d\<lparr>bcm_bus := h\<rparr>))"

definition bcm_driver :: "chip \<Rightarrow> bcm_env \<Rightarrow> bcm_dev driver" where
  "bcm_driver chip env =
     \<lparr>drv_read = (\<lambda>d block page buffer n.
        bindR (bcm_read_bus chip (bcm_bus d) block page buffer n) (\<lambda>(r, b, h). Inr (r, b, d\<lparr>bcm_bus := h\<rparr>))),
      drv_write = (\<lambda>d block page buffer n. on_bus (\<lambda>h. bcm_write_bus chip h block page buffer n) d),
      drv_erase = (\<lambda>d block. on_bus (\<lambda>h. bcm_erase_bus chip h block) d),
      drv_create_gpio = bcm_create_gpio env, drv_release_gpio = bcm_release,
      drv_create_spi = bcm_create_spi chip env, drv_release_spi = bcm_release\<rparr>"

section \<open>The bus when no transfer fails\<close>

definition reliable :: "chip \<Rightarrow> bool" where
  "reliable chip \<longleftrightarrow> (\<forall>h. tx_ok chip h \<and> rx_ok chip h)"

lemma bcm_instr_reliable: "reliable chip \<Longrightarrow> bcm_instr chip cmd h = instr cmd h"
  by (simp add: bcm_instr_def bcm_tx_def instr_def reliable_def)

lemma bcm_query_reliable:
  "reliable chip \<Longrightarrow> \<exists>bs. bcm_query chip cmd old h = (bs, h @ [Cs False, Tx cmd, Rx bs, Cs True]) \<and> length bs = length old"
  by (simp add: bcm_query_def bcm_tx_def bcm_rx_def reliable_def Let_def rx_bytes_def)

lemma bcm_status_reader:
  assumes "reliable chip"
  shows "status_reader (bcm_status chip)"
proof
  fix st h
  obtain bs where q: "bcm_query chip [READ_STATUS_REGISTER_L, STATUS_REGISTER_3_ADDR] [st] h =
      (bs, h @ [Cs False, Tx [READ_STATUS_REGISTER_L, STATUS_REGISTER_3_ADDR], Rx bs, Cs True])" "length bs = 1"
    using bcm_query_reliable [OF assms, of _ "[st]"] by fastforce
  then have "bs = [hd bs]" by (cases bs) simp_all
  then show "\<exists>b. bcm_status chip st h = (b, h @ [Cs False, Tx [READ_STATUS_REGISTER_L, STATUS_REGISTER_3_ADDR], Rx [b], Cs True])"
    using q(1) by (simp add: bcm_status_def bcm_read_registers_def bcm_register_def)
qed

lemma bcm_wait_result:
  assumes "reliable chip" and "bcm_wait ready chip (st, h) = Inr (st', h')" and "bus_ok h"
  shows "ready st' \<and> bus_ok h' \<and> commands h' = commands h \<and> guard_after h' = (False, Some st')"
  using status_reader.wait_result [OF bcm_status_reader [OF assms(1)] _ assms(3), of ready 10 st st' h'] assms(2)
  by (auto simp: bcm_wait_def of_option_def split: option.splits)

definition bcm_write_commands :: "u16 \<Rightarrow> u16 \<Rightarrow> byte list \<Rightarrow> byte list list" where
  "bcm_write_commands block page data =
     [[WRITE_STATUS_REGISTER_L, STATUS_REGISTER_1_ADDR, 0], [WRITE_ENABLE], [RANDOM_PG_DATA_LOAD, 0, 0] @ data,
      [WRITE_ENABLE], PG_EXECUTE # row_bytes block page]"

definition bcm_erase_commands :: "u16 \<Rightarrow> byte list list" where
  "bcm_erase_commands block =
     [[WRITE_STATUS_REGISTER_L, STATUS_REGISTER_1_ADDR, 0], [WRITE_ENABLE], BLOCK_ERASE # row_bytes block 0]"

lemma bcm_erase_trace:
  assumes rel: "reliable chip" and "bcm_erase_bus chip h block = Inr (ret, h')" and "bus_ok h"
  shows "ret = OK \<and> bus_ok h' \<and> commands h' = commands h @ bcm_erase_commands block"
proof -
  let ?un = "[WRITE_STATUS_REGISTER_L, STATUS_REGISTER_1_ADDR, 0]"
  note i = bcm_instr_reliable [OF rel]
  from assms(2) obtain s1 h1 s2 h2 s3 h3 where
    w1: "bcm_wait not_busy chip (0xFF, h) = Inr (s1, h1)"
    and w2: "bcm_wait not_busy chip (s1, instr ?un h1) = Inr (s2, h2)"
    and w3: "bcm_wait write_enabled chip (s2, instr [WRITE_ENABLE] h2) = Inr (s3, h3)"
    and h': "h' = instr (BLOCK_ERASE # row_bytes block 0) h3" and ret: "ret = OK"
    by (auto simp: bcm_erase_bus_def bindR_eq_Inr i)
  note a1 = bcm_wait_result [OF rel w1 assms(3)]
  note c1 = instr_ok [of h1 ?un]
  note a2 = bcm_wait_result [OF rel w2]
  note c2 = instr_ok [of h2 "[WRITE_ENABLE]"]
  note a3 = bcm_wait_result [OF rel w3]
  note c3 = instr_ok [of h3 "BLOCK_ERASE # row_bytes block 0"]
  show ?thesis using a1 c1 a2 c2 a3 c3 h' ret by (simp add: bcm_erase_commands_def)
qed

lemma bcm_write_trace:
  assumes rel: "reliable chip" and "bcm_write_bus chip h block page buffer n = Inr (ret, h')" and "bus_ok h"
    and n: "unat n \<le> 2109"
  shows "ret = OK \<and> bus_ok h' \<and> commands h' = commands h @ bcm_write_commands block page (take (unat n) buffer)"
proof -
  let ?un = "[WRITE_STATUS_REGISTER_L, STATUS_REGISTER_1_ADDR, 0]"
  note i = bcm_instr_reliable [OF rel]
  from assms(2) n obtain s1 h1 s2 h2 s3 h3 data s4 h4 where
    w1: "bcm_wait not_busy chip (0xFF, h) = Inr (s1, h1)"
    and w2: "bcm_wait not_busy chip (s1, instr ?un h1) = Inr (s2, h2)"
    and w3: "bcm_wait write_enabled chip (s2, instr [WRITE_ENABLE] h2) = Inr (s3, h3)"
    and rd: "mem_read buffer 0 (unat n) = Inr data"
    and w4: "bcm_wait write_enabled chip (s3, instr [WRITE_ENABLE] (instr ([RANDOM_PG_DATA_LOAD, 0, 0] @ data) h3)) = Inr (s4, h4)"
    and h': "h' = instr (PG_EXECUTE # row_bytes block page) h4" and ret: "ret = OK"
    by (auto simp: bcm_write_bus_def bindR_eq_Inr i)
  have data: "data = take (unat n) buffer" using rd by (simp add: mem_read_eq_Inr)
  let ?ld = "[RANDOM_PG_DATA_LOAD, 0, 0] @ data"
  note a1 = bcm_wait_result [OF rel w1 assms(3)]
  note c1 = instr_ok [of h1 ?un]
  note a2 = bcm_wait_result [OF rel w2]
  note c2 = instr_ok [of h2 "[WRITE_ENABLE]"]
  note a3 = bcm_wait_result [OF rel w3]
  note c3 = instr_ok [of h3 ?ld]
  note c4 = instr_ok [of "instr ?ld h3" "[WRITE_ENABLE]"]
  note a4 = bcm_wait_result [OF rel w4]
  note c5 = instr_ok [of h4 "PG_EXECUTE # row_bytes block page"]
  show ?thesis using a1 c1 a2 c2 a3 c3 c4 a4 c5 h' ret data by (simp add: bcm_write_commands_def)
qed

lemma bcm_protected:
  assumes "reliable chip" and "bus_ok h"
  shows "\<exists>v h'. bcm_read_registers chip (Some x) None None h = ((Some v, None, None), h') \<and> bus_ok h' \<and> commands h' = commands h"
proof -
  obtain bs where q: "bcm_query chip [READ_STATUS_REGISTER_L, STATUS_REGISTER_1_ADDR] [x] h =
      (bs, h @ [Cs False, Tx [READ_STATUS_REGISTER_L, STATUS_REGISTER_1_ADDR], Rx bs, Cs True])"
    using bcm_query_reliable [OF assms(1)] by blast
  then show ?thesis using query_ok [OF assms(2), of "[READ_STATUS_REGISTER_L, STATUS_REGISTER_1_ADDR]" bs]
    by (simp add: bcm_read_registers_def bcm_register_def)
qed

lemma bcm_read_trace:
  assumes rel: "reliable chip" and "bcm_read_bus chip h block page buffer n = Inr (ret, buffer', h')" and "bus_ok h"
  shows "ret = OK \<and> bus_ok h' \<and> (\<exists>p bs. commands h' = commands h @ read_commands block page p \<and>
    length bs = unat n \<and> buffer' = bs @ drop (unat n) buffer)"
proof -
  let ?rm = "\<lambda>p. [WRITE_STATUS_REGISTER_L, STATUS_REGISTER_2_ADDR, read_mode p]"
  let ?rd = "[READ_DATA, 0, 0, 0] :: byte list"
  note i = bcm_instr_reliable [OF rel]
  from assms(2) obtain s1 h1 where w1: "bcm_wait not_busy chip (0xFF, h) = Inr (s1, h1)"
    by (auto simp: bcm_read_bus_def bindR_eq_Inr)
  note a1 = bcm_wait_result [OF rel w1 assms(3)]
  then obtain p h2 where r: "bcm_read_registers chip (Some 0xFF) None None h1 = ((Some p, None, None), h2)"
      and a2: "bus_ok h2" "commands h2 = commands h1"
    using bcm_protected [OF rel, of h1 "0xFF"] by blast
  from assms(2) obtain s3 h3 s4 h4 old where
    w3: "bcm_wait not_busy chip (s1, instr (?rm p) h2) = Inr (s3, h3)"
    and w4: "bcm_wait not_busy chip (s3, instr (PG_DATA_READ # row_bytes block page) h3) = Inr (s4, h4)"
    and rd: "mem_read buffer 0 (unat n) = Inr old"
    and fin: "(case bcm_query chip ?rd old h4 of (bs, h) \<Rightarrow> bindR (mem_write buffer 0 bs) (\<lambda>b. Inr (OK, b, h))) = Inr (ret, buffer', h')"
    by (auto simp: bcm_read_bus_def bindR_eq_Inr w1 r i)
  obtain bs where q: "bcm_query chip ?rd old h4 = (bs, h')" and wr: "mem_write buffer 0 bs = Inr buffer'" and ret: "ret = OK"
    using fin by (auto simp: bindR_eq_Inr split: prod.splits)
  note c2 = instr_ok [OF a2(1), of "?rm p"]
  note a3 = bcm_wait_result [OF rel w3]
  note c3 = instr_ok [of h3 "PG_DATA_READ # row_bytes block page"]
  note a4 = bcm_wait_result [OF rel w4]
  have h': "h' = h4 @ [Cs False, Tx ?rd, Rx bs, Cs True]" and len: "length bs = length old"
    using bcm_query_reliable [OF rel, of ?rd old h4] q by auto
  have "bus_ok h' \<and> commands h' = commands h @ read_commands block page p"
    using a1 a2 c2 a3 c3 a4 query_ok [of h4 ?rd bs] by (simp add: read_commands_def h')
  moreover have "length bs = unat n" "buffer' = bs @ drop (unat n) buffer"
    using wr len mem_read_length [OF rd] by (simp_all add: mem_write_eq_Inr)
  ultimately show ?thesis using ret by blast
qed

section \<open>The operations return\<close>

abbreviation (input) bcm_live :: "chip \<Rightarrow> bool" where
  "bcm_live chip \<equiv> live (sleeping 10) (bcm_status chip)"

lemma bcm_idle:
  assumes "reliable chip" and "bcm_live chip" and "bus_ok h"
  shows "\<exists>st' h'. bcm_wait not_busy chip (st, h) = Inr (st', h') \<and> idle_after h' \<and> bus_ok h'"
  using status_reader.idle_wait [OF bcm_status_reader [OF assms(1)] assms(2,3), of st] by (auto simp: bcm_wait_def of_option_def)

lemma bcm_idle_instr:
  assumes "reliable chip" and "bcm_live chip" and "bus_ok h" and "\<not> register_read cmd" and "\<not> changes_array cmd"
  shows "\<exists>st' h'. bcm_wait not_busy chip (st, instr cmd h) = Inr (st', h') \<and> idle_after h' \<and> bus_ok h'"
  using bcm_idle [OF assms(1,2)] instr_ok [OF assms(3) _ assms(4)] assms(5) by blast

lemma bcm_enabled:
  assumes "reliable chip" and "bcm_live chip" and "bus_ok h" and "idle_after h"
  shows "\<exists>st' h'. bcm_wait write_enabled chip (st, instr [WRITE_ENABLE] h) = Inr (st', h') \<and> idle_after h' \<and> bus_ok h'"
proof -
  have "bus_ok (instr [WRITE_ENABLE] h)" using instr_ok [OF assms(3), of "[WRITE_ENABLE]"] by simp
  from status_reader.enabled_wait [OF bcm_status_reader [OF assms(1)] assms(2) this, of st] assms(4) show ?thesis
    by (auto simp: bcm_wait_def of_option_def)
qed

lemma bcm_erase_returns:
  assumes rel: "reliable chip" and "bcm_live chip" and "bus_ok h"
  shows "\<exists>r. bcm_erase_bus chip h block = Inr r"
proof -
  let ?un = "[WRITE_STATUS_REGISTER_L, STATUS_REGISTER_1_ADDR, 0]"
  obtain s1 h1 where 1: "bcm_wait not_busy chip (0xFF, h) = Inr (s1, h1)" "bus_ok h1" using bcm_idle [OF assms] by blast
  obtain s2 h2 where 2: "bcm_wait not_busy chip (s1, instr ?un h1) = Inr (s2, h2)" "idle_after h2" "bus_ok h2"
    using bcm_idle_instr [OF assms(1,2) 1(2), where st = s1 and cmd = ?un] by auto
  obtain s3 h3 where 3: "bcm_wait write_enabled chip (s2, instr [WRITE_ENABLE] h2) = Inr (s3, h3)"
    using bcm_enabled [OF assms(1,2) 2(3,2)] by blast
  show ?thesis by (simp add: bcm_erase_bus_def bcm_instr_reliable [OF rel] 1 2 3)
qed

lemma bcm_write_returns:
  assumes rel: "reliable chip" and "bcm_live chip" and "bus_ok h" and n: "unat n \<le> 2109" and len: "unat n \<le> length buffer"
  shows "\<exists>r. bcm_write_bus chip h block page buffer n = Inr r"
proof -
  let ?un = "[WRITE_STATUS_REGISTER_L, STATUS_REGISTER_1_ADDR, 0]"
  let ?ld = "[RANDOM_PG_DATA_LOAD, 0, 0] @ take (unat n) buffer"
  obtain s1 h1 where 1: "bcm_wait not_busy chip (0xFF, h) = Inr (s1, h1)" "bus_ok h1" using bcm_idle [OF assms(1-3)] by blast
  obtain s2 h2 where 2: "bcm_wait not_busy chip (s1, instr ?un h1) = Inr (s2, h2)" "idle_after h2" "bus_ok h2"
    using bcm_idle_instr [OF assms(1,2) 1(2), where st = s1 and cmd = ?un] by auto
  obtain s3 h3 where 3: "bcm_wait write_enabled chip (s2, instr [WRITE_ENABLE] h2) = Inr (s3, h3)" "idle_after h3" "bus_ok h3"
    using bcm_enabled [OF assms(1,2) 2(3,2)] by blast
  have "bus_ok (instr ?ld h3)" and "idle_after (instr ?ld h3)" using instr_ok [OF 3(3), of ?ld] 3(2) by simp_all
  then obtain s4 h4 where 4: "bcm_wait write_enabled chip (s3, instr [WRITE_ENABLE] (instr ?ld h3)) = Inr (s4, h4)"
    using bcm_enabled [OF assms(1,2)] by blast
  have m: "mem_read buffer 0 (unat n) = Inr (take (unat n) buffer)" using len by (simp add: mem_read_def)
  show ?thesis using 4 n by (simp add: bcm_write_bus_def bcm_instr_reliable [OF rel] m 1 2 3)
qed

lemma bcm_read_returns:
  assumes rel: "reliable chip" and "bcm_live chip" and "bus_ok h" and len: "unat n \<le> length buffer"
  shows "\<exists>r. bcm_read_bus chip h block page buffer n = Inr r"
proof -
  obtain s1 h1 where 1: "bcm_wait not_busy chip (0xFF, h) = Inr (s1, h1)" "bus_ok h1" using bcm_idle [OF assms(1-3)] by blast
  obtain p h2 where 2: "bcm_read_registers chip (Some 0xFF) None None h1 = ((Some p, None, None), h2)" "bus_ok h2"
    using bcm_protected [OF rel 1(2), of "0xFF"] by blast
  let ?rm = "[WRITE_STATUS_REGISTER_L, STATUS_REGISTER_2_ADDR, read_mode p]"
  obtain s3 h3 where 3: "bcm_wait not_busy chip (s1, instr ?rm h2) = Inr (s3, h3)" "bus_ok h3"
    using bcm_idle_instr [OF assms(1,2) 2(2), where st = s1 and cmd = ?rm] by auto
  obtain s4 h4 where 4: "bcm_wait not_busy chip (s3, instr (PG_DATA_READ # row_bytes block page) h3) = Inr (s4, h4)"
    using bcm_idle_instr [OF assms(1,2) 3(2), where st = s3 and cmd = "PG_DATA_READ # row_bytes block page"] by auto
  have m: "mem_read buffer 0 (unat n) = Inr (take (unat n) buffer)" using len by (simp add: mem_read_def)
  obtain bs h5 where q: "bcm_query chip [READ_DATA, 0, 0, 0] (take (unat n) buffer) h4 = (bs, h5)" and "length bs = unat n"
    using bcm_query_reliable [OF rel, of "[READ_DATA, 0, 0, 0]" "take (unat n) buffer" h4] len by auto
  then have "mem_write buffer 0 bs = Inr (bs @ drop (unat n) buffer)" using len by (simp add: mem_write_def)
  then show ?thesis by (simp add: bcm_read_bus_def bcm_instr_reliable [OF rel] m q 1 2 3 4)
qed

section \<open>The bus when nothing is received\<close>

text \<open>With every receive failing, the status variable keeps its initial \<open>0xFF\<close>, which reads as busy: no operation returns.\<close>

lemma bcm_dead_status: "(\<And>h. \<not> rx_ok chip h) \<Longrightarrow> fst (bcm_status chip st h) = st"
  by (simp add: bcm_status_def bcm_read_registers_def bcm_register_def bcm_query_def bcm_rx_def)

lemma bcm_dead_wait:
  assumes "\<And>h. \<not> rx_ok chip h"
  shows "bcm_wait not_busy chip (0xFF, h) = Inl Spins"
proof (cases "poll not_busy 10 (bcm_status chip) 0xFF h")
  case None
  then show ?thesis by (simp add: bcm_wait_def of_option_def)
next
  case (Some r)
  have "not_busy (fst r) \<and> fst r = 0xFF"
    by (rule poll_result [OF Some, where I = "\<lambda>st k. st = 0xFF" and J = "\<lambda>st k. st = 0xFF"])
      (simp_all add: bcm_dead_status [OF assms])
  then show ?thesis by (auto simp: not_busy_def)
qed

lemma bcm_dead_bus:
  assumes "\<And>h. \<not> rx_ok chip h"
  shows "bcm_read_bus chip h block page buffer n = Inl Spins \<and> bcm_write_bus chip h block page buffer n = Inl Spins \<and>
    bcm_erase_bus chip h block = Inl Spins"
  by (simp add: bcm_read_bus_def bcm_write_bus_def bcm_erase_bus_def bcm_dead_wait [OF assms])

end
