(* ===== verification/Bcm2711_Flash.thy ===== *)
theory Bcm2711_Flash
  imports Nand_Chip Driver_Bcm2711
begin

text \<open>
  The BCM2711 driver over the chip. Reads and erases are those of a flash device, but a write is not: it sends only
  the bytes given, by a random program load, which leaves the rest of the chip's buffer as it was. What the page then holds
  behind its data is whatever the buffer held before.
\<close>

locale bcm_nand = nand_chip +
  assumes no_failure: "reliable chip" and live: "live (sleeping 10) (bcm_status chip)"

sublocale bcm_nand \<subseteq> polled: polled_chip chip arr cache "bcm_status chip" 10
  by (intro polled_chip.intro polled_chip_axioms.intro nand_chip_axioms bcm_status_reader no_failure live)

context bcm_nand
begin

lemma idle:
  assumes "bus_ok h"
  shows "\<exists>st' h'. bcm_wait not_busy chip (st, h) = Inr (st', h') \<and> bus_ok h' \<and> idle_after h' \<and> same_chip h h'"
  using polled.idle_poll [OF assms, of st] by (auto simp: bcm_wait_def of_option_def)

lemma enable_wait:
  assumes "bus_ok h" and "idle_after h"
  shows "\<exists>st' h'. bcm_wait write_enabled chip (st, instr [WRITE_ENABLE] h) = Inr (st', h') \<and> bus_ok h' \<and> idle_after h' \<and>
    same_chip (instr [WRITE_ENABLE] h) h' \<and> armed_after h' \<and> guard_after h' = (False, Some st') \<and> write_enabled st'"
  using polled.enable_poll [OF assms, of st] by (auto simp: bcm_wait_def of_option_def)

lemma sends: "bcm_instr chip cmd h = instr cmd h"
  by (rule bcm_instr_reliable [OF no_failure])

text \<open>The page after a write: the data, then what the buffer held.\<close>

lemma write_stale:
  assumes ok: "bus_ok h" and v: "valid_pos (unat block) (unat page)" and n: "unat n \<le> PAGE_SIZE" "unat n \<le> length data"
    and blank: "arr h (unat block) (unat page) = blank_page"
  shows "\<exists>h'. bcm_write_bus chip h block page data n = Inr (OK, h') \<and> bus_ok h' \<and>
    same_flash (arr h') (replace_page (arr h) (unat block) (unat page) (take PAGE_SIZE (take (unat n) data @ drop (unat n) (cache h))))"
proof -
  let ?un = "[WRITE_STATUS_REGISTER_L, STATUS_REGISTER_1_ADDR, 0] :: byte list" and ?we = "[WRITE_ENABLE] :: byte list"
  let ?D = "take (unat n) data"
  let ?ld = "[RANDOM_PG_DATA_LOAD, 0, 0] @ ?D" and ?ex = "PG_EXECUTE # row_bytes block page"
  have lenD: "length ?D = unat n" using n by simp
  obtain s1 h1 where 1: "bcm_wait not_busy chip (0xFF, h) = Inr (s1, h1)" "bus_ok h1" "same_chip h h1"
    using idle [OF ok] by blast
  note i1 = quiet_instr [OF 1(2), of ?un, simplified]
  obtain s2 h2 where 2: "bcm_wait not_busy chip (s1, instr ?un h1) = Inr (s2, h2)" "bus_ok h2" "idle_after h2" "same_chip (instr ?un h1) h2"
    using idle [OF i1(1)] by blast
  note i2 = quiet_instr [OF 2(2), of ?we, simplified]
  obtain s3 h3 where 3: "bcm_wait write_enabled chip (s2, instr ?we h2) = Inr (s3, h3)" "bus_ok h3" "idle_after h3" "same_chip (instr ?we h2) h3"
    using enable_wait [OF 2(2,3)] by blast
  have ok3: "bus_ok (instr ?ld h3)" "idle_after (instr ?ld h3)" using instr_ok [OF 3(2), of ?ld] 3(3) by simp_all
  note i3 = quiet_instr [OF ok3(1), of ?we, simplified]
  obtain s4 h4 where 4: "bcm_wait write_enabled chip (s3, instr ?we (instr ?ld h3)) = Inr (s4, h4)" "bus_ok h4"
      "same_chip (instr ?we (instr ?ld h3)) h4" "armed_after h4" "guard_after h4 = (False, Some s4)" "write_enabled s4"
    using enable_wait [OF ok3] by blast
  have ok4: "bus_ok (instr ?ex h4)" using instr_ok [OF 4(2), of ?ex] 4(5,6) by auto
  have m: "mem_read data 0 (unat n) = Inr ?D" using n by (simp add: mem_read_def)
  have run: "bcm_write_bus chip h block page data n = Inr (OK, instr ?ex h4)"
    using n 4(1) by (simp add: bcm_write_bus_def sends m 1(1) 2(1) 3(1))
  have "last_written STATUS_REGISTER_1_ADDR h3 = Some 0"
    using same_chipD(3) [OF 2(4)] unprotect_instr same_chipD(3) [OF 3(4)] i2(4) by (simp add: register_write_def)
  then have "last_written STATUS_REGISTER_1_ADDR (instr ?we (instr ?ld h3)) = Some 0"
    by (simp add: register_write_def row_bytes_def del: last_written_instr)
      (simp add: last_written_append instr_def register_write_def)
  then have u4: "unprotected h4" using same_chipD(3) [OF 4(3)] by (simp add: unprotected_def)
  have kld: "same_flash (arr (instr ?ld h3)) (arr h3)" unfolding instr_def by (rule arr_kept) simp
  have a4: "same_flash (arr h4) (arr h)"
    using same_chipD(1) [OF 1(3)] i1(2) same_chipD(1) [OF 2(4)] i2(2) same_chipD(1) [OF 3(4)] kld i3(2) same_chipD(1) [OF 4(3)]
    by (simp add: same_flash_def)
  have "cache h3 = cache h"
    using same_chipD(2) [OF 1(3)] i1(3) same_chipD(2) [OF 2(4)] i2(3) same_chipD(2) [OF 3(4)] by simp
  then have c4: "cache h4 = ?D @ drop (unat n) (cache h)"
    using same_chipD(2) [OF 4(3)] i3(3) load [OF 3(3), of ?D] lenD n by simp
  have "arr h4 (unat block) (unat page) = blank_page" using a4 blank v by (simp add: same_flash_def)
  from execute [OF 4(4,5,6) u4 v this]
  have "same_flash (arr (instr ?ex h4)) (replace_page (arr h) (unat block) (unat page) (take PAGE_SIZE (?D @ drop (unat n) (cache h))))"
    unfolding c4 by (rule same_flash_trans) (rule replace_same_flash [OF a4])
  then show ?thesis using run ok4 by blast
qed

text \<open>A read leaves the page it read in the buffer.\<close>

lemma read_fills_buffer:
  assumes ok: "bus_ok h" and u: "unprotected h" and v: "valid_pos (unat block) (unat page)"
    and n: "unat n \<le> PAGE_SIZE" "unat n \<le> length buf"
  shows "\<exists>h'. bcm_read_bus chip h block page buf n = Inr (OK, take (unat n) (arr h (unat block) (unat page)) @ drop (unat n) buf, h') \<and>
    bus_ok h' \<and> unprotected h' \<and> same_flash (arr h') (arr h) \<and> take PAGE_SIZE (cache h') = arr h (unat block) (unat page)"
proof -
  let ?pg = "PG_DATA_READ # row_bytes block page"
  let ?rd = "[READ_DATA, 0, 0, 0] :: byte list" and ?r1 = "[READ_STATUS_REGISTER_L, STATUS_REGISTER_1_ADDR] :: byte list"
  have query: "bcm_query chip cmd old k = (let bs = rx_bytes chip (k @ [Cs False, Tx cmd]) (length old) in
      (bs, k @ [Cs False, Tx cmd, Rx bs, Cs True]))" for cmd old k
    using no_failure by (simp add: bcm_query_def bcm_tx_def bcm_rx_def reliable_def Let_def)
  obtain s1 h1 where 1: "bcm_wait not_busy chip (0xFF, h) = Inr (s1, h1)" "bus_ok h1" "same_chip h h1"
    using idle [OF ok] by blast
  define k1 where "k1 = h1 @ [Cs False, Tx ?r1, Rx [0], Cs True]"
  have "rx_byte chip (h1 @ [Cs False, Tx ?r1]) 0 = 0" using protection same_chipD(4) [OF 1(3)] u by blast
  then have q: "bcm_read_registers chip (Some 0xFF) None None h1 = ((Some 0, None, None), k1)"
    by (simp add: bcm_read_registers_def bcm_register_def query rx_bytes_def k1_def Let_def)
  have k1: "bus_ok k1" "same_chip h1 k1"
    unfolding k1_def using query_ok [OF 1(2), of ?r1 "[0]"] query_same_chip by (simp_all add: changes_array_def)
  let ?rm = "[WRITE_STATUS_REGISTER_L, STATUS_REGISTER_2_ADDR, read_mode 0]"
  note i2 = quiet_instr [OF k1(1), of ?rm, simplified]
  obtain s3 h3 where 3: "bcm_wait not_busy chip (s1, instr ?rm k1) = Inr (s3, h3)" "bus_ok h3" "idle_after h3" "same_chip (instr ?rm k1) h3"
    using idle [OF i2(1)] by blast
  have ok3: "bus_ok (instr ?pg h3)" using instr_ok [OF 3(2), of ?pg] by simp
  obtain s4 h4 where 4: "bcm_wait not_busy chip (s3, instr ?pg h3) = Inr (s4, h4)" "bus_ok h4" "idle_after h4" "same_chip (instr ?pg h3) h4"
    using idle [OF ok3] by blast
  have "buffer_mode (instr ?rm k1)" by (simp add: buffer_mode_def register_write_def read_mode_def)
  then have m3: "buffer_mode h3" using same_chipD(5) [OF 3(4)] by simp
  have "buffer_mode (instr ?pg h3)" using m3 by (simp add: buffer_mode_def register_write_def row_bytes_def)
  then have m4: "buffer_mode h4" using same_chipD(5) [OF 4(4)] by simp
  have a3: "same_flash (arr h3) (arr h)"
    using same_chipD(1) [OF 1(3)] same_chipD(1) [OF k1(2)] i2(2) same_chipD(1) [OF 3(4)] by (simp add: same_flash_def)
  have c4: "take PAGE_SIZE (cache h4) = arr h (unat block) (unat page)"
    using same_chipD(2) [OF 4(4)] page_read [OF 3(3) m3 v] same_flashD [OF a3 v] by simp
  define bs where "bs = take (unat n) (arr h (unat block) (unat page))"
  have "rx_bytes chip (h4 @ [Cs False, Tx ?rd]) (unat n) = take (unat n) (cache h4)"
    unfolding rx_bytes_def using n cache_length [of h4]
    by (intro nth_equalityI) (simp_all add: read_data [OF 4(3) m4])
  also have "\<dots> = bs" using n unfolding bs_def c4 [symmetric] by (simp add: min_def)
  finally have rx: "rx_bytes chip (h4 @ [Cs False, Tx ?rd]) (unat n) = bs" .
  define h5 where "h5 = h4 @ [Cs False, Tx ?rd, Rx bs, Cs True]"
  have m: "mem_read buf 0 (unat n) = Inr (take (unat n) buf)" using n by (simp add: mem_read_def)
  have q4: "bcm_query chip ?rd (take (unat n) buf) h4 = (bs, h5)"
    using n rx by (simp add: query h5_def Let_def min_def)
  have len: "length bs = unat n" using n arr_length [OF v] by (simp add: bs_def)
  have w: "mem_write buf 0 bs = Inr (bs @ drop (unat n) buf)" using n len by (simp add: mem_write_def)
  have run: "bcm_read_bus chip h block page buf n = Inr (OK, bs @ drop (unat n) buf, h5)"
    by (simp add: bcm_read_bus_def sends 1(1) q 3(1) 4(1) m q4 w)
  have ok5: "bus_ok h5" using query_ok [OF 4(2), of ?rd bs] by (simp add: h5_def)
  have kpg: "same_flash (arr (instr ?pg h3)) (arr h3)" unfolding instr_def by (rule arr_kept) simp
  have "same_flash (arr h5) (arr h4)" unfolding h5_def by (rule arr_kept) simp
  then have a5: "same_flash (arr h5) (arr h)" using a3 kpg same_chipD(1) [OF 4(4)] by (simp add: same_flash_def)
  have "last_written STATUS_REGISTER_1_ADDR h5 = last_written STATUS_REGISTER_1_ADDR h"
    using same_chipD(3) [OF 1(3)] same_chipD(3) [OF k1(2)] i2(4) same_chipD(3) [OF 3(4)] same_chipD(3) [OF 4(4)]
    by (simp add: h5_def register_write_def row_bytes_def)
  then have "unprotected h5" using u by (simp add: unprotected_def)
  moreover have "cache h5 = cache h4" unfolding h5_def by (rule cache_kept) simp
  ultimately show ?thesis using run ok5 a5 c4 by (simp add: bs_def)
qed

text \<open>A read followed by a shorter write leaves the rest of the page read behind the data written.\<close>

lemma read_then_write:
  assumes ok: "bus_ok h" and u: "unprotected h" and v1: "valid_pos (unat b1) (unat p1)" and v2: "valid_pos (unat b2) (unat p2)"
    and k: "unat k \<le> PAGE_SIZE" "unat k \<le> length buf" and n: "unat n \<le> PAGE_SIZE" "unat n \<le> length data"
    and blank: "arr h (unat b2) (unat p2) = blank_page"
  shows "\<exists>bs h1 h2. bcm_read_bus chip h b1 p1 buf k = Inr (OK, bs, h1) \<and> bcm_write_bus chip h1 b2 p2 data n = Inr (OK, h2) \<and>
    arr h2 (unat b2) (unat p2) = take (unat n) data @ drop (unat n) (arr h (unat b1) (unat p1))"
proof -
  obtain h1 where r: "bcm_read_bus chip h b1 p1 buf k = Inr (OK, take (unat k) (arr h (unat b1) (unat p1)) @ drop (unat k) buf, h1)"
      "bus_ok h1" "same_flash (arr h1) (arr h)" and c: "take PAGE_SIZE (cache h1) = arr h (unat b1) (unat p1)"
    using read_fills_buffer [OF ok u v1 k] by blast
  have "arr h1 (unat b2) (unat p2) = blank_page" using same_flashD [OF r(3) v2] blank by simp
  from write_stale [OF r(2) v2 n this] obtain h2 where w: "bcm_write_bus chip h1 b2 p2 data n = Inr (OK, h2)"
    and s: "same_flash (arr h2) (replace_page (arr h1) (unat b2) (unat p2) (take PAGE_SIZE (take (unat n) data @ drop (unat n) (cache h1))))"
    by blast
  have "arr h2 (unat b2) (unat p2) = take PAGE_SIZE (take (unat n) data @ drop (unat n) (cache h1))"
    using same_flashD [OF s v2] by (simp add: replace_page_def)
  also have "\<dots> = take (unat n) data @ drop (unat n) (take PAGE_SIZE (cache h1))"
    using n by (simp add: drop_take min_def)
  finally show ?thesis using r(1) w c by auto
qed

end

end
