(* ===== verification/Parent_Nand.thy ===== *)
theory Parent_Nand
  imports Driver_Bcm2711
begin

text \<open>
  The NAND operations of the parent tool (\<open>sw/parent/src\<close>: \<open>spi.cc\<close>, \<open>read.cc\<close>, \<open>write.cc\<close>,
  \<open>erase.cc\<close>). Each call makes one step of a state machine whose state is the caller's \<open>status\<close>
  byte, and answers whether the operation is done; the callers in \<open>format.cc\<close> repeat the call until it is. Its transfers
  are \<open>ioctl\<close>s as in the BCM2711 driver, without the \<open>malloc\<close>.
\<close>

section \<open>Results and registers\<close>

abbreviation (input) NOT_DONE :: int where "NOT_DONE \<equiv> 0"
abbreviation (input) DONE :: int where "DONE \<equiv> 1"
abbreviation (input) WRITE_EXCEPTION :: int where "WRITE_EXCEPTION \<equiv> -1"

definition par_tx :: "chip \<Rightarrow> byte list \<Rightarrow> bus \<Rightarrow> bus" where
  "par_tx chip bs h = (if tx_ok chip h then h @ [Tx bs] else h)"

definition par_rx :: "chip \<Rightarrow> byte list \<Rightarrow> bus \<Rightarrow> byte list \<times> bus" where
  "par_rx chip old h =
     (if rx_ok chip h then (let bs = rx_bytes chip h (length old) in (bs, h @ [Rx bs])) else (old, h))"

definition par_instr :: "chip \<Rightarrow> byte list \<Rightarrow> bus \<Rightarrow> bus" where
  "par_instr chip cmd h = par_tx chip cmd (h @ [Cs False]) @ [Cs True]"

definition par_query :: "chip \<Rightarrow> byte list \<Rightarrow> byte list \<Rightarrow> bus \<Rightarrow> byte list \<times> bus" where
  "par_query chip cmd old h =
     (case par_rx chip old (par_tx chip cmd (h @ [Cs False])) of (bs, h') \<Rightarrow> (bs, h' @ [Cs True]))"

definition par_register :: "chip \<Rightarrow> byte \<Rightarrow> byte option \<Rightarrow> bus \<Rightarrow> byte option \<times> bus" where
  "par_register chip addr flg h =
     (case flg of
        None \<Rightarrow> (None, h)
      | Some old \<Rightarrow> (case par_query chip [READ_STATUS_REGISTER_L, addr] [old] h of (bs, h') \<Rightarrow> (Some (hd bs), h')))"

definition par_read_registers ::
  "chip \<Rightarrow> byte option \<Rightarrow> byte option \<Rightarrow> byte option \<Rightarrow> bus \<Rightarrow> (byte option \<times> byte option \<times> byte option) \<times> bus" where
  "par_read_registers chip flg_protected flg_config flg_status h =
     (case par_register chip STATUS_REGISTER_1_ADDR flg_protected h of (p, h1) \<Rightarrow>
      case par_register chip STATUS_REGISTER_2_ADDR flg_config h1 of (c, h2) \<Rightarrow>
      case par_register chip STATUS_REGISTER_3_ADDR flg_status h2 of (s, h3) \<Rightarrow> ((p, c, s), h3))"

definition par_status :: "chip \<Rightarrow> bus \<Rightarrow> byte \<times> bus" where
  "par_status chip h = (case par_read_registers chip None None (Some 0xFF) h of ((p, c, s), h') \<Rightarrow> (the s, h'))"

section \<open>Reading\<close>

text \<open>The step both readers share, up to the buffer that receives the data.\<close>

definition read_step :: "chip \<Rightarrow> u16 \<Rightarrow> u16 \<Rightarrow> byte list \<Rightarrow> byte \<times> bus \<Rightarrow> int \<times> byte list \<times> byte \<times> bus" where
  "read_step chip block page rbf = (\<lambda>(status, h).
     case par_status chip h of (st, h) \<Rightarrow>
     if \<not> not_busy st then (NOT_DONE, rbf, status, h)
     else if status = DEVICE_RESET
     then (case par_read_registers chip (Some 0xFF) None None h of ((p, c, s), h) \<Rightarrow>
           (NOT_DONE, rbf, PG_DATA_READ,
            par_instr chip [WRITE_STATUS_REGISTER_L, STATUS_REGISTER_2_ADDR, read_mode (the p)] h))
     else if status = PG_DATA_READ
     then (NOT_DONE, rbf, READ_DATA, par_instr chip (PG_DATA_READ # row_bytes block page) h)
     else if status = READ_DATA
     then (case par_query chip [READ_DATA, 0, 0, 0] rbf h of (bs, h) \<Rightarrow> (DONE, bs, DEVICE_RESET, h))
     else (NOT_DONE, rbf, status, h))"

text \<open>The 32 bytes are read into a local buffer, and only their magic is printed.\<close>

definition read_initialize :: "chip \<Rightarrow> u16 \<Rightarrow> byte \<times> bus \<Rightarrow> int \<times> byte \<times> bus" where
  "read_initialize chip block s =
     (case read_step chip block 0 (replicate 32 0) s of (ret, rbf, status, h) \<Rightarrow> (ret, status, h))"

definition read_by_block_page :: "chip \<Rightarrow> u16 \<Rightarrow> u16 \<Rightarrow> byte list \<Rightarrow> byte \<times> bus \<Rightarrow> int \<times> byte list \<times> byte \<times> bus" where
  "read_by_block_page chip block page rbf s = read_step chip block page rbf s"

section \<open>Writing and erasing\<close>

definition write_block_page ::
  "chip \<Rightarrow> u16 \<Rightarrow> u16 \<Rightarrow> byte list \<Rightarrow> u16 \<Rightarrow> byte \<times> bus \<Rightarrow> (int \<times> byte \<times> bus) res" where
  "write_block_page chip block page wbf wbflen = (\<lambda>(status, h).
     case par_status chip h of (st, h) \<Rightarrow>
     if \<not> not_busy st then Inr (NOT_DONE, status, h)
     else if status = DEVICE_RESET
     then Inr (NOT_DONE, WRITE_ENABLE, par_instr chip [WRITE_STATUS_REGISTER_L, STATUS_REGISTER_1_ADDR, 0] h)
     else if status = WRITE_ENABLE
     then Inr (NOT_DONE, WRITE_DISABLE, par_instr chip [WRITE_ENABLE] h)
     else if status = WRITE_DISABLE
     then if st AND STATUS_REGISTER_3_WEL \<noteq> 0
          then if unat wbflen > 2112 - 3 then Inr (WRITE_EXCEPTION, status, h)
               else bindR (mem_read wbf 0 (unat wbflen)) (\<lambda>data.
                    Inr (NOT_DONE, RANDOM_PG_DATA_LOAD, par_instr chip ([RANDOM_PG_DATA_LOAD, 0, 0] @ data) h))
          else Inr (NOT_DONE, status, h)
     else if status = RANDOM_PG_DATA_LOAD
     then Inr (NOT_DONE, PG_EXECUTE, par_instr chip [WRITE_ENABLE] h)
     else if status = PG_EXECUTE \<and> st AND STATUS_REGISTER_3_WEL \<noteq> 0
     then Inr (DONE, DEVICE_RESET, par_instr chip (PG_EXECUTE # row_bytes block page) h)
     else Inr (NOT_DONE, status, h))"

definition erase_block :: "chip \<Rightarrow> u16 \<Rightarrow> byte \<times> bus \<Rightarrow> int \<times> byte \<times> bus" where
  "erase_block chip block = (\<lambda>(status, h).
     case par_read_registers chip (Some 0xFF) (Some 0xFF) (Some 0xFF) h of ((p, c, s), h) \<Rightarrow>
     let st = the s in
     if \<not> not_busy st then (NOT_DONE, status, h)
     else if status = DEVICE_RESET
     then (NOT_DONE, WRITE_ENABLE, par_instr chip [WRITE_STATUS_REGISTER_L, STATUS_REGISTER_1_ADDR, 0] h)
     else if status = WRITE_ENABLE
     then (NOT_DONE, BLOCK_ERASE, par_instr chip [WRITE_ENABLE] h)
     else if status = BLOCK_ERASE \<and> st AND STATUS_REGISTER_3_WEL \<noteq> 0
     then (DONE, DEVICE_RESET, par_instr chip (BLOCK_ERASE # row_bytes block 0) h)
     else (NOT_DONE, status, h))"

section \<open>The loops of the callers\<close>

text \<open>\<open>while(1) { ret = step; if (ret == DONE) break; usleep(us); }\<close>: it ends with the state, or with the fault of a step.\<close>

partial_function (option) repeat_until ::
  "('s \<Rightarrow> (int \<times> 's) res) \<Rightarrow> ('s \<Rightarrow> 's) \<Rightarrow> 's \<Rightarrow> 's res option" where
  "repeat_until step pause s =
     (case step s of
        Inl e \<Rightarrow> Some (Inl e)
      | Inr (ret, s') \<Rightarrow> if ret = DONE then Some (Inr s') else repeat_until step pause (pause s'))"

definition pause_us :: "nat \<Rightarrow> byte \<times> bus \<Rightarrow> byte \<times> bus" where
  "pause_us us = (\<lambda>(status, h). (status, h @ [Delay us]))"

definition write_page :: "chip \<Rightarrow> u16 \<Rightarrow> u16 \<Rightarrow> byte list \<Rightarrow> u16 \<Rightarrow> byte \<times> bus \<Rightarrow> (byte \<times> bus) res option" where
  "write_page chip block page wbf wbflen = repeat_until (write_block_page chip block page wbf wbflen) (pause_us 1000)"

definition erase_one :: "chip \<Rightarrow> u16 \<Rightarrow> byte \<times> bus \<Rightarrow> (byte \<times> bus) res option" where
  "erase_one chip block = repeat_until (\<lambda>s. Inr (erase_block chip block s)) id"

definition read_page :: "chip \<Rightarrow> u16 \<Rightarrow> u16 \<Rightarrow> byte list \<times> byte \<times> bus \<Rightarrow> (byte list \<times> byte \<times> bus) res option" where
  "read_page chip block page = repeat_until (\<lambda>(rbf, s). Inr (read_by_block_page chip block page rbf s)) id"

section \<open>Lemmas on the loops\<close>

text \<open>What holds of every outcome of a run: of its fault or of its value. A run that never ends has none.\<close>

definition run_all :: "(fault \<Rightarrow> bool) \<Rightarrow> ('a \<Rightarrow> bool) \<Rightarrow> 'a res option \<Rightarrow> bool" where
  "run_all E P m = (case m of None \<Rightarrow> True | Some (Inl e) \<Rightarrow> E e | Some (Inr x) \<Rightarrow> P x)"

lemma run_all_simps [simp]: "run_all E P None" "run_all E P (Some (Inl e)) = E e" "run_all E P (Some (Inr x)) = P x"
  by (simp_all add: run_all_def)

lemma run_all_repeat:
  assumes "I s" and "\<And>s. I s \<Longrightarrow> case step s of Inl e \<Rightarrow> E e | Inr (ret, s') \<Rightarrow> if ret = DONE then Q s' else I (pause s')"
  shows "run_all E Q (repeat_until step pause s)"
proof -
  have "I s \<Longrightarrow> (\<And>s. I s \<Longrightarrow> case step s of Inl e \<Rightarrow> E e | Inr (ret, s') \<Rightarrow> if ret = DONE then Q s' else I (pause s')) \<Longrightarrow>
      run_all E Q (Some y)" if "repeat_until step pause s = Some y" for y
    using that
  proof (induction step pause s y rule: repeat_until.raw_induct [rotated, consumes 1, case_names 1])
    case (1 rec step pause s y)
    show ?case
    proof (cases "step s")
      case (Inl e)
      then show ?thesis using 1(2) 1(4) [OF 1(3)] by auto
    next
      case (Inr p)
      obtain ret s' where p: "step s = Inr (ret, s')" using Inr by (cases p) simp
      show ?thesis
      proof (cases "ret = DONE")
        case True
        then show ?thesis using 1(2) 1(4) [OF 1(3)] p by auto
      next
        case False
        then have r: "rec step pause (pause s') = Some y" using 1(2) p by simp
        have "I (pause s')" using 1(4) [OF 1(3)] False p by simp
        from 1(1) [OF r this 1(4)] show ?thesis .
      qed
    qed
  qed
  then show ?thesis using assms by (cases "repeat_until step pause s") auto
qed

lemma repeat_until_result:
  assumes "repeat_until step pause s = Some (Inr r)" and "I s"
    and "\<And>s ret s'. I s \<Longrightarrow> step s = Inr (ret, s') \<Longrightarrow> ret = DONE \<Longrightarrow> Q s'"
    and "\<And>s ret s'. I s \<Longrightarrow> step s = Inr (ret, s') \<Longrightarrow> ret \<noteq> DONE \<Longrightarrow> I (pause s')"
  shows "Q r"
proof -
  have "run_all (\<lambda>e. True) Q (repeat_until step pause s)"
    by (rule run_all_repeat [where I = I]) (use assms(2-4) in \<open>auto split: sum.splits\<close>)
  then show ?thesis by (simp add: assms(1))
qed

text \<open>What the tool puts on the bus for an instruction or a query is what the BCM2711 driver puts there.\<close>

lemma par_bcm: "par_instr = bcm_instr" "par_query = bcm_query" "par_read_registers = bcm_read_registers"
proof -
  show i: "par_instr = bcm_instr" and q: "par_query = bcm_query"
    by (simp_all add: fun_eq_iff par_instr_def bcm_instr_def par_query_def bcm_query_def
        par_tx_def bcm_tx_def par_rx_def bcm_rx_def)
  have "par_register = bcm_register"
    unfolding fun_eq_iff par_register_def bcm_register_def q by simp
  then show "par_read_registers = bcm_read_registers"
    by (simp add: fun_eq_iff par_read_registers_def bcm_read_registers_def)
qed

lemma par_status_ok:
  assumes rel: "reliable chip" and "bus_ok h" and "par_status chip h = (st, h')"
  shows "bus_ok h' \<and> commands h' = commands h \<and> guard_after h' = (False, Some st)"
proof -
  have "bcm_status chip 0xFF h = (st, h')"
    using assms(3) by (simp add: par_status_def bcm_status_def par_bcm)
  then show ?thesis
    using status_reader.read_keeps [OF bcm_status_reader [OF rel] assms(2), of "0xFF"] by simp
qed

text \<open>The erase also reads the other two registers, before the status.\<close>

lemma par_all_registers_ok:
  assumes rel: "reliable chip" and ok: "bus_ok h"
    and "par_read_registers chip (Some a) (Some b) (Some c) h = ((p, q, s), h')"
  shows "bus_ok h' \<and> commands h' = commands h \<and> guard_after h' = (False, s) \<and> s \<noteq> None"
proof -
  have reg: "\<exists>v. bcm_register chip addr (Some x) k =
      (Some v, k @ [Cs False, Tx [READ_STATUS_REGISTER_L, addr], Rx [v], Cs True])" for addr x k
  proof -
    obtain bs where q: "bcm_query chip [READ_STATUS_REGISTER_L, addr] [x] k =
        (bs, k @ [Cs False, Tx [READ_STATUS_REGISTER_L, addr], Rx bs, Cs True])" "length bs = 1"
      using bcm_query_reliable [OF rel, of _ "[x]"] by fastforce
    then have "bs = [hd bs]" by (cases bs) simp_all
    then show ?thesis using q(1) by (simp add: bcm_register_def)
  qed
  have keep: "bus_ok (k @ [Cs False, Tx [READ_STATUS_REGISTER_L, addr], Rx [v], Cs True]) \<and>
      commands (k @ [Cs False, Tx [READ_STATUS_REGISTER_L, addr], Rx [v], Cs True]) = commands k" if "bus_ok k" for k addr v
    using query_ok [OF that, of "[READ_STATUS_REGISTER_L, addr]" "[v]"] by simp
  obtain v1 where r1: "bcm_register chip STATUS_REGISTER_1_ADDR (Some a) h =
      (Some v1, h @ [Cs False, Tx [READ_STATUS_REGISTER_L, STATUS_REGISTER_1_ADDR], Rx [v1], Cs True])"
    using reg by blast
  define h1 where "h1 = h @ [Cs False, Tx [READ_STATUS_REGISTER_L, STATUS_REGISTER_1_ADDR], Rx [v1], Cs True]"
  obtain v2 where r2: "bcm_register chip STATUS_REGISTER_2_ADDR (Some b) h1 =
      (Some v2, h1 @ [Cs False, Tx [READ_STATUS_REGISTER_L, STATUS_REGISTER_2_ADDR], Rx [v2], Cs True])"
    using reg by blast
  define h2 where "h2 = h1 @ [Cs False, Tx [READ_STATUS_REGISTER_L, STATUS_REGISTER_2_ADDR], Rx [v2], Cs True]"
  obtain v3 where r3: "bcm_register chip STATUS_REGISTER_3_ADDR (Some c) h2 =
      (Some v3, h2 @ [Cs False, Tx [READ_STATUS_REGISTER_L, STATUS_REGISTER_3_ADDR], Rx [v3], Cs True])"
    using reg by blast
  have h': "h' = h2 @ [Cs False, Tx [READ_STATUS_REGISTER_L, STATUS_REGISTER_3_ADDR], Rx [v3], Cs True]" and s: "s = Some v3"
    using assms(3) r1 r2 r3 by (simp_all add: par_bcm bcm_read_registers_def h1_def [symmetric] h2_def [symmetric])
  have k1: "bus_ok h1 \<and> commands h1 = commands h" unfolding h1_def by (rule keep [OF ok])
  then have k2: "bus_ok h2 \<and> commands h2 = commands h" using keep [of h1] unfolding h2_def by metis
  then have "bus_ok h' \<and> commands h' = commands h" using keep [of h2] unfolding h' by metis
  then show ?thesis by (cases "guard_after h2") (simp add: h' s guard_after_append)
qed

section \<open>The state machines send the whole sequence\<close>

text \<open>How many instructions of the sequence have been sent when the status is this one.\<close>

definition write_progress :: "byte \<Rightarrow> nat option" where
  "write_progress status =
     (if status = DEVICE_RESET then Some 0 else if status = WRITE_ENABLE then Some 1
      else if status = WRITE_DISABLE then Some 2 else if status = RANDOM_PG_DATA_LOAD then Some 3
      else if status = PG_EXECUTE then Some 4 else None)"

lemma write_progress_simps [simp]:
  "write_progress DEVICE_RESET = Some 0" "write_progress WRITE_ENABLE = Some 1" "write_progress WRITE_DISABLE = Some 2"
  "write_progress RANDOM_PG_DATA_LOAD = Some 3" "write_progress PG_EXECUTE = Some 4"
  by (simp_all add: write_progress_def)

definition in_progress :: "(byte \<Rightarrow> nat option) \<Rightarrow> byte list list \<Rightarrow> byte list list \<Rightarrow> byte \<times> bus \<Rightarrow> bool" where
  "in_progress prog c cmds s \<longleftrightarrow> bus_ok (snd s) \<and> (\<exists>k. prog (fst s) = Some k \<and> commands (snd s) = c @ take k cmds)"

definition completed :: "byte list list \<Rightarrow> byte list list \<Rightarrow> byte \<times> bus \<Rightarrow> bool" where
  "completed c cmds s \<longleftrightarrow> fst s = DEVICE_RESET \<and> bus_ok (snd s) \<and> commands (snd s) = c @ cmds"

text \<open>One more instruction of the sequence.\<close>

lemma progress_instr:
  assumes "bus_ok h" and "commands h = c @ take k cmds" and "k < length cmds" and "cmds ! k = cmd"
    and "prog st' = Some (Suc k)" and "\<not> changes_array cmd" and "\<not> register_read cmd"
  shows "in_progress prog c cmds (st', instr cmd h)"
  using instr_ok [OF assms(1), of cmd] assms by (auto simp: in_progress_def take_Suc_conv_app_nth)

lemma completed_instr:
  assumes "bus_ok h" and "commands h = c @ take k cmds" and "Suc k = length cmds" and "cmds ! k = cmd"
    and "guard_after h = (False, Some st)" and "write_enabled st" and "\<not> register_read cmd"
  shows "completed c cmds (DEVICE_RESET, instr cmd h)"
proof -
  have "cmds = take k cmds @ [cmd]" using assms(3,4) take_Suc_conv_app_nth [of k cmds] by simp
  then have "commands h @ [cmd] = c @ cmds" using assms(2) by (metis append.assoc)
  then show ?thesis using instr_ok [OF assms(1), of cmd] assms by (simp add: completed_def)
qed

lemma progress_stay: "bus_ok h \<Longrightarrow> commands h = c @ take k cmds \<Longrightarrow> prog st = Some k \<Longrightarrow> in_progress prog c cmds (st, h)"
  by (auto simp: in_progress_def)

lemma write_machine_step:
  assumes rel: "reliable chip" and n: "unat n \<le> 2109"
    and I: "in_progress write_progress c (bcm_write_commands block page (take (unat n) wbf)) (status, h)"
    and st: "write_block_page chip block page wbf n (status, h) = Inr (ret, s')"
  shows "if ret = DONE then completed c (bcm_write_commands block page (take (unat n) wbf)) s'
    else in_progress write_progress c (bcm_write_commands block page (take (unat n) wbf)) s'"
proof -
  let ?C = "bcm_write_commands block page (take (unat n) wbf)"
  obtain v h1 where rd: "par_status chip h = (v, h1)" by (cases "par_status chip h")
  have ok: "bus_ok h" using I by (simp add: in_progress_def)
  obtain k where k: "write_progress status = Some k" and ck: "commands h = c @ take k ?C"
    using I by (auto simp: in_progress_def)
  note r = par_status_ok [OF rel ok rd]
  have ok1: "bus_ok h1" and g: "guard_after h1 = (False, Some v)" and c1: "commands h1 = c @ take k ?C"
    using r ck by simp_all
  have i: "par_instr chip cmd k = instr cmd k" for cmd k by (simp add: par_bcm bcm_instr_reliable [OF rel])
  have we: "write_enabled v" if "not_busy v" "v AND STATUS_REGISTER_3_WEL \<noteq> 0"
    using that by (simp add: write_enabled_def not_busy_def)
  note stay = progress_stay [of h1 c k ?C write_progress status, OF ok1 c1 k]
  note go = progress_instr [of h1 c k ?C, OF ok1 c1] and fin = completed_instr [of h1 c k ?C, OF ok1 c1 _ _ g]
  consider "status = DEVICE_RESET" "k = 0" | "status = WRITE_ENABLE" "k = 1" | "status = WRITE_DISABLE" "k = 2"
    | "status = RANDOM_PG_DATA_LOAD" "k = 3" | "status = PG_EXECUTE" "k = 4"
    using k by (auto simp: write_progress_def split: if_splits)
  then show ?thesis
  proof cases
    case 1
    have "in_progress write_progress c ?C (WRITE_ENABLE, instr [WRITE_STATUS_REGISTER_L, STATUS_REGISTER_1_ADDR, 0] h1)"
      by (rule go) (simp_all add: 1 bcm_write_commands_def)
    then show ?thesis using st 1 stay
      by (auto simp: write_block_page_def rd i split: if_splits)
  next
    case 2
    have "in_progress write_progress c ?C (WRITE_DISABLE, instr [WRITE_ENABLE] h1)"
      by (rule go) (simp_all add: 2 bcm_write_commands_def)
    then show ?thesis using st 2 stay
      by (auto simp: write_block_page_def rd i split: if_splits)
  next
    case 3
    have "in_progress write_progress c ?C (RANDOM_PG_DATA_LOAD, instr ([RANDOM_PG_DATA_LOAD, 0, 0] @ take (unat n) wbf) h1)"
      by (rule go) (simp_all add: 3 bcm_write_commands_def)
    then show ?thesis using st 3 stay n
      by (auto simp: write_block_page_def rd i bindR_eq_Inr mem_read_eq_Inr split: if_splits)
  next
    case 4
    have "in_progress write_progress c ?C (PG_EXECUTE, instr [WRITE_ENABLE] h1)"
      by (rule go) (simp_all add: 4 bcm_write_commands_def)
    then show ?thesis using st 4 stay
      by (auto simp: write_block_page_def rd i split: if_splits)
  next
    case 5
    have "completed c ?C (DEVICE_RESET, instr (PG_EXECUTE # row_bytes block page) h1)" if "write_enabled v"
      by (rule fin) (simp_all add: 5 bcm_write_commands_def that)
    then show ?thesis using st 5 stay we
      by (auto simp: write_block_page_def rd i split: if_splits)
  qed
qed

definition erase_progress :: "byte \<Rightarrow> nat option" where
  "erase_progress status =
     (if status = DEVICE_RESET then Some 0 else if status = WRITE_ENABLE then Some 1
      else if status = BLOCK_ERASE then Some 2 else None)"

lemma erase_machine_step:
  assumes rel: "reliable chip"
    and I: "in_progress erase_progress c (bcm_erase_commands block) (status, h)"
    and st: "erase_block chip block (status, h) = (ret, s')"
  shows "if ret = DONE then completed c (bcm_erase_commands block) s'
    else in_progress erase_progress c (bcm_erase_commands block) s'"
proof -
  let ?C = "bcm_erase_commands block"
  obtain p q s h1 where rd: "par_read_registers chip (Some 0xFF) (Some 0xFF) (Some 0xFF) h = ((p, q, s), h1)"
    by (metis prod.exhaust)
  have ok: "bus_ok h" using I by (simp add: in_progress_def)
  obtain k where k: "erase_progress status = Some k" and ck: "commands h = c @ take k ?C"
    using I by (auto simp: in_progress_def)
  note r = par_all_registers_ok [OF rel ok rd]
  obtain v where s: "s = Some v" using r by blast
  have ok1: "bus_ok h1" and g: "guard_after h1 = (False, Some v)" and c1: "commands h1 = c @ take k ?C"
    using r ck s by simp_all
  have i: "par_instr chip cmd k = instr cmd k" for cmd k by (simp add: par_bcm bcm_instr_reliable [OF rel])
  have we: "write_enabled v" if "not_busy v" "v AND STATUS_REGISTER_3_WEL \<noteq> 0"
    using that by (simp add: write_enabled_def not_busy_def)
  note stay = progress_stay [of h1 c k ?C erase_progress status, OF ok1 c1 k]
  note go = progress_instr [of h1 c k ?C, OF ok1 c1] and fin = completed_instr [of h1 c k ?C, OF ok1 c1 _ _ g]
  consider "status = DEVICE_RESET" "k = 0" | "status = WRITE_ENABLE" "k = 1" | "status = BLOCK_ERASE" "k = 2"
    using k by (auto simp: erase_progress_def split: if_splits)
  then show ?thesis
  proof cases
    case 1
    have "in_progress erase_progress c ?C (WRITE_ENABLE, instr [WRITE_STATUS_REGISTER_L, STATUS_REGISTER_1_ADDR, 0] h1)"
      by (rule go) (simp_all add: 1 bcm_erase_commands_def erase_progress_def)
    then show ?thesis using st 1 stay by (auto simp: erase_block_def rd s i split: if_splits)
  next
    case 2
    have "in_progress erase_progress c ?C (BLOCK_ERASE, instr [WRITE_ENABLE] h1)"
      by (rule go) (simp_all add: 2 bcm_erase_commands_def erase_progress_def)
    then show ?thesis using st 2 stay by (auto simp: erase_block_def rd s i split: if_splits)
  next
    case 3
    have "completed c ?C (DEVICE_RESET, instr (BLOCK_ERASE # row_bytes block 0) h1)" if "write_enabled v"
      by (rule fin) (simp_all add: 3 bcm_erase_commands_def that)
    then show ?thesis using st 3 stay we by (auto simp: erase_block_def rd s i split: if_splits)
  qed
qed

text \<open>The loops: started in the state the callers start in, they end after the whole sequence.\<close>

lemma write_page_sends:
  assumes "reliable chip" and "unat n \<le> 2109" and "bus_ok h"
    and "write_page chip block page wbf n (DEVICE_RESET, h) = Some (Inr s')"
  shows "completed (commands h) (bcm_write_commands block page (take (unat n) wbf)) s'"
proof (rule repeat_until_result [OF assms(4) [unfolded write_page_def],
      where I = "in_progress write_progress (commands h) (bcm_write_commands block page (take (unat n) wbf))"])
  show "in_progress write_progress (commands h) (bcm_write_commands block page (take (unat n) wbf)) (DEVICE_RESET, h)"
    using assms(3) by (simp add: in_progress_def)
next
  fix s ret s'
  assume "in_progress write_progress (commands h) (bcm_write_commands block page (take (unat n) wbf)) s"
    and "write_block_page chip block page wbf n s = Inr (ret, s')"
  note step = write_machine_step [OF assms(1,2), of "commands h" block page wbf "fst s" "snd s", unfolded prod.collapse, OF this]
  show "ret = DONE \<Longrightarrow> completed (commands h) (bcm_write_commands block page (take (unat n) wbf)) s'"
    using step by simp
  show "ret \<noteq> DONE \<Longrightarrow> in_progress write_progress (commands h) (bcm_write_commands block page (take (unat n) wbf)) (pause_us 1000 s')"
    using step by (cases s') (simp add: in_progress_def pause_us_def)
qed

lemma erase_one_sends:
  assumes "reliable chip" and "bus_ok h" and "erase_one chip block (DEVICE_RESET, h) = Some (Inr s')"
  shows "completed (commands h) (bcm_erase_commands block) s'"
proof (rule repeat_until_result [OF assms(3) [unfolded erase_one_def],
      where I = "in_progress erase_progress (commands h) (bcm_erase_commands block)"])
  show "in_progress erase_progress (commands h) (bcm_erase_commands block) (DEVICE_RESET, h)"
    using assms(2) by (simp add: in_progress_def erase_progress_def)
next
  fix s ret s'
  assume "in_progress erase_progress (commands h) (bcm_erase_commands block) s"
    and "Inr (erase_block chip block s) = Inr (ret, s')"
  then have "erase_block chip block (fst s, snd s) = (ret, s')"
    and "in_progress erase_progress (commands h) (bcm_erase_commands block) (fst s, snd s)" by simp_all
  note step = erase_machine_step [OF assms(1) this(2,1)]
  show "ret = DONE \<Longrightarrow> completed (commands h) (bcm_erase_commands block) s'" using step by simp
  show "ret \<noteq> DONE \<Longrightarrow> in_progress erase_progress (commands h) (bcm_erase_commands block) (id s')" using step by simp
qed

section \<open>The state machines return\<close>

text \<open>
  A stage of a machine: reads of the status that are not ready leave it where it is; once one is ready, the machine is
  done or goes on to a stage from which the loop returns.
\<close>

lemma stage_returns:
  assumes "eventually_ready ready gap rd st h" and "J h"
    and stay: "\<And>st h v h1. J h \<Longrightarrow> rd st h = (v, h1) \<Longrightarrow> \<not> ready v \<Longrightarrow>
      step (at h) = Inr (NOT_DONE, at h1) \<and> pause (at h1) = at (gap h1) \<and> J (gap h1)"
    and go: "\<And>st h v h1. J h \<Longrightarrow> rd st h = (v, h1) \<Longrightarrow> ready v \<Longrightarrow>
      \<exists>ret s'. step (at h) = Inr (ret, s') \<and> (ret = DONE \<or> (\<exists>u. repeat_until step pause (pause s') = Some (Inr u)))"
  shows "\<exists>u. repeat_until step pause (at h) = Some (Inr u)"
proof -
  have "(case polls n gap rd st h of (st', h') \<Rightarrow> ready (fst (rd st' h'))) \<Longrightarrow> J h \<Longrightarrow> ?thesis" for n
  proof (induction n arbitrary: st h)
    case 0
    obtain v h1 where "rd st h = (v, h1)" by (cases "rd st h")
    then show ?case using 0 go [of h st v h1] by (subst repeat_until.simps) auto
  next
    case (Suc n)
    obtain v h1 where rd: "rd st h = (v, h1)" by (cases "rd st h")
    show ?case
    proof (cases "ready v")
      case True
      then show ?thesis using go [OF Suc.prems(2) rd] by (subst repeat_until.simps) auto
    next
      case False
      note s = stay [OF Suc.prems(2) rd False]
      have "case polls n gap rd v (gap h1) of (st', h') \<Rightarrow> ready (fst (rd st' h'))" using Suc.prems(1) rd by simp
      from Suc.IH [OF this] s show ?thesis by (subst repeat_until.simps) simp
    qed
  qed
  then show ?thesis using assms(1,2) unfolding eventually_ready_def by (elim exE)
qed

text \<open>What a read of the status keeps, and the two kinds of stages: those that wait for not busy, and those
that wait for the write enable they are armed for.\<close>

definition keeps_bus :: "(bus \<Rightarrow> byte \<times> bus) \<Rightarrow> (bus \<Rightarrow> bus) \<Rightarrow> bool" where
  "keeps_bus rd gap \<longleftrightarrow> (\<forall>k. bus_ok k \<longrightarrow>
     bus_ok (snd (rd k)) \<and> armed_after (snd (rd k)) = armed_after k \<and> (not_busy (fst (rd k)) \<longrightarrow> idle_after (snd (rd k))) \<and>
     bus_ok (gap k) \<and> armed_after (gap k) = armed_after k)"

lemma idle_stage:
  assumes keeps: "keeps_bus rd gap" and live: "live gap (\<lambda>st. rd)" and ok: "bus_ok h"
    and pause: "\<And>k. pause (at k) = at (gap k)"
    and stay: "\<And>k v k1. rd k = (v, k1) \<Longrightarrow> \<not> not_busy v \<Longrightarrow> step (at k) = Inr (NOT_DONE, at k1)"
    and go: "\<And>k v k1. bus_ok k1 \<Longrightarrow> rd k = (v, k1) \<Longrightarrow> not_busy v \<Longrightarrow> idle_after k1 \<Longrightarrow> \<exists>ret s'. step (at k) = Inr (ret, s') \<and>
        (ret = DONE \<or> (\<exists>u. repeat_until step pause (pause s') = Some (Inr u)))"
  shows "\<exists>u. repeat_until step pause (at h) = Some (Inr u)"
proof (rule stage_returns [where J = bus_ok])
  show "eventually_ready not_busy gap (\<lambda>st. rd) 0 h" using live ok by (simp add: live_def)
next
  fix k v k1
  assume k: "bus_ok k" and rd: "rd k = (v, k1)"
  have kp: "bus_ok k1 \<and> (not_busy v \<longrightarrow> idle_after k1)" using keeps k rd by (auto simp: keeps_bus_def dest!: spec [of _ k])
  then show "\<not> not_busy v \<Longrightarrow> step (at k) = Inr (NOT_DONE, at k1) \<and> pause (at k1) = at (gap k1) \<and> bus_ok (gap k1)"
    using stay [OF rd] keeps by (auto simp: keeps_bus_def pause)
  show "not_busy v \<Longrightarrow> \<exists>ret s'. step (at k) = Inr (ret, s') \<and>
      (ret = DONE \<or> (\<exists>u. repeat_until step pause (pause s') = Some (Inr u)))"
    using go [OF _ rd] kp by blast
qed (rule ok)

lemma enabled_stage:
  assumes keeps: "keeps_bus rd gap" and live: "live gap (\<lambda>st. rd)" and ok: "bus_ok h \<and> armed_after h"
    and pause: "\<And>k. pause (at k) = at (gap k)"
    and stay: "\<And>k v k1. rd k = (v, k1) \<Longrightarrow> \<not> write_enabled v \<Longrightarrow> step (at k) = Inr (NOT_DONE, at k1)"
    and go: "\<And>k v k1. bus_ok k1 \<Longrightarrow> rd k = (v, k1) \<Longrightarrow> write_enabled v \<Longrightarrow> \<exists>ret s'. step (at k) = Inr (ret, s') \<and>
        (ret = DONE \<or> (\<exists>u. repeat_until step pause (pause s') = Some (Inr u)))"
  shows "\<exists>u. repeat_until step pause (at h) = Some (Inr u)"
proof (rule stage_returns [where J = "\<lambda>k. bus_ok k \<and> armed_after k"])
  show "eventually_ready write_enabled gap (\<lambda>st. rd) 0 h" using live ok by (simp add: live_def)
next
  fix k v k1
  assume k: "bus_ok k \<and> armed_after k" and rd: "rd k = (v, k1)"
  have kp: "bus_ok k1 \<and> armed_after k1" using keeps k rd by (auto simp: keeps_bus_def dest!: spec [of _ k])
  then show "\<not> write_enabled v \<Longrightarrow> step (at k) = Inr (NOT_DONE, at k1) \<and> pause (at k1) = at (gap k1) \<and>
      bus_ok (gap k1) \<and> armed_after (gap k1)"
    using stay [OF rd] keeps by (auto simp: keeps_bus_def pause)
  show "write_enabled v \<Longrightarrow> \<exists>ret s'. step (at k) = Inr (ret, s') \<and>
      (ret = DONE \<or> (\<exists>u. repeat_until step pause (pause s') = Some (Inr u)))"
    using go [OF _ rd] kp by blast
qed (rule ok)

lemma par_status_keeps:
  assumes "reliable chip" and "\<And>k. bus_ok k \<Longrightarrow> bus_ok (gap k) \<and> armed_after (gap k) = armed_after k"
  shows "keeps_bus (par_status chip) gap"
proof -
  have "bus_ok k1 \<and> armed_after k1 = armed_after k \<and> (not_busy v \<longrightarrow> idle_after k1)"
    if "bus_ok k" "par_status chip k = (v, k1)" for k v k1
  proof -
    have "bcm_status chip 0xFF k = (v, k1)" using that(2) by (simp add: par_status_def bcm_status_def par_bcm)
    then show ?thesis using par_status_ok [OF assms(1) that] idle_after_status
        status_reader.read_armed [OF bcm_status_reader [OF assms(1)], of "0xFF" k] by auto
  qed
  then show ?thesis using assms(2) unfolding keeps_bus_def by (metis prod.collapse)
qed

lemma armed_pause:
  assumes "bus_ok k" and "idle_after k"
  shows "bus_ok (instr [WRITE_ENABLE] k @ [Delay us]) \<and> armed_after (instr [WRITE_ENABLE] k @ [Delay us])"
  using instr_ok [OF assms(1), of "[WRITE_ENABLE]"] assms(2) by simp

lemma write_block_page_eq:
  "write_block_page chip block page wbf n (status, k) =
     (case par_status chip k of (st, h) \<Rightarrow>
     if \<not> not_busy st then Inr (NOT_DONE, status, h)
     else if status = DEVICE_RESET
     then Inr (NOT_DONE, WRITE_ENABLE, par_instr chip [WRITE_STATUS_REGISTER_L, STATUS_REGISTER_1_ADDR, 0] h)
     else if status = WRITE_ENABLE
     then Inr (NOT_DONE, WRITE_DISABLE, par_instr chip [WRITE_ENABLE] h)
     else if status = WRITE_DISABLE
     then if st AND STATUS_REGISTER_3_WEL \<noteq> 0
          then if unat n > 2112 - 3 then Inr (WRITE_EXCEPTION, status, h)
               else bindR (mem_read wbf 0 (unat n)) (\<lambda>data.
                    Inr (NOT_DONE, RANDOM_PG_DATA_LOAD, par_instr chip ([RANDOM_PG_DATA_LOAD, 0, 0] @ data) h))
          else Inr (NOT_DONE, status, h)
     else if status = RANDOM_PG_DATA_LOAD
     then Inr (NOT_DONE, PG_EXECUTE, par_instr chip [WRITE_ENABLE] h)
     else if status = PG_EXECUTE \<and> st AND STATUS_REGISTER_3_WEL \<noteq> 0
     then Inr (DONE, DEVICE_RESET, par_instr chip (PG_EXECUTE # row_bytes block page) h)
     else Inr (NOT_DONE, status, h))"
  by (simp add: write_block_page_def)

lemma write_page_returns:
  assumes rel: "reliable chip" and live: "live (sleeping 1000) (\<lambda>st. par_status chip)" and ok: "bus_ok h"
    and n: "unat n \<le> 2109" and len: "unat n \<le> length wbf"
  shows "\<exists>u. write_page chip block page wbf n (DEVICE_RESET, h) = Some (Inr u)"
proof -
  let ?step = "write_block_page chip block page wbf n"
  let ?ret = "\<lambda>s. \<exists>u. repeat_until ?step (pause_us 1000) s = Some (Inr u)"
  have i: "par_instr chip cmd k = instr cmd k" for cmd k by (simp add: par_bcm bcm_instr_reliable [OF rel])
  have we: "write_enabled v \<longleftrightarrow> not_busy v \<and> v AND STATUS_REGISTER_3_WEL \<noteq> 0" for v
    by (auto simp: write_enabled_def not_busy_def)
  have m: "mem_read wbf 0 (unat n) = Inr (take (unat n) wbf)" using len by (simp add: mem_read_def)
  have p: "pause_us 1000 (status, k) = (status, k @ [Delay 1000])" for status k by (simp add: pause_us_def)
  have kp: "keeps_bus (par_status chip) (sleeping 1000)" by (rule par_status_keeps [OF rel]) simp
  note idle = idle_stage [OF kp live, where step = ?step and pause = "pause_us 1000" and at = "Pair status" for status, OF _ p]
    and enabled = enabled_stage [OF kp live, where step = ?step and pause = "pause_us 1000" and at = "Pair status" for status, OF _ p]
  note defs = write_block_page_eq i m p
  have n': "\<not> 2109 < unat n" using n by simp
  have r5: "?ret (PG_EXECUTE, k)" if "bus_ok k \<and> armed_after k" for k
    by (rule enabled) (use that in \<open>auto simp: defs we\<close>)
  have r4: "?ret (RANDOM_PG_DATA_LOAD, k)" if "bus_ok k" for k
    by (rule idle) (use that r5 armed_pause in \<open>auto simp: defs\<close>)
  have r3: "?ret (WRITE_DISABLE, k)" if "bus_ok k \<and> armed_after k" for k
    by (rule enabled) (use that r4 instr_ok n' in \<open>auto simp: defs we\<close>)
  have r2: "?ret (WRITE_ENABLE, k)" if "bus_ok k" for k
    by (rule idle) (use that r3 armed_pause in \<open>auto simp: defs\<close>)
  have "?ret (DEVICE_RESET, h)"
    by (rule idle) (use ok r2 instr_ok in \<open>auto simp: defs\<close>)
  then show ?thesis by (simp add: write_page_def)
qed

text \<open>The erase reads the three registers at each step and does not sleep; the read machine reads one and does not either.\<close>

definition erase_status :: "chip \<Rightarrow> bus \<Rightarrow> byte \<times> bus" where
  "erase_status chip h =
     (case par_read_registers chip (Some 0xFF) (Some 0xFF) (Some 0xFF) h of ((p, c, s), h') \<Rightarrow> (the s, h'))"

lemma erase_status_keeps:
  assumes rel: "reliable chip"
  shows "keeps_bus (erase_status chip) id"
proof -
  have "bus_ok k1 \<and> armed_after k1 = armed_after k \<and> (not_busy v \<longrightarrow> idle_after k1)"
    if ok: "bus_ok k" and st: "erase_status chip k = (v, k1)" for k v k1
  proof -
    obtain p q s where rd: "par_read_registers chip (Some 0xFF) (Some 0xFF) (Some 0xFF) k = ((p, q, s), k1)" and v: "v = the s"
      using st by (auto simp: erase_status_def split: prod.splits)
    note r = par_all_registers_ok [OF rel ok rd]
    have "armed_after k1 = armed_after k"
    proof -
      have reg: "armed_after (snd (bcm_register chip addr (Some x) h)) = armed_after h" for addr x h
        by (cases "chip_after h")
          (use bcm_query_reliable [OF rel, of "[READ_STATUS_REGISTER_L, addr]" "[x]" h] in
            \<open>auto simp: bcm_register_def armed_after_def chip_after_append\<close>)
      show ?thesis using rd reg
        by (simp add: par_bcm bcm_read_registers_def split: prod.splits) (metis snd_conv)
    qed
    then show ?thesis using r v idle_after_status by fastforce
  qed
  then show ?thesis unfolding keeps_bus_def by (metis prod.collapse id_apply)
qed

lemma erase_block_eq:
  "erase_block chip block (status, k) =
     (case erase_status chip k of (st, h) \<Rightarrow>
     if \<not> not_busy st then (NOT_DONE, status, h)
     else if status = DEVICE_RESET
     then (NOT_DONE, WRITE_ENABLE, par_instr chip [WRITE_STATUS_REGISTER_L, STATUS_REGISTER_1_ADDR, 0] h)
     else if status = WRITE_ENABLE
     then (NOT_DONE, BLOCK_ERASE, par_instr chip [WRITE_ENABLE] h)
     else if status = BLOCK_ERASE \<and> st AND STATUS_REGISTER_3_WEL \<noteq> 0
     then (DONE, DEVICE_RESET, par_instr chip (BLOCK_ERASE # row_bytes block 0) h)
     else (NOT_DONE, status, h))"
  by (simp add: erase_block_def erase_status_def Let_def split: prod.splits)

lemma erase_one_returns:
  assumes rel: "reliable chip" and live: "live id (\<lambda>st. erase_status chip)" and ok: "bus_ok h"
  shows "\<exists>u. erase_one chip block (DEVICE_RESET, h) = Some (Inr u)"
proof -
  let ?step = "\<lambda>s. Inr (erase_block chip block s) :: (int \<times> byte \<times> bus) res"
  let ?ret = "\<lambda>s. \<exists>u. repeat_until ?step id s = Some (Inr u)"
  have i: "par_instr chip cmd k = instr cmd k" for cmd k by (simp add: par_bcm bcm_instr_reliable [OF rel])
  have we: "write_enabled v \<longleftrightarrow> not_busy v \<and> v AND STATUS_REGISTER_3_WEL \<noteq> 0" for v
    by (auto simp: write_enabled_def not_busy_def)
  have p: "id (status, k) = (status, id k)" for status :: byte and k :: bus by simp
  note kp = erase_status_keeps [OF rel]
  note idle = idle_stage [OF kp live, where step = ?step and pause = id and at = "Pair status" for status, OF _ p]
    and enabled = enabled_stage [OF kp live, where step = ?step and pause = id and at = "Pair status" for status, OF _ p]
  have armed: "bus_ok (instr [WRITE_ENABLE] k) \<and> armed_after (instr [WRITE_ENABLE] k)" if "bus_ok k" "idle_after k" for k
    using instr_ok [OF that(1), of "[WRITE_ENABLE]"] that(2) by simp
  have r3: "?ret (BLOCK_ERASE, k)" if "bus_ok k \<and> armed_after k" for k
    by (rule enabled) (use that in \<open>auto simp: erase_block_eq we\<close>)
  have r2: "?ret (WRITE_ENABLE, k)" if "bus_ok k" for k
    by (rule idle) (use that r3 armed in \<open>auto simp: erase_block_eq i\<close>)
  have "?ret (DEVICE_RESET, h)"
    by (rule idle) (use ok r2 instr_ok in \<open>auto simp: erase_block_eq i\<close>)
  then show ?thesis by (simp add: erase_one_def)
qed

definition read_progress :: "byte \<Rightarrow> nat option" where
  "read_progress status =
     (if status = DEVICE_RESET then Some 0 else if status = PG_DATA_READ then Some 1
      else if status = READ_DATA then Some 2 else None)"

definition reading :: "nat \<Rightarrow> byte list list \<Rightarrow> u16 \<Rightarrow> u16 \<Rightarrow> byte list \<times> byte \<times> bus \<Rightarrow> bool" where
  "reading n c block page s \<longleftrightarrow> length (fst s) = n \<and> (\<exists>p. in_progress read_progress c (read_commands block page p) (snd s))"

definition was_read :: "nat \<Rightarrow> byte list list \<Rightarrow> u16 \<Rightarrow> u16 \<Rightarrow> byte list \<times> byte \<times> bus \<Rightarrow> bool" where
  "was_read n c block page s \<longleftrightarrow> length (fst s) = n \<and> (\<exists>p. completed c (read_commands block page p) (snd s))"

lemma read_machine_step:
  assumes rel: "reliable chip" and I: "reading n c block page (rbf, status, h)"
    and st: "read_by_block_page chip block page rbf (status, h) = (ret, s')"
  shows "if ret = DONE then was_read n c block page s' else reading n c block page s'"
proof -
  obtain v h1 where rd: "par_status chip h = (v, h1)" by (cases "par_status chip h")
  obtain p where I': "in_progress read_progress c (read_commands block page p) (status, h)" and len: "length rbf = n"
    using I by (auto simp: reading_def)
  then have ok: "bus_ok h" by (simp add: in_progress_def)
  obtain k where k: "read_progress status = Some k" and ck: "commands h = c @ take k (read_commands block page p)"
    using I' by (auto simp: in_progress_def)
  note r = par_status_ok [OF rel ok rd]
  have ok1: "bus_ok h1" and c1: "commands h1 = c @ take k (read_commands block page p)" using r ck by simp_all
  have i: "par_instr chip cmd k = instr cmd k" for cmd k by (simp add: par_bcm bcm_instr_reliable [OF rel])
  have stay: "reading n c block page (rbf, status, h1)"
    using progress_stay [of h1 c k "read_commands block page p" read_progress status, OF ok1 c1 k] len by (auto simp: reading_def)
  consider "status = DEVICE_RESET" "k = 0" | "status = PG_DATA_READ" "k = 1" | "status = READ_DATA" "k = 2"
    using k by (auto simp: read_progress_def split: if_splits)
  then show ?thesis
  proof cases
    case 1
    obtain w h2 where rg: "par_read_registers chip (Some 0xFF) None None h1 = ((Some w, None, None), h2)" and "bus_ok h2"
        "commands h2 = commands h1"
      using bcm_protected [OF rel ok1, of "0xFF"] by (auto simp: par_bcm)
    then have "in_progress read_progress c (read_commands block page w)
        (PG_DATA_READ, instr [WRITE_STATUS_REGISTER_L, STATUS_REGISTER_2_ADDR, read_mode w] h2)"
      by (intro progress_instr [where k = 0]) (use c1 1 in \<open>simp_all add: read_commands_def read_progress_def\<close>)
    then show ?thesis using st 1 stay len rg
      by (auto simp: read_by_block_page_def read_step_def rd i reading_def split: if_splits)
  next
    case 2
    have "in_progress read_progress c (read_commands block page p) (READ_DATA, instr (PG_DATA_READ # row_bytes block page) h1)"
      by (rule progress_instr [OF ok1 c1]) (simp_all add: 2 read_commands_def read_progress_def)
    then show ?thesis using st 2 stay len
      by (auto simp: read_by_block_page_def read_step_def rd i reading_def split: if_splits)
  next
    case 3
    let ?rd = "[READ_DATA, 0, 0, 0] :: byte list"
    obtain bs where q: "par_query chip ?rd rbf h1 = (bs, h1 @ [Cs False, Tx ?rd, Rx bs, Cs True])" "length bs = length rbf"
      using bcm_query_reliable [OF rel, of ?rd rbf h1] by (auto simp: par_bcm)
    have "completed c (read_commands block page p) (DEVICE_RESET, h1 @ [Cs False, Tx ?rd, Rx bs, Cs True])"
      using query_ok [OF ok1, of ?rd bs] c1 3 by (simp add: completed_def read_commands_def)
    then show ?thesis using st 3 stay len q
      by (auto simp: read_by_block_page_def read_step_def rd was_read_def split: if_splits)
  qed
qed

lemma read_page_sends:
  assumes "reliable chip" and "bus_ok h" and "read_page chip block page (rbf, DEVICE_RESET, h) = Some (Inr s')"
  shows "was_read (length rbf) (commands h) block page s'"
proof (rule repeat_until_result [OF assms(3) [unfolded read_page_def], where I = "reading (length rbf) (commands h) block page"])
  show "reading (length rbf) (commands h) block page (rbf, DEVICE_RESET, h)"
    using assms(2) by (simp add: reading_def in_progress_def read_progress_def)
next
  fix s ret s'
  assume I: "reading (length rbf) (commands h) block page s"
    and "(case s of (rbf, s) \<Rightarrow> Inr (read_by_block_page chip block page rbf s)) = Inr (ret, s')"
  then have st: "read_by_block_page chip block page (fst s) (fst (snd s), snd (snd s)) = (ret, s')"
    and I: "reading (length rbf) (commands h) block page (fst s, fst (snd s), snd (snd s))" by (auto split: prod.splits)
  note step = read_machine_step [OF assms(1) I st]
  show "ret = DONE \<Longrightarrow> was_read (length rbf) (commands h) block page s'" using step by simp
  show "ret \<noteq> DONE \<Longrightarrow> reading (length rbf) (commands h) block page (id s')" using step by simp
qed

lemma read_page_returns:
  assumes rel: "reliable chip" and live: "live id (\<lambda>st. par_status chip)" and ok: "bus_ok h"
  shows "\<exists>u. read_page chip block page (rbf, DEVICE_RESET, h) = Some (Inr u)"
proof -
  let ?step = "\<lambda>(rbf, s). Inr (read_by_block_page chip block page rbf s) :: (int \<times> byte list \<times> byte \<times> bus) res"
  let ?ret = "\<lambda>s. \<exists>u. repeat_until ?step id s = Some (Inr u)"
  have i: "par_instr chip cmd k = instr cmd k" for cmd k by (simp add: par_bcm bcm_instr_reliable [OF rel])
  have kp: "keeps_bus (par_status chip) id" by (rule par_status_keeps [OF rel]) simp
  have p: "id (rbf, status, k) = (rbf, status, id k)" for rbf :: "byte list" and status :: byte and k :: bus by simp
  note idle = idle_stage [OF kp live, where step = ?step and pause = id and at = "\<lambda>h. (rbf, status, h)" for rbf status, OF _ p]
  have r3: "?ret (rbf, READ_DATA, k)" if "bus_ok k" for k
    by (rule idle) (use that in \<open>auto simp: read_by_block_page_def read_step_def split: prod.splits\<close>)
  have r2: "?ret (rbf, PG_DATA_READ, k)" if "bus_ok k" for k
    by (rule idle) (use that r3 instr_ok in \<open>auto simp: read_by_block_page_def read_step_def i\<close>)
  have "?ret (rbf, DEVICE_RESET, h)"
  proof (rule idle [OF ok])
    fix k v k1
    assume k1: "bus_ok k1" and rd: "par_status chip k = (v, k1)" and nb: "not_busy v"
    obtain w h2 where rg: "par_read_registers chip (Some 0xFF) None None k1 = ((Some w, None, None), h2)" and h2: "bus_ok h2"
      using bcm_protected [OF rel k1, of "0xFF"] by (auto simp: par_bcm)
    have "bus_ok (instr [WRITE_STATUS_REGISTER_L, STATUS_REGISTER_2_ADDR, read_mode w] h2)" using instr_ok [OF h2] by simp
    from r2 [OF this] show "\<exists>ret s'. ?step (rbf, DEVICE_RESET, k) = Inr (ret, s') \<and>
        (ret = DONE \<or> (\<exists>u. repeat_until ?step id (id s') = Some (Inr u)))"
      by (simp add: read_by_block_page_def read_step_def rd rg nb i)
  qed (auto simp: read_by_block_page_def read_step_def)
  then show ?thesis by (simp add: read_page_def)
qed

text \<open>A page longer than the tool accepts: the answer is \<open>WRITE_EXCEPTION\<close>, the state stays, and the caller asks again for ever.\<close>

lemma write_exception_stays:
  assumes "unat n > 2109" and "write_block_page chip block page wbf n (WRITE_DISABLE, h) = Inr (ret, status, h')"
  shows "ret \<noteq> DONE \<and> status = WRITE_DISABLE"
  using assms by (auto simp: write_block_page_def split: prod.splits if_splits)

lemma write_exception_loops:
  assumes "unat n > 2109"
  shows "write_page chip block page wbf n (WRITE_DISABLE, h) \<noteq> Some (Inr s')"
proof
  assume "write_page chip block page wbf n (WRITE_DISABLE, h) = Some (Inr s')"
  then have False
    unfolding write_page_def
  proof (rule repeat_until_result [where I = "\<lambda>s. fst s = WRITE_DISABLE"])
    fix s ret s'
    assume "fst s = WRITE_DISABLE" and "write_block_page chip block page wbf n s = Inr (ret, s')"
    then have "ret \<noteq> DONE \<and> fst s' = WRITE_DISABLE"
      using write_exception_stays [OF assms, of chip block page wbf "snd s" ret "fst s'" "snd s'"] by (cases s) auto
    then show "ret = DONE \<Longrightarrow> False" and "ret \<noteq> DONE \<Longrightarrow> fst (pause_us 1000 s') = WRITE_DISABLE"
      by (cases s'; simp add: pause_us_def)+
  qed simp
  then show False .
qed

end
