(* ===== verification/Parent_Flash.thy ===== *)
theory Parent_Flash
  imports Nand_Chip Parent_Nand
begin

text \<open>
  The step machines of the parent tool over the chip of \<open>nand_chip\<close>, with transfers that do not fail and
  operations that end (the locale \<open>parent_nand\<close>): each loop returns, and what it does to the array and the caller's buffer.
\<close>

section \<open>The step machines over the chip\<close>

locale parent_nand = nand_chip +
  assumes no_failure: "reliable chip"
    and live_write: "live (sleeping 1000) (\<lambda>st. par_status chip)"
    and live_read: "live id (\<lambda>st. par_status chip)"
    and live_erase: "live id (\<lambda>st. erase_status chip)"
begin

lemma sends: "par_instr chip cmd h = instr cmd h"
  by (simp add: par_bcm bcm_instr_reliable [OF no_failure])

lemma query: "par_query chip cmd old h = (let bs = rx_bytes chip (h @ [Cs False, Tx cmd]) (length old) in
    (bs, h @ [Cs False, Tx cmd, Rx bs, Cs True]))"
  using no_failure by (simp add: par_query_def par_tx_def par_rx_def reliable_def Let_def)

lemma register: "\<exists>v. par_register chip addr (Some x) h = (Some v, h @ [Cs False, Tx [READ_STATUS_REGISTER_L, addr], Rx [v], Cs True])"
  by (simp add: par_register_def query rx_bytes_def Let_def)

lemma status_same:
  assumes "bus_ok h" and "par_status chip h = (v, h1)"
  shows "bus_ok h1" "same_chip h h1" "guard_after h1 = (False, Some v)" "armed_after h1 = armed_after h" "not_busy v \<Longrightarrow> idle_after h1"
proof -
  show "bus_ok h1" and g: "guard_after h1 = (False, Some v)" using par_status_ok [OF no_failure assms] by simp_all
  obtain w where "par_register chip STATUS_REGISTER_3_ADDR (Some 0xFF) h =
      (Some w, h @ [Cs False, Tx [READ_STATUS_REGISTER_L, STATUS_REGISTER_3_ADDR], Rx [w], Cs True])" using register by blast
  then have h1: "h1 = h @ [Cs False, Tx [READ_STATUS_REGISTER_L, STATUS_REGISTER_3_ADDR], Rx [w], Cs True]"
    using assms(2) by (simp add: par_status_def par_read_registers_def par_register_def split: prod.splits)
  show "same_chip h h1" unfolding h1 by (rule query_same_chip) simp_all
  show "armed_after h1 = armed_after h" unfolding h1 by (rule status_armed) simp
  show "not_busy v \<Longrightarrow> idle_after h1" using g idle_after_status by blast
qed

lemma same_chip_trans: "same_chip h h' \<Longrightarrow> same_chip h' h'' \<Longrightarrow> same_chip h h''"
  unfolding same_chip_def by (metis same_flash_trans)

lemma erase_status_same:
  assumes "bus_ok h" and "erase_status chip h = (v, h1)"
  shows "bus_ok h1" "same_chip h h1" "guard_after h1 = (False, Some v)" "armed_after h1 = armed_after h" "not_busy v \<Longrightarrow> idle_after h1"
proof -
  let ?q = "\<lambda>addr v k. k @ [Cs False, Tx [READ_STATUS_REGISTER_L, addr], Rx [v], Cs True]"
  obtain v1 where r1: "par_register chip STATUS_REGISTER_1_ADDR (Some 0xFF) h = (Some v1, ?q STATUS_REGISTER_1_ADDR v1 h)"
    using register by blast
  obtain v2 where r2: "par_register chip STATUS_REGISTER_2_ADDR (Some 0xFF) (?q STATUS_REGISTER_1_ADDR v1 h) =
      (Some v2, ?q STATUS_REGISTER_2_ADDR v2 (?q STATUS_REGISTER_1_ADDR v1 h))" using register by blast
  obtain v3 where r3: "par_register chip STATUS_REGISTER_3_ADDR (Some 0xFF) (?q STATUS_REGISTER_2_ADDR v2 (?q STATUS_REGISTER_1_ADDR v1 h)) =
      (Some v3, ?q STATUS_REGISTER_3_ADDR v3 (?q STATUS_REGISTER_2_ADDR v2 (?q STATUS_REGISTER_1_ADDR v1 h)))" using register by blast
  have rd: "par_read_registers chip (Some 0xFF) (Some 0xFF) (Some 0xFF) h = ((Some v1, Some v2, Some v3), h1)" and v: "v = v3"
    and h1: "h1 = ?q STATUS_REGISTER_3_ADDR v3 (?q STATUS_REGISTER_2_ADDR v2 (?q STATUS_REGISTER_1_ADDR v1 h))"
    using assms(2) r1 r2 r3 by (auto simp: erase_status_def par_read_registers_def)
  have same: "same_chip k (?q addr w k)" for k addr w by (rule query_same_chip) simp_all
  show "same_chip h h1" unfolding h1 by (rule same_chip_trans [OF same same_chip_trans [OF same same]])
  show "bus_ok h1" and g: "guard_after h1 = (False, Some v)" using par_all_registers_ok [OF no_failure assms(1) rd] v by simp_all
  show "not_busy v \<Longrightarrow> idle_after h1" using g idle_after_status by blast
  show "armed_after h1 = armed_after h"
    using erase_status_keeps [OF no_failure] assms by (auto simp: keeps_bus_def dest!: spec [of _ h])
qed

lemma write_register_unprotected:
  "unprotected (instr [WRITE_STATUS_REGISTER_L, STATUS_REGISTER_2_ADDR, v] h) = unprotected h"
  "unprotected (instr (PG_DATA_READ # row_bytes block page) h) = unprotected h"
  "unprotected (instr (PG_EXECUTE # row_bytes block page) h) = unprotected h"
  "unprotected (instr (BLOCK_ERASE # row_bytes block page) h) = unprotected h"
  "unprotected (instr ([RANDOM_PG_DATA_LOAD, 0, 0] @ data) h) = unprotected h"
  "buffer_mode (instr (PG_DATA_READ # row_bytes block page) h) = buffer_mode h"
  by (simp_all add: unprotected_def buffer_mode_def register_write_def row_bytes_def)

subsection \<open>Reading\<close>

text \<open>The invariant of the read machine: the array stays \<open>f\<close>, and at the last step the buffer holds the page.\<close>

definition read_inv :: "flash_image \<Rightarrow> u16 \<Rightarrow> u16 \<Rightarrow> nat \<Rightarrow> byte list \<times> byte \<times> bus \<Rightarrow> bool" where
  "read_inv f b p n = (\<lambda>(rbf, status, h). length rbf = n \<and> bus_ok h \<and> same_flash (arr h) f \<and> unprotected h \<and>
     (status = DEVICE_RESET \<or> status = PG_DATA_READ \<and> buffer_mode h \<or>
      status = READ_DATA \<and> buffer_mode h \<and> take PAGE_SIZE (cache h) = f (unat b) (unat p)))"

definition got_page :: "flash_image \<Rightarrow> u16 \<Rightarrow> u16 \<Rightarrow> nat \<Rightarrow> byte list \<times> byte \<times> bus \<Rightarrow> bool" where
  "got_page f b p n = (\<lambda>(rbf, status, h). length rbf = n \<and> bus_ok h \<and> same_flash (arr h) f \<and> unprotected h \<and>
     status = DEVICE_RESET \<and> take PAGE_SIZE rbf = take n (f (unat b) (unat p)))"

lemma read_step_inv:
  assumes I: "read_inv f b p n (rbf, status, h)" and v: "valid_pos (unat b) (unat p)"
    and st: "read_step chip b p rbf (status, h) = (ret, s')"
  shows "if ret = DONE then got_page f b p n s' else read_inv f b p n s'"
proof -
  obtain w h1 where rd: "par_status chip h = (w, h1)" by (cases "par_status chip h")
  have ok: "bus_ok h" and u: "unprotected h" and a: "same_flash (arr h) f" and len: "length rbf = n" using I by (simp_all add: read_inv_def)
  note s = status_same [OF ok rd]
  note c = same_chipD [OF s(2)]
  have stay: "read_inv f b p n (rbf, status, h1)"
    using I s(1) c(4,5) same_flash_trans [OF c(1) a] c(2) by (auto simp: read_inv_def)
  have u1: "unprotected h1" and a1: "same_flash (arr h1) f" using u c(4) same_flash_trans [OF c(1) a] by simp_all
  consider "\<not> not_busy w" | "not_busy w" "status = DEVICE_RESET" | "not_busy w" "status = PG_DATA_READ" "buffer_mode h"
    | "not_busy w" "status = READ_DATA" "buffer_mode h" "take PAGE_SIZE (cache h) = f (unat b) (unat p)"
    using I by (auto simp: read_inv_def)
  then show ?thesis
  proof cases
    case 1
    then show ?thesis using st stay by (auto simp: read_step_def rd)
  next
    case 2
    let ?r1 = "[READ_STATUS_REGISTER_L, STATUS_REGISTER_1_ADDR] :: byte list"
    let ?k = "h1 @ [Cs False, Tx ?r1, Rx [0], Cs True]" and ?rm = "[WRITE_STATUS_REGISTER_L, STATUS_REGISTER_2_ADDR, read_mode 0]"
    have "rx_byte chip (h1 @ [Cs False, Tx ?r1]) 0 = 0" by (rule protection [OF u1])
    then have rg: "par_read_registers chip (Some 0xFF) None None h1 = ((Some 0, None, None), ?k)"
      by (simp add: par_read_registers_def par_register_def query rx_bytes_def Let_def)
    have "bus_ok ?k" using query_ok [OF s(1), of ?r1 "[0]"] by simp
    note i = quiet_instr [OF this, of ?rm, simplified]
    have k: "same_chip h1 ?k" by (rule query_same_chip) simp_all
    have "same_flash (arr (instr ?rm ?k)) f" using i(2) same_chipD(1) [OF k] a1 by (simp add: same_flash_def)
    moreover have "buffer_mode (instr ?rm ?k)" by (simp add: buffer_mode_def register_write_def read_mode_def)
    moreover have "unprotected (instr ?rm ?k)" using u1 same_chipD(4) [OF k] by (simp add: write_register_unprotected)
    ultimately have "read_inv f b p n (rbf, PG_DATA_READ, instr ?rm ?k)" using len i(1) by (simp add: read_inv_def)
    then show ?thesis using st 2 by (auto simp: read_step_def rd rg sends)
  next
    case 3
    let ?pg = "PG_DATA_READ # row_bytes b p"
    have "same_flash (arr (instr ?pg h1)) (arr h1)" unfolding instr_def by (rule arr_kept) simp
    from same_flash_trans [OF this a1] have "same_flash (arr (instr ?pg h1)) f" .
    moreover have "take PAGE_SIZE (cache (instr ?pg h1)) = f (unat b) (unat p)"
      using page_read [OF s(5) [OF 3(1)] _ v] 3(3) c(5) same_flashD [OF a1 v] by simp
    moreover have "bus_ok (instr ?pg h1)" using instr_ok [OF s(1), of ?pg] by simp
    ultimately have "read_inv f b p n (rbf, READ_DATA, instr ?pg h1)"
      using 3(3) c(5) u1 len by (simp add: read_inv_def write_register_unprotected)
    then show ?thesis using st 3 by (auto simp: read_step_def rd sends)
  next
    case 4
    let ?rd = "[READ_DATA, 0, 0, 0] :: byte list"
    define bs where "bs = rx_bytes chip (h1 @ [Cs False, Tx ?rd]) n"
    let ?k = "h1 @ [Cs False, Tx ?rd, Rx bs, Cs True]"
    have "bs ! i = cache h1 ! i" if "i < n" "i < 2112" for i
      using that 4(3) c(5) by (simp add: bs_def rx_bytes_def read_data [OF s(5) [OF 4(1)]])
    then have "take PAGE_SIZE bs = take n (take PAGE_SIZE (cache h1))"
      using cache_length [of h1] by (intro nth_equalityI) (auto simp: bs_def rx_bytes_def)
    then have bs: "take PAGE_SIZE bs = take n (f (unat b) (unat p))" using 4(4) c(2) by simp
    have "same_flash (arr ?k) (arr h1)" by (rule arr_kept) simp
    from same_flash_trans [OF this a1] have ak: "same_flash (arr ?k) f" .
    have "unprotected ?k" using u1 by (simp add: unprotected_def register_write_def)
    then have "got_page f b p n (bs, DEVICE_RESET, ?k)"
      using bs ak query_ok [OF s(1), of ?rd bs] by (simp add: got_page_def) (simp add: bs_def rx_bytes_def)
    then show ?thesis using st 4 len by (auto simp: read_step_def rd query Let_def bs_def)
  qed
qed

lemma read_page_gets:
  assumes ok: "bus_ok h" and u: "unprotected h" and a: "same_flash (arr h) f" and v: "valid_pos (unat b) (unat p)"
  shows "\<exists>s'. read_page chip b p (rbf, DEVICE_RESET, h) = Some (Inr s') \<and> got_page f b p (length rbf) s'"
proof -
  obtain s' where run: "read_page chip b p (rbf, DEVICE_RESET, h) = Some (Inr s')"
    using read_page_returns [OF no_failure live_read ok] by blast
  have "got_page f b p (length rbf) s'"
  proof (rule repeat_until_result [OF run [unfolded read_page_def], where I = "read_inv f b p (length rbf)"])
    show "read_inv f b p (length rbf) (rbf, DEVICE_RESET, h)" using ok u a by (simp add: read_inv_def)
  next
    fix s ret s'
    assume I: "read_inv f b p (length rbf) s" and "(case s of (rbf, s) \<Rightarrow> Inr (read_by_block_page chip b p rbf s)) = Inr (ret, s')"
    then have st: "read_step chip b p (fst s) (fst (snd s), snd (snd s)) = (ret, s')"
      by (auto simp: read_by_block_page_def split: prod.splits)
    have "read_inv f b p (length rbf) (fst s, fst (snd s), snd (snd s))" using I by simp
    note step = read_step_inv [OF this v st]
    show "ret = DONE \<Longrightarrow> got_page f b p (length rbf) s'" using step by simp
    show "ret \<noteq> DONE \<Longrightarrow> read_inv f b p (length rbf) (id s')" using step by simp
  qed
  then show ?thesis using run by blast
qed

subsection \<open>Erasing\<close>

definition erase_inv :: "flash_image \<Rightarrow> byte \<times> bus \<Rightarrow> bool" where
  "erase_inv f = (\<lambda>(status, h). bus_ok h \<and> same_flash (arr h) f \<and>
     (status = DEVICE_RESET \<or> status = WRITE_ENABLE \<and> unprotected h \<or> status = BLOCK_ERASE \<and> unprotected h \<and> armed_after h))"

text \<open>The array is \<open>f\<close>, nothing is under way in the machine, and the blocks are not protected.\<close>

definition settled :: "flash_image \<Rightarrow> byte \<times> bus \<Rightarrow> bool" where
  "settled f = (\<lambda>(status, h). bus_ok h \<and> same_flash (arr h) f \<and> status = DEVICE_RESET \<and> unprotected h)"

lemma unprotect_ok:
  assumes "bus_ok h" and "same_flash (arr h) f"
  shows "bus_ok (instr [WRITE_STATUS_REGISTER_L, STATUS_REGISTER_1_ADDR, 0] h)"
    "same_flash (arr (instr [WRITE_STATUS_REGISTER_L, STATUS_REGISTER_1_ADDR, 0] h)) f"
    "unprotected (instr [WRITE_STATUS_REGISTER_L, STATUS_REGISTER_1_ADDR, 0] h)"
  using quiet_instr(1,2) [OF assms(1), of "[WRITE_STATUS_REGISTER_L, STATUS_REGISTER_1_ADDR, 0]", simplified] assms(2)
    unprotect_instr [of h] same_flash_trans by (auto simp: unprotected_def)

lemma enable_ok:
  assumes "bus_ok h" and "same_flash (arr h) f" and "unprotected h" and "idle_after h"
  shows "bus_ok (instr [WRITE_ENABLE] h)" "same_flash (arr (instr [WRITE_ENABLE] h)) f" "unprotected (instr [WRITE_ENABLE] h)"
    "armed_after (instr [WRITE_ENABLE] h)" "cache (instr [WRITE_ENABLE] h) = cache h"
  using quiet_instr(1-3) [OF assms(1), of "[WRITE_ENABLE]", simplified] assms(2-4) same_flash_trans
  by (auto simp: enable_unprotected)

lemma erase_block_inv:
  assumes I: "erase_inv f (status, h)" and b: "unat b < BLOCK_COUNT" and st: "erase_block chip b (status, h) = (ret, s')"
  shows "if ret = DONE then settled (f(unat b := (\<lambda>p. blank_page))) s' else erase_inv f s'"
proof -
  obtain w h1 where rd: "erase_status chip h = (w, h1)" by (cases "erase_status chip h")
  have ok: "bus_ok h" and a: "same_flash (arr h) f" using I by (simp_all add: erase_inv_def)
  note s = erase_status_same [OF ok rd]
  note c = same_chipD [OF s(2)]
  have a1: "same_flash (arr h1) f" using same_flash_trans [OF c(1) a] .
  have stay: "erase_inv f (status, h1)" using I s(1,4) c(4) a1 by (auto simp: erase_inv_def)
  consider "\<not> not_busy w" | "not_busy w" "status = DEVICE_RESET" | "not_busy w" "status = WRITE_ENABLE" "unprotected h"
    | "not_busy w" "status = BLOCK_ERASE" "unprotected h" "armed_after h"
    using I by (auto simp: erase_inv_def)
  then show ?thesis
  proof cases
    case 1
    then show ?thesis using st stay by (auto simp: erase_block_eq rd)
  next
    case 2
    then show ?thesis using st unprotect_ok [OF s(1) a1] by (auto simp: erase_block_eq rd sends erase_inv_def)
  next
    case 3
    have "unprotected h1" using 3(3) c(4) by simp
    then show ?thesis using st 3 enable_ok [OF s(1) a1 _ s(5) [OF 3(1)]] by (auto simp: erase_block_eq rd sends erase_inv_def)
  next
    case 4
    let ?e = "BLOCK_ERASE # row_bytes b 0"
    show ?thesis
    proof (cases "w AND STATUS_REGISTER_3_WEL = 0")
      case True
      then show ?thesis using st 4 stay by (auto simp: erase_block_eq rd)
    next
      case False
      then have we: "write_enabled w" using 4(1) by (simp add: write_enabled_def not_busy_def)
      have "unprotected h1" "armed_after h1" using 4 c(4) s(4) by simp_all
      from erase [OF this(2) s(3) we this(1) b]
      have "same_flash (arr (instr ?e h1)) ((arr h1)(unat b := (\<lambda>p. blank_page)))" .
      then have "same_flash (arr (instr ?e h1)) (f(unat b := (\<lambda>p. blank_page)))"
        using a1 by (simp add: same_flash_def)
      then have "settled (f(unat b := (\<lambda>p. blank_page))) (DEVICE_RESET, instr ?e h1)"
        using instr_ok [OF s(1), of ?e] s(3) we \<open>unprotected h1\<close> by (simp add: settled_def write_register_unprotected)
      then show ?thesis using st 4 False by (auto simp: erase_block_eq rd sends)
    qed
  qed
qed

lemma erase_one_erases:
  assumes ok: "bus_ok h" and a: "same_flash (arr h) f" and b: "unat b < BLOCK_COUNT"
  shows "\<exists>s'. erase_one chip b (DEVICE_RESET, h) = Some (Inr s') \<and> settled (f(unat b := (\<lambda>p. blank_page))) s'"
proof -
  obtain s' where run: "erase_one chip b (DEVICE_RESET, h) = Some (Inr s')"
    using erase_one_returns [OF no_failure live_erase ok] by blast
  have "settled (f(unat b := (\<lambda>p. blank_page))) s'"
  proof (rule repeat_until_result [OF run [unfolded erase_one_def], where I = "erase_inv f"])
    show "erase_inv f (DEVICE_RESET, h)" using ok a by (simp add: erase_inv_def)
  next
    fix s ret s'
    assume "erase_inv f s" and "Inr (erase_block chip b s) = Inr (ret, s')"
    then have I: "erase_inv f (fst s, snd s)" and st: "erase_block chip b (fst s, snd s) = (ret, s')" by simp_all
    note step = erase_block_inv [OF I b st]
    show "ret = DONE \<Longrightarrow> settled (f(unat b := (\<lambda>p. blank_page))) s'" using step by simp
    show "ret \<noteq> DONE \<Longrightarrow> erase_inv f (id s')" using step by simp
  qed
  then show ?thesis using run by blast
qed

subsection \<open>Writing a whole page\<close>

definition write_inv :: "flash_image \<Rightarrow> byte list \<Rightarrow> byte \<times> bus \<Rightarrow> bool" where
  "write_inv f data = (\<lambda>(status, h). bus_ok h \<and> same_flash (arr h) f \<and>
     (status = DEVICE_RESET \<or> (status = WRITE_ENABLE \<or> status = WRITE_DISABLE) \<and> unprotected h \<or>
      status = RANDOM_PG_DATA_LOAD \<and> unprotected h \<and> take PAGE_SIZE (cache h) = data \<or>
      status = PG_EXECUTE \<and> unprotected h \<and> armed_after h \<and> take PAGE_SIZE (cache h) = data))"

lemma write_block_inv:
  assumes I: "write_inv f (take PAGE_SIZE wbf) (status, h)" and v: "valid_pos (unat b) (unat p)" and len: "PAGE_SIZE \<le> length wbf"
    and blank: "f (unat b) (unat p) = blank_page" and st: "write_block_page chip b p wbf (of_nat PAGE_SIZE) (status, h) = Inr (ret, s')"
  shows "if ret = DONE then settled (replace_page f (unat b) (unat p) (take PAGE_SIZE wbf)) s' else write_inv f (take PAGE_SIZE wbf) s'"
proof -
  obtain w h1 where rd: "par_status chip h = (w, h1)" by (cases "par_status chip h")
  have ok: "bus_ok h" and a: "same_flash (arr h) f" using I by (simp_all add: write_inv_def)
  note s = status_same [OF ok rd]
  note c = same_chipD [OF s(2)]
  let ?D = "take PAGE_SIZE wbf"
  have a1: "same_flash (arr h1) f" using same_flash_trans [OF c(1) a] .
  have m: "mem_read wbf 0 PAGE_SIZE = Inr ?D" using len by (simp add: mem_read_def)
  have stay: "write_inv f ?D (status, h1)" using I s(1,4) c(2,4) a1 by (auto simp: write_inv_def)
  note step = write_block_page_eq rd sends m
  consider "\<not> not_busy w" | "not_busy w" "status = DEVICE_RESET" | "not_busy w" "status = WRITE_ENABLE" "unprotected h"
    | "not_busy w" "status = WRITE_DISABLE" "unprotected h"
    | "not_busy w" "status = RANDOM_PG_DATA_LOAD" "unprotected h" "take PAGE_SIZE (cache h) = ?D"
    | "not_busy w" "status = PG_EXECUTE" "unprotected h" "armed_after h" "take PAGE_SIZE (cache h) = ?D"
    using I by (auto simp: write_inv_def)
  then show ?thesis
  proof cases
    case 1
    then show ?thesis using st stay by (auto simp: step)
  next
    case 2
    then show ?thesis using st unprotect_ok [OF s(1) a1] by (auto simp: step write_inv_def)
  next
    case 3
    then have "unprotected h1" using c(4) by simp
    then show ?thesis using st 3 enable_ok [OF s(1) a1 _ s(5) [OF 3(1)]] by (auto simp: step write_inv_def)
  next
    case 4
    let ?ld = "[RANDOM_PG_DATA_LOAD, 0, 0] @ ?D"
    have u1: "unprotected h1" using 4 c(4) by simp
    have "same_flash (arr (instr ?ld h1)) (arr h1)" unfolding instr_def by (rule arr_kept) simp
    from same_flash_trans [OF this a1] have al: "same_flash (arr (instr ?ld h1)) f" .
    have "take PAGE_SIZE (cache (instr ?ld h1)) = ?D" using load [OF s(5) [OF 4(1)], of ?D] len by simp
    then have "write_inv f ?D (RANDOM_PG_DATA_LOAD, instr ?ld h1)"
      using u1 al instr_ok [OF s(1), of ?ld] write_register_unprotected(5) [of ?D h1] by (simp add: write_inv_def)
    then show ?thesis using st 4 stay by (auto simp: step split: if_splits)
  next
    case 5
    then have "unprotected h1" using c(4) by simp
    then show ?thesis using st 5 c(2) enable_ok [OF s(1) a1 _ s(5) [OF 5(1)]] by (auto simp: step write_inv_def)
  next
    case 6
    let ?e = "PG_EXECUTE # row_bytes b p"
    show ?thesis
    proof (cases "w AND STATUS_REGISTER_3_WEL = 0")
      case True
      then show ?thesis using st 6 stay by (auto simp: step)
    next
      case False
      then have we: "write_enabled w" using 6(1) by (simp add: write_enabled_def not_busy_def)
      have u1: "unprotected h1" and ar: "armed_after h1" using 6 c(4) s(4) by simp_all
      have "arr h1 (unat b) (unat p) = blank_page" using same_flashD [OF a1 v] blank by simp
      from execute [OF ar s(3) we u1 v this]
      have "same_flash (arr (instr ?e h1)) (replace_page (arr h1) (unat b) (unat p) ?D)" using 6(5) c(2) by simp
      from same_flash_trans [OF this replace_same_flash [OF a1]]
      have "settled (replace_page f (unat b) (unat p) ?D) (DEVICE_RESET, instr ?e h1)"
        using instr_ok [OF s(1), of ?e] s(3) we u1 by (simp add: settled_def write_register_unprotected)
      then show ?thesis using st 6 False by (auto simp: step)
    qed
  qed
qed

lemma write_page_writes:
  assumes ok: "bus_ok h" and a: "same_flash (arr h) f" and v: "valid_pos (unat b) (unat p)" and len: "PAGE_SIZE \<le> length wbf"
    and blank: "f (unat b) (unat p) = blank_page"
  shows "\<exists>s'. write_page chip b p wbf (of_nat PAGE_SIZE) (DEVICE_RESET, h) = Some (Inr s') \<and>
    settled (replace_page f (unat b) (unat p) (take PAGE_SIZE wbf)) s'"
proof -
  obtain s' where run: "write_page chip b p wbf (of_nat PAGE_SIZE) (DEVICE_RESET, h) = Some (Inr s')"
    using write_page_returns [OF no_failure live_write ok, of "of_nat PAGE_SIZE" wbf b p] len by auto
  have "settled (replace_page f (unat b) (unat p) (take PAGE_SIZE wbf)) s'"
  proof (rule repeat_until_result [OF run [unfolded write_page_def], where I = "write_inv f (take PAGE_SIZE wbf)"])
    show "write_inv f (take PAGE_SIZE wbf) (DEVICE_RESET, h)" using ok a by (simp add: write_inv_def)
  next
    fix s ret s'
    assume "write_inv f (take PAGE_SIZE wbf) s" and "write_block_page chip b p wbf (of_nat PAGE_SIZE) s = Inr (ret, s')"
    then have I: "write_inv f (take PAGE_SIZE wbf) (fst s, snd s)"
      and st: "write_block_page chip b p wbf (of_nat PAGE_SIZE) (fst s, snd s) = Inr (ret, s')" by simp_all
    note step = write_block_inv [OF I v len blank st]
    show "ret = DONE \<Longrightarrow> settled (replace_page f (unat b) (unat p) (take PAGE_SIZE wbf)) s'" using step by simp
    have "same_chip k (k @ [Delay 1000])" for k by (rule events_same_chip) simp_all
    note d = same_chipD [OF this]
    show "write_inv f (take PAGE_SIZE wbf) (pause_us 1000 s')" if "ret \<noteq> DONE"
    proof (cases s')
      case (Pair st' k)
      then show ?thesis using step that same_flash_trans [OF d(1) [of k]] d(2,4) [of k]
        by (auto simp: pause_us_def write_inv_def)
    qed
  qed
  then show ?thesis using run by blast
qed

end

end
