(* ===== verification/Simulated_Chip.thy ===== *)
theory Simulated_Chip
  imports Mxfs_Restart Bcm2711_Flash Parent_Flash
begin

text \<open>
  A chip that meets the contract \<open>nand_chip\<close> and is always ready: a fold over the history of the bus, for the
  instructions the drivers send. Programming clears bits (it ands the buffer into the page), and both programming and
  erasing need the write-enable and unprotected blocks.
\<close>

record sim =
  s_arr :: flash_image
  s_cache :: "byte list"
  s_prot :: byte
  s_cfg :: byte
  s_wel :: bool

definition power_on :: "flash_image \<Rightarrow> sim" where
  "power_on f = \<lparr>s_arr = f, s_cache = replicate 2112 0xFF, s_prot = 0x7C, s_cfg = 0x18, s_wel = False\<rparr>"

definition row_block :: "byte list \<Rightarrow> nat" where
  "row_block row = (unat (row ! 1) * 256 + unat (row ! 2)) div 64"

definition row_page :: "byte list \<Rightarrow> nat" where
  "row_page row = (unat (row ! 1) * 256 + unat (row ! 2)) mod 64"

definition sim_instr :: "byte list \<Rightarrow> sim \<Rightarrow> sim" where
  "sim_instr cmd s =
     (case cmd of
        [] \<Rightarrow> s
      | c # bs \<Rightarrow>
          if cmd = [DEVICE_RESET] then s\<lparr>s_prot := 0x7C, s_cfg := 0x18, s_wel := False\<rparr>
          else if c = WRITE_STATUS_REGISTER_L \<and> length bs = 2
          then (if bs ! 0 = STATUS_REGISTER_1_ADDR then s\<lparr>s_prot := bs ! 1\<rparr>
                else if bs ! 0 = STATUS_REGISTER_2_ADDR then s\<lparr>s_cfg := bs ! 1\<rparr> else s)
          else if c = WRITE_ENABLE then s\<lparr>s_wel := True\<rparr>
          else if c = WRITE_DISABLE then s\<lparr>s_wel := False\<rparr>
          else if c = RANDOM_PG_DATA_LOAD
          then s\<lparr>s_cache := take 2112 (drop 2 bs) @ drop (length (drop 2 bs)) (s_cache s)\<rparr>
          else if c = PG_DATA_READ
          then s\<lparr>s_cache := (if s_cfg s AND 0x40 = 0 \<and> row_block bs < BLOCK_COUNT then s_arr s (row_block bs) (row_page bs) else blank_page) @ replicate 64 0xFF\<rparr>
          else if c = PG_EXECUTE
          then (if s_wel s \<and> s_prot s = 0
                then s\<lparr>s_wel := False, s_arr := replace_page (s_arr s) (row_block bs) (row_page bs)
                  (map2 (AND) (s_arr s (row_block bs) (row_page bs)) (take PAGE_SIZE (s_cache s)))\<rparr> else s)
          else if c = BLOCK_ERASE
          then (if s_wel s \<and> s_prot s = 0
                then s\<lparr>s_wel := False, s_arr := (s_arr s)(row_block bs := (\<lambda>p. blank_page))\<rparr> else s)
          else s)"

fun sim_step :: "bus_event \<Rightarrow> sim \<Rightarrow> sim" where
  "sim_step (Tx bs) s = sim_instr bs s"
| "sim_step e s = s"

definition sim_after :: "flash_image \<Rightarrow> bus \<Rightarrow> sim" where
  "sim_after f h = fold sim_step h (power_on f)"

definition sim_answer :: "sim \<Rightarrow> byte list \<Rightarrow> nat \<Rightarrow> byte" where
  "sim_answer s cmd i =
     (if cmd = [READ_STATUS_REGISTER_L, STATUS_REGISTER_1_ADDR] then s_prot s
      else if cmd = [READ_STATUS_REGISTER_L, STATUS_REGISTER_2_ADDR] then s_cfg s
      else if cmd = [READ_STATUS_REGISTER_L, STATUS_REGISTER_3_ADDR] then (if s_wel s then STATUS_REGISTER_3_WEL else 0)
      else if cmd = [JEDEC_ID, 0] then [0xEF, 0xAA, 0x21] ! i
      else if cmd = [READ_DATA, 0, 0, 0] then s_cache s ! i
      else 0xFF)"

definition sim_chip :: "flash_image \<Rightarrow> chip" where
  "sim_chip f =
     \<lparr>rx_byte = (\<lambda>h i. if h = [] then 0xFF else case last h of Tx cmd \<Rightarrow> sim_answer (sim_after f h) cmd i | _ \<Rightarrow> 0xFF),
      tx_ok = (\<lambda>h. True), rx_ok = (\<lambda>h. True)\<rparr>"

section \<open>The laws\<close>

definition good_image :: "flash_image \<Rightarrow> bool" where
  "good_image f \<longleftrightarrow> (\<forall>b p. valid_pos b p \<longrightarrow> length (f b p) = PAGE_SIZE)"

lemma sim_after_append: "sim_after f (h @ es) = fold sim_step es (sim_after f h)"
  by (simp add: sim_after_def)

lemma row_bytes_row:
  assumes "valid_pos (unat block) (unat page)"
  shows "row_block (row_bytes block page) = unat block" "row_page (row_bytes block page) = unat page"
proof -
  obtain hi lo where r: "row_bytes block page = [0, hi, lo]" and s: "unat hi * 256 + unat lo = unat block * 64 + unat page"
    using row_bytes_address assms by blast
  show "row_block (row_bytes block page) = unat block" using assms by (simp add: row_block_def r s)
  show "row_page (row_bytes block page) = unat page" using assms by (simp add: row_page_def r s)
qed

definition sim_ok :: "sim \<Rightarrow> bool" where
  "sim_ok s \<longleftrightarrow> good_image (s_arr s) \<and> length (s_cache s) = 2112"

lemma row_page_less: "row_page bs < PAGE_COUNT"
  by (simp add: row_page_def)

lemma sim_instr_ok:
  assumes "sim_ok s"
  shows "sim_ok (sim_instr cmd s)"
proof (cases cmd)
  case Nil
  then show ?thesis using assms by (simp add: sim_instr_def)
next
  case (Cons c bs)
  have len: "length (s_arr s b p) = PAGE_SIZE" if "valid_pos b p" for b p
    using assms that by (simp add: sim_ok_def good_image_def)
  then show ?thesis using assms row_page_less [of bs]
    by (auto simp: sim_instr_def Cons sim_ok_def good_image_def replace_page_def)
qed

lemma sim_step_ok: "sim_ok s \<Longrightarrow> sim_ok (sim_step e s)"
  by (cases e) (simp_all add: sim_instr_ok)

lemma sim_after_ok:
  assumes "good_image f"
  shows "sim_ok (sim_after f h)"
proof (induction h rule: rev_induct)
  case Nil
  then show ?case using assms by (simp add: sim_after_def power_on_def sim_ok_def)
next
  case (snoc e h)
  then show ?case by (simp add: sim_after_append sim_step_ok)
qed

lemma sim_instr_registers:
  "register_read cmd \<Longrightarrow> s_prot (sim_instr cmd s) = s_prot s \<and> s_cfg (sim_instr cmd s) = s_cfg s"
  "register_write STATUS_REGISTER_1_ADDR cmd r = Some v \<Longrightarrow> (r = Some v \<Longrightarrow> s_prot s = v) \<Longrightarrow> s_prot (sim_instr cmd s) = v"
  "register_write STATUS_REGISTER_2_ADDR cmd r = Some v \<Longrightarrow> (r = Some v \<Longrightarrow> s_cfg s = v) \<Longrightarrow> s_cfg (sim_instr cmd s) = v"
  by (cases cmd; auto simp: sim_instr_def register_write_def split: if_splits)+

lemma sim_registers:
  "last_written STATUS_REGISTER_1_ADDR h = Some v \<Longrightarrow> s_prot (sim_after f h) = v"
  "last_written STATUS_REGISTER_2_ADDR h = Some v \<Longrightarrow> s_cfg (sim_after f h) = v"
proof (induction h arbitrary: v rule: rev_induct)
  case Nil
  { case 1 then show ?case by (simp add: last_written_def) next case 2 then show ?case by (simp add: last_written_def) }
next
  case (snoc e h)
  { case 1 then show ?case
    proof (cases e)
      case (Tx bs)
      then show ?thesis using 1 snoc.IH(1) sim_instr_registers(1) [of bs "sim_after f h"]
          sim_instr_registers(2) [of bs "last_written STATUS_REGISTER_1_ADDR h" v "sim_after f h"]
        by (auto simp: last_written_append sim_after_append split: if_splits)
    qed (use snoc.IH(1) in \<open>simp_all add: last_written_append sim_after_append\<close>)
  next case 2 then show ?case
    proof (cases e)
      case (Tx bs)
      then show ?thesis using 2 snoc.IH(2) sim_instr_registers(1) [of bs "sim_after f h"]
          sim_instr_registers(3) [of bs "last_written STATUS_REGISTER_2_ADDR h" v "sim_after f h"]
        by (auto simp: last_written_append sim_after_append split: if_splits)
    qed (use snoc.IH(2) in \<open>simp_all add: last_written_append sim_after_append\<close>) }
qed

lemma sim_armed: "armed_after h \<Longrightarrow> s_wel (sim_after f h)"
proof (induction h rule: rev_induct)
  case Nil
  then show ?case by (simp add: armed_after_def chip_after_def)
next
  case (snoc e h)
  obtain q i a where c: "chip_after h = (q, i, a)" by (cases "chip_after h")
  have a: "a \<longrightarrow> s_wel (sim_after f h)" using snoc.IH by (simp add: armed_after_def c)
  have r: "register_read bs \<Longrightarrow> s_wel (sim_instr bs s) = s_wel s" for bs s by (cases bs) (auto simp: sim_instr_def)
  have w: "s_wel (sim_instr [WRITE_ENABLE] s)" for s by (simp add: sim_instr_def)
  show ?case using snoc.prems a r w
    by (cases e) (auto simp: armed_after_def chip_after_append c sim_after_append split: if_splits)
qed

lemma sim_keeps_array: "list_all keeps_array es \<Longrightarrow> s_arr (fold sim_step es s) = s_arr s"
proof (induction es arbitrary: s)
  case (Cons e es)
  have "s_arr (sim_step e s) = s_arr s"
    using Cons.prems by (cases e; simp; rename_tac bs; case_tac bs) (auto simp: sim_instr_def)
  then show ?case using Cons by simp
qed simp

lemma sim_keeps_cache: "list_all quiet es \<Longrightarrow> s_cache (fold sim_step es s) = s_cache s"
proof (induction es arbitrary: s)
  case (Cons e es)
  have "s_cache (sim_step e s) = s_cache s"
    using Cons.prems by (cases e; simp; rename_tac bs; case_tac bs) (auto simp: sim_instr_def)
  then show ?case using Cons by simp
qed simp

lemma sim_after_instr: "sim_after f (instr cmd h) = sim_instr cmd (sim_after f h)"
  by (simp add: sim_after_append instr_def)

lemma sim_rx: "rx_byte (sim_chip f) (h @ [Cs False, Tx cmd]) i = sim_answer (sim_instr cmd (sim_after f h)) cmd i"
  by (simp add: sim_chip_def sim_after_append)

lemma sim_is_nand:
  assumes f: "good_image f"
  shows "rp_nand (sim_chip f) (\<lambda>h. s_arr (sim_after f h)) (\<lambda>h. s_cache (sim_after f h))"
proof
  show "valid_pos b p \<Longrightarrow> length (s_arr (sim_after f h) b p) = PAGE_SIZE" for b p h
    using sim_after_ok [OF f] by (simp add: sim_ok_def good_image_def)
  show cl: "length (s_cache (sim_after f h)) = 2112" for h
    using sim_after_ok [OF f] by (simp add: sim_ok_def)
  show "list_all keeps_array es \<Longrightarrow> same_flash (s_arr (sim_after f (h @ es))) (s_arr (sim_after f h))" for es h
    by (simp add: sim_after_append sim_keeps_array)
  show "list_all quiet es \<Longrightarrow> s_cache (sim_after f (h @ es)) = s_cache (sim_after f h)" for es h
    by (simp add: sim_after_append sim_keeps_cache)
  show "length data \<le> 2112 \<Longrightarrow> s_cache (sim_after f (instr ([RANDOM_PG_DATA_LOAD, 0, 0] @ data) h)) =
      data @ drop (length data) (s_cache (sim_after f h))" for data h
    by (simp add: sim_after_instr sim_instr_def)
  show "buffer_mode h \<Longrightarrow> valid_pos (unat block) (unat page) \<Longrightarrow>
      take PAGE_SIZE (s_cache (sim_after f (instr (PG_DATA_READ # row_bytes block page) h))) =
      s_arr (sim_after f h) (unat block) (unat page)" for h block page
    using sim_after_ok [OF f, of h] sim_registers(2) [of h _ f]
    by (auto simp: sim_after_instr sim_instr_def buffer_mode_def row_bytes_row sim_ok_def good_image_def)
  show "armed_after h \<Longrightarrow> unprotected h \<Longrightarrow> valid_pos (unat block) (unat page) \<Longrightarrow>
      same_flash (s_arr (sim_after f (instr (PG_EXECUTE # row_bytes block page) h)))
        (replace_page (s_arr (sim_after f h)) (unat block) (unat page)
          (overlay (s_arr (sim_after f h) (unat block) (unat page)) (take PAGE_SIZE (s_cache (sim_after f h)))))" for h block page
    using sim_armed [of h f] sim_registers(1) [of h 0 f] cl [of h]
    by (simp add: sim_after_instr sim_instr_def unprotected_def row_bytes_row overlay_def)
  show "armed_after h \<Longrightarrow> unprotected h \<Longrightarrow> unat block < BLOCK_COUNT \<Longrightarrow>
      same_flash (s_arr (sim_after f (instr (BLOCK_ERASE # row_bytes block 0) h))) ((s_arr (sim_after f h))(unat block := (\<lambda>p. blank_page)))" for h block
    using sim_armed [of h f] sim_registers(1) [of h 0 f]
    by (simp add: sim_after_instr sim_instr_def unprotected_def row_bytes_row)
  show "rx_byte (sim_chip f) (h @ [Cs False, Tx [READ_DATA, 0, 0, 0]]) i = s_cache (sim_after f h) ! i" for h i
    by (simp add: sim_rx sim_answer_def sim_instr_def)
  show "unprotected h \<Longrightarrow> rx_byte (sim_chip f) (h @ [Cs False, Tx [READ_STATUS_REGISTER_L, STATUS_REGISTER_1_ADDR]]) 0 = 0" for h
    using sim_registers(1) [of h 0 f] by (simp add: sim_rx sim_answer_def sim_instr_def unprotected_def)
  show "rx_byte (sim_chip f) (h @ [Cs False, Tx [JEDEC_ID, 0]]) i = [0xEF, 0xAA, 0x21] ! i" for h i
    by (simp add: sim_rx sim_answer_def sim_instr_def)
  have st: "fst (rp_status (sim_chip f) st h) = (if s_wel (sim_after f h) then STATUS_REGISTER_3_WEL else 0)" for st h
    by (simp add: rp_status_eq Let_def rx_bytes_def sim_rx sim_answer_def sim_instr_def)
  show "live (sleeping 1000) (rp_status (sim_chip f))"
    unfolding live_def eventually_ready_def using sim_armed
    by (intro allI impI conjI exI [where x = 0]) (auto simp: st not_busy_def write_enabled_def)
qed

lemma sim_is_bcm:
  assumes "good_image f"
  shows "bcm_nand (sim_chip f) (\<lambda>h. s_arr (sim_after f h)) (\<lambda>h. s_cache (sim_after f h))"
proof (intro bcm_nand.intro bcm_nand_axioms.intro)
  show "nand_chip (sim_chip f) (\<lambda>h. s_arr (sim_after f h)) (\<lambda>h. s_cache (sim_after f h))"
    by (rule rp_nand.axioms(1) [OF sim_is_nand [OF assms]])
  show "reliable (sim_chip f)" by (simp add: reliable_def sim_chip_def)
  have ok: "tx_ok (sim_chip f) h" "rx_ok (sim_chip f) h" for h by (simp_all add: sim_chip_def)
  have st: "fst (bcm_status (sim_chip f) st h) = (if s_wel (sim_after f h) then STATUS_REGISTER_3_WEL else 0)" for st h
    by (simp add: bcm_status_def bcm_read_registers_def bcm_register_def bcm_query_def bcm_tx_def bcm_rx_def ok Let_def rx_bytes_def
        sim_rx sim_answer_def sim_instr_def)
  show "live (sleeping 10) (bcm_status (sim_chip f))"
    unfolding live_def eventually_ready_def using sim_armed
    by (intro allI impI conjI exI [where x = 0]) (auto simp: st not_busy_def write_enabled_def)
qed

lemma sim_is_parent:
  assumes "good_image f"
  shows "parent_nand (sim_chip f) (\<lambda>h. s_arr (sim_after f h)) (\<lambda>h. s_cache (sim_after f h))"
proof (intro parent_nand.intro parent_nand_axioms.intro)
  show "nand_chip (sim_chip f) (\<lambda>h. s_arr (sim_after f h)) (\<lambda>h. s_cache (sim_after f h))"
    by (rule rp_nand.axioms(1) [OF sim_is_nand [OF assms]])
  show "reliable (sim_chip f)" by (simp add: reliable_def sim_chip_def)
  have ok: "tx_ok (sim_chip f) h" "rx_ok (sim_chip f) h" for h by (simp_all add: sim_chip_def)
  note defs = par_read_registers_def par_register_def par_query_def par_tx_def par_rx_def
  have st: "fst (par_status (sim_chip f) h) = (if s_wel (sim_after f h) then STATUS_REGISTER_3_WEL else 0)" for h
    by (simp add: par_status_def defs ok Let_def rx_bytes_def sim_rx sim_answer_def sim_instr_def)
  have est: "fst (erase_status (sim_chip f) h) = (if s_wel (sim_after f h) then STATUS_REGISTER_3_WEL else 0)" for h
    using sim_rx [of f "h @ [Cs False, Tx [15, 160], Rx [v], Cs True, Cs False, Tx [15, 176], Rx [w], Cs True]" for v w]
    by (simp add: erase_status_def defs ok Let_def rx_bytes_def sim_answer_def sim_instr_def sim_after_append)
  show "live (sleeping 1000) (\<lambda>st. par_status (sim_chip f))" "live id (\<lambda>st. par_status (sim_chip f))"
    "live id (\<lambda>st. erase_status (sim_chip f))"
    unfolding live_def eventually_ready_def using sim_armed
    by (intro allI impI conjI exI [where x = 0]; auto simp: st est not_busy_def write_enabled_def)+
qed

text \<open>The chip as it comes from the factory, all blocks blank.\<close>

abbreviation (input) blank_image :: flash_image where
  "blank_image \<equiv> \<lambda>b p. blank_page"

interpretation sim: rp_nand "sim_chip blank_image" "\<lambda>h. s_arr (sim_after blank_image h)" "\<lambda>h. s_cache (sim_after blank_image h)"
  by (rule sim_is_nand) (simp add: good_image_def)

interpretation sim_bcm: bcm_nand "sim_chip blank_image" "\<lambda>h. s_arr (sim_after blank_image h)" "\<lambda>h. s_cache (sim_after blank_image h)"
  by (rule sim_is_bcm) (simp add: good_image_def)

interpretation sim_parent: parent_nand "sim_chip blank_image" "\<lambda>h. s_arr (sim_after blank_image h)" "\<lambda>h. s_cache (sim_after blank_image h)"
  by (rule sim_is_parent) (simp add: good_image_def)

end
