(* ===== verification/Parent_Csv.thy ===== *)
theory Parent_Csv
  imports Mxfs_Timerange
begin

text \<open>
  What the \<open>csv\<close> and \<open>search\<close> commands of the parent tool (\<open>sw/parent/src/format.cc\<close>) make of the bytes of a
  page. What they print is a list of rows. A vector access with \<open>at\<close> beyond the 4096 elements throws, which nothing
  catches (\<open>Panic\<close>). Both walks over the chunks of a page are shown against the pages the child writes: the first is a
  \<open>page_walker\<close>, the second is not, as it skips a run by its number of samples.
\<close>

section \<open>The vectors of csv\<close>

text \<open>One of \<open>gyrv\<close>, \<open>accv\<close>, \<open>tmpv\<close> with its count, time and step.\<close>

record csv_vec =
  cv_vals :: "u16 list"
  cv_cnt :: nat
  cv_time :: u64
  cv_step :: u64

definition new_vec :: csv_vec where
  "new_vec = \<lparr>cv_vals = replicate 4096 0, cv_cnt = 0, cv_time = 0, cv_step = 0\<rparr>"

definition vec_put :: "byte list \<Rightarrow> nat \<Rightarrow> nat \<Rightarrow> u16 list \<Rightarrow> u16 list res" where
  "vec_put decbf at i v =
     bindR (mem_read decbf at 2) (\<lambda>bs. if i < length v then Inr (v[i := le_word bs]) else Inl Panic)"

definition put_dim3 :: "byte list \<Rightarrow> nat \<Rightarrow> nat \<Rightarrow> u16 list \<Rightarrow> u16 list res" where
  "put_dim3 decbf bp n v =
     bindR (vec_put decbf (bp + n * 2 * 3) (n * 3 + 0) v) (\<lambda>v.
     bindR (vec_put decbf (bp + n * 2 * 3 + 2) (n * 3 + 1) v) (\<lambda>v.
     vec_put decbf (bp + n * 2 * 3 + 4) (n * 3 + 2) v))"

definition put_dim1 :: "byte list \<Rightarrow> nat \<Rightarrow> nat \<Rightarrow> u16 list \<Rightarrow> u16 list res" where
  "put_dim1 decbf bp n v = vec_put decbf (bp + n * 2 * 1) n v"

definition fill_vec :: "(nat \<Rightarrow> u16 list \<Rightarrow> u16 list res) \<Rightarrow> compress \<Rightarrow> nat \<Rightarrow> csv_vec \<Rightarrow> csv_vec res" where
  "fill_vec put cp count v =
     bindR (foldR put [0..<count] (cv_vals v)) (\<lambda>xs.
     Inr \<lparr>cv_vals = xs, cv_cnt = cv_cnt v + count, cv_time = time64 cp, cv_step = ucast (cp_step cp)\<rparr>)"

section \<open>The rows\<close>

text \<open>
  The hexadecimal dump of the buffer; a record of an ANT+ layer with its length, time and bytes; the head of a run with its
  layer, time, count (and dimension and the samples counted before); a sample of a run with its layer, index, time and values.
\<close>

datatype csv_row =
    Dump "byte list"
  | Rec_ant nat nat u64 "byte list"
  | Head_dim3 nat u64 nat nat nat
  | Head_temp u64 nat
  | Not_support
  | Rec_run nat nat u64 "int list"

record csv_st =
  gyrv :: csv_vec
  accv :: csv_vec
  tmpv :: csv_vec
  rows :: "csv_row list"

definition add_row :: "csv_row \<Rightarrow> csv_st \<Rightarrow> csv_st" where
  "add_row r st = st\<lparr>rows := rows st @ [r]\<rparr>"

function csv_loop :: "byte list \<Rightarrow> nat \<Rightarrow> csv_st \<Rightarrow> csv_st res" where
  "csv_loop decbf offset st =
     (if offset < 4096
      then bindR (mem_read decbf offset 4) (\<lambda>mg.
           if le_word mg \<noteq> MAGIC then Inr st
           else bindR (mem_read decbf offset 16) (\<lambda>hb.
             let cp = compress_of hb; ty = unat (cp_type cp); bp = offset + 16;
                 count = unat (gyr_count cp); dim = unat (gyr_dim cp) in
             if ty \<le> LAYER_ANTP_CADENCE
             then bindR (mem_read decbf bp 18) (\<lambda>bs.
                  csv_loop decbf (bp + unat (ant_length cp)) (add_row (Rec_ant ty (unat (ant_length cp)) (time64 cp) bs) st))
             else if ty = LAYER_GYRO
             then bindR (fill_vec (put_dim3 decbf bp) cp count (gyrv st)) (\<lambda>v.
                  csv_loop decbf (bp + count * 2 * 3)
                    (add_row (Head_dim3 ty (time64 cp) count dim (cv_cnt (gyrv st))) st\<lparr>gyrv := v\<rparr>))
             else if ty = LAYER_ACCELEROMETER
             then bindR (fill_vec (put_dim3 decbf bp) cp count (accv st)) (\<lambda>v.
                  csv_loop decbf (bp + count * 2 * 3)
                    (add_row (Head_dim3 ty (time64 cp) count dim (cv_cnt (accv st))) st\<lparr>accv := v\<rparr>))
             else if ty = LAYER_TEMPERATURE
             then bindR (fill_vec (put_dim1 decbf bp) cp (unat (tmp_count cp)) (tmpv st)) (\<lambda>v.
                  csv_loop decbf (bp + unat (tmp_count cp) * 2)
                    (add_row (Head_temp (time64 cp) (unat (tmp_count cp))) st\<lparr>tmpv := v\<rparr>))
             else csv_loop decbf bp (add_row Not_support st)))
      else Inr st)"
  by pat_completeness auto
termination by (relation "measure (\<lambda>(decbf, offset, st). 4096 - offset)") auto

declare csv_loop.simps [simp del]

text \<open>The loops that print the samples: \<open>for (n = 0; n < cnt; n += 3)\<close> for the 3-axis layers, all of them for the temperature.\<close>

definition vec_at :: "csv_vec \<Rightarrow> nat \<Rightarrow> int res" where
  "vec_at v i = (if i < length (cv_vals v) then Inr (sint (cv_vals v ! i)) else Inl Panic)"

definition print_dim3 :: "nat \<Rightarrow> csv_vec \<Rightarrow> nat \<Rightarrow> csv_row list \<Rightarrow> csv_row list res" where
  "print_dim3 ty v k out = (let n = 3 * k in
     bindR (vec_at v n) (\<lambda>x.
     bindR (vec_at v (n + 1)) (\<lambda>y.
     bindR (vec_at v (n + 2)) (\<lambda>z.
     Inr (out @ [Rec_run ty n (cv_time v + cv_step v * of_nat n) [x, y, z]])))))"

definition print_dim1 :: "nat \<Rightarrow> csv_vec \<Rightarrow> nat \<Rightarrow> csv_row list \<Rightarrow> csv_row list res" where
  "print_dim1 ty v n out =
     bindR (vec_at v n) (\<lambda>x. Inr (out @ [Rec_run ty n (cv_time v + cv_step v * of_nat n) [x]]))"

definition csv_page :: "byte list \<Rightarrow> csv_row list res" where
  "csv_page decbf =
     bindR (csv_loop decbf 0 \<lparr>gyrv = new_vec, accv = new_vec, tmpv = new_vec, rows = [Dump decbf]\<rparr>) (\<lambda>st.
     bindR (foldR (print_dim3 LAYER_GYRO (gyrv st)) [0..<(cv_cnt (gyrv st) + 2) div 3] (rows st)) (\<lambda>out.
     bindR (foldR (print_dim3 LAYER_ACCELEROMETER (accv st)) [0..<(cv_cnt (accv st) + 2) div 3] out) (\<lambda>out.
     foldR (print_dim1 LAYER_TEMPERATURE (tmpv st)) [0..<cv_cnt (tmpv st)] out)))"

section \<open>The search of a page\<close>

text \<open>
  The time of a chunk counts where it is not zero, lies between the bounds and is not in the list yet; the
  \<open>std::map\<close> from \<open>block << 16 | page\<close> is an association list in the order of its keys.
\<close>

definition add_time :: "u32 \<Rightarrow> u32 \<Rightarrow> u32 \<Rightarrow> u32 list option \<Rightarrow> u32 list option" where
  "add_time epoch_s epoch_e t ts =
     (if t \<noteq> 0 \<and> epoch_s \<le> t \<and> t \<le> epoch_e
      then (case ts of Some xs \<Rightarrow> if t \<in> set xs then ts else Some (xs @ [t]) | None \<Rightarrow> Some [t])
      else ts)"

function search_loop :: "u32 \<Rightarrow> u32 \<Rightarrow> byte list \<Rightarrow> nat \<Rightarrow> u32 list option \<Rightarrow> u32 list option res" where
  "search_loop epoch_s epoch_e cmd offset ts =
     (if offset < 2112
      then bindR (mem_read cmd offset 4) (\<lambda>mg.
           if le_word mg \<noteq> MAGIC then Inr ts
           else bindR (mem_read cmd offset 16) (\<lambda>hb.
             let cp = compress_of hb; ty = unat (cp_type cp);
                 skip = (if ty \<le> LAYER_ANTP_CADENCE then unat (ant_length cp)
                         else if ty \<le> LAYER_ACCELEROMETER then unat (gyr_count cp)
                         else if ty = LAYER_TEMPERATURE then unat (tmp_count cp) else 0) in
             search_loop epoch_s epoch_e cmd (offset + skip + 16) (add_time epoch_s epoch_e (cp_time cp) ts)))
      else Inr ts)"
  by pat_completeness auto
termination by (relation "measure (\<lambda>(epoch_s, epoch_e, cmd, offset, ts). 2112 - offset)") auto

declare search_loop.simps [simp del]

section \<open>16-bit values\<close>

fun shorts :: "byte list \<Rightarrow> u16 list" where
  "shorts (a # b # bs) = le_word [a, b] # shorts bs"
| "shorts bs = []"

lemma length_shorts [simp]: "length (shorts bs) = length bs div 2"
  by (induction bs rule: shorts.induct) simp_all

lemma nth_shorts: "2 * i + 1 < length bs \<Longrightarrow> shorts bs ! i = le_word [bs ! (2 * i), bs ! (2 * i + 1)]"
proof (induction bs arbitrary: i rule: shorts.induct)
  case (1 a b bs)
  then show ?case by (cases i) simp_all
qed simp_all

lemma shorts_append: "even (length xs) \<Longrightarrow> shorts (xs @ ys) = shorts xs @ shorts ys"
  by (induction xs rule: shorts.induct) simp_all

lemma shorts_bodies: "even sz \<Longrightarrow> sized sz ss \<Longrightarrow> shorts (bodies ss) = concat (map (\<lambda>s. shorts (snd s)) ss)"
  by (induction ss) (auto simp: bodies_def shorts_append)

lemma take_concat_same:
  assumes "\<forall>x \<in> set xs. length x = k" and "j < length xs"
  shows "take k (drop (k * j) (concat xs)) = xs ! j"
  using assms
proof (induction xs arbitrary: j)
  case (Cons x xs)
  then show ?case by (cases j) (auto simp: add.commute)
qed simp

section \<open>Filling the vectors\<close>

lemma mem_read_2: "2 * i + 1 < length bs \<Longrightarrow> mem_read bs (2 * i) 2 = Inr [bs ! (2 * i), bs ! (2 * i + 1)]"
  by (simp add: mem_read_def numeral_2_eq_2 take_Suc_conv_app_nth)

lemma vec_put_shorts:
  "2 * i + 1 < length bs \<Longrightarrow> i < length v \<Longrightarrow> vec_put bs (2 * i) i v = Inr (v[i := shorts bs ! i])"
  by (simp add: vec_put_def mem_read_2 nth_shorts)

text \<open>The vector after the first \<open>n\<close> values.\<close>

definition filled :: "u16 list \<Rightarrow> nat \<Rightarrow> u16 list \<Rightarrow> u16 list" where
  "filled xs n v = take n xs @ drop n v"

lemma length_filled [simp]: "n \<le> length xs \<Longrightarrow> n \<le> length v \<Longrightarrow> length (filled xs n v) = length v"
  by (simp add: filled_def)

lemma filled_0 [simp]: "filled xs 0 v = v"
  by (simp add: filled_def)

lemma filled_Suc: "n < length xs \<Longrightarrow> n < length v \<Longrightarrow> (filled xs n v)[n := xs ! n] = filled xs (Suc n) v"
  by (rule nth_equalityI) (auto simp: filled_def nth_append nth_list_update)

lemma vec_put_filled:
  "2 * i + 1 < length bs \<Longrightarrow> i < length v \<Longrightarrow>
   vec_put bs (2 * i) i (filled (shorts bs) i v) = Inr (filled (shorts bs) (Suc i) v)"
  by (simp add: vec_put_shorts filled_Suc)

lemma put_dim3_filled:
  assumes "6 * n + 5 < length bs" and "3 * n + 2 < length v"
  shows "put_dim3 bs 0 n (filled (shorts bs) (3 * n) v) = Inr (filled (shorts bs) (3 * Suc n) v)"
proof -
  have i: "n * 2 * 3 = 2 * (3 * n)" "2 * (3 * n) + 2 = 2 * Suc (3 * n)" "2 * (3 * n) + 4 = 2 * Suc (Suc (3 * n))"
    "n * 3 + 1 = Suc (3 * n)" "n * 3 + 2 = Suc (Suc (3 * n))" "n * 3 + 0 = 3 * n" "3 * Suc n = Suc (Suc (Suc (3 * n)))" by simp_all
  have b: "2 * (3 * n) + 1 < length bs" "2 * Suc (3 * n) + 1 < length bs" "2 * Suc (Suc (3 * n)) + 1 < length bs"
    and v: "3 * n < length v" "Suc (3 * n) < length v" "Suc (Suc (3 * n)) < length v" using assms by simp_all
  show ?thesis
    unfolding put_dim3_def add_0 i
    by (simp only: vec_put_filled [OF b(1) v(1)] vec_put_filled [OF b(2) v(2)] vec_put_filled [OF b(3) v(3)] bindR_Inr)
qed

lemma put_dim1_filled:
  assumes "2 * n + 1 < length bs" and "n < length v"
  shows "put_dim1 bs 0 n (filled (shorts bs) n v) = Inr (filled (shorts bs) (Suc n) v)"
  using assms vec_put_filled [of n bs v] by (simp add: put_dim1_def mult_ac)

lemma fill_dim3:
  "6 * count \<le> length bs \<Longrightarrow> 3 * count \<le> length v \<Longrightarrow>
   foldR (put_dim3 bs 0) [0..<count] v = Inr (filled (shorts bs) (3 * count) v)"
proof (induction count)
  case (Suc n)
  then show ?case using put_dim3_filled [of n bs v] by (simp add: foldR_append)
qed simp

lemma fill_dim1:
  "2 * count \<le> length bs \<Longrightarrow> count \<le> length v \<Longrightarrow>
   foldR (put_dim1 bs 0) [0..<count] v = Inr (filled (shorts bs) count v)"
proof (induction count)
  case (Suc n)
  then show ?case using put_dim1_filled [of n bs v] by (simp add: foldR_append)
qed simp

section \<open>The walk of csv\<close>

definition csv_visit :: "chunk \<Rightarrow> csv_st \<Rightarrow> csv_st res" where
  "csv_visit ck st =
     (let cp = ck_head ck; ty = ck_type ck; count = unat (gyr_count cp); dim = unat (gyr_dim cp) in
      if ty \<le> LAYER_ANTP_CADENCE
      then Inr (add_row (Rec_ant ty (unat (ant_length cp)) (time64 cp) (ck_body ck)) st)
      else if ty = LAYER_GYRO
      then bindR (fill_vec (put_dim3 (ck_body ck) 0) cp count (gyrv st)) (\<lambda>v.
           Inr (add_row (Head_dim3 ty (time64 cp) count dim (cv_cnt (gyrv st))) st\<lparr>gyrv := v\<rparr>))
      else if ty = LAYER_ACCELEROMETER
      then bindR (fill_vec (put_dim3 (ck_body ck) 0) cp count (accv st)) (\<lambda>v.
           Inr (add_row (Head_dim3 ty (time64 cp) count dim (cv_cnt (accv st))) st\<lparr>accv := v\<rparr>))
      else bindR (fill_vec (put_dim1 (ck_body ck) 0) cp (unat (tmp_count cp)) (tmpv st)) (\<lambda>v.
           Inr (add_row (Head_temp (time64 cp) (unat (tmp_count cp))) st\<lparr>tmpv := v\<rparr>)))"

text \<open>The loops over a chunk in the page read its payload only.\<close>

lemma mem_read_within:
  assumes "drop off m = xs @ rest" and "off \<le> length m" and "k + n \<le> length xs"
  shows "mem_read m (off + k) n = mem_read xs k n"
proof -
  have "length m - off = length xs + length rest" using arg_cong [OF assms(1), of length] by simp
  moreover have "drop (off + k) m = drop k (xs @ rest)" using assms(1) by (metis add.commute drop_drop)
  ultimately show ?thesis using assms(2,3) by (auto simp: mem_read_def)
qed

lemma vec_put_within:
  assumes "drop bp m = xs @ rest" and "bp \<le> length m" and "k + 2 \<le> length xs"
  shows "vec_put m (bp + k) i v = vec_put xs k i v"
  by (simp add: vec_put_def mem_read_within [OF assms])

lemma fill_dim3_within:
  assumes "drop bp m = xs @ rest" and "bp \<le> length m" and "length xs = count * 6"
  shows "fill_vec (put_dim3 m bp) cp count v = fill_vec (put_dim3 xs 0) cp count v"
proof -
  have "put_dim3 m bp n w = put_dim3 xs 0 n w" if "n < count" for n w
    using that assms(3) vec_put_within [OF assms(1,2), of "n * 2 * 3"] vec_put_within [OF assms(1,2), of "n * 2 * 3 + 2"]
      vec_put_within [OF assms(1,2), of "n * 2 * 3 + 4"]
    by (simp add: put_dim3_def add.assoc)
  then have "foldR (put_dim3 m bp) [0..<count] w = foldR (put_dim3 xs 0) [0..<count] w" for w by (intro foldR_cong) simp
  then show ?thesis by (simp add: fill_vec_def)
qed

lemma fill_dim1_within:
  assumes "drop bp m = xs @ rest" and "bp \<le> length m" and "length xs = count * 2"
  shows "fill_vec (put_dim1 m bp) cp count v = fill_vec (put_dim1 xs 0) cp count v"
proof -
  have "put_dim1 m bp n w = put_dim1 xs 0 n w" if "n < count" for n w
    using that assms(3) vec_put_within [OF assms(1,2), of "n * 2"] by (simp add: put_dim1_def)
  then have "foldR (put_dim1 m bp) [0..<count] w = foldR (put_dim1 xs 0) [0..<count] w" for w by (intro foldR_cong) simp
  then show ?thesis by (simp add: fill_vec_def)
qed

interpretation csv_walk: page_walker csv_loop csv_visit 4096
proof unfold_locales
  fix ck off page rest and a :: csv_st
  assume ck: "sensor_chunk ck" and off: "off < 4096" and d: "drop off page = enc_chunk ck @ rest"
  have magic: "cp_magic (ck_head ck) = MAGIC" using ck by (simp add: sensor_chunk_def)
  note reads = chunk_reads [OF d]
  have le: "off + 16 \<le> length page" using reads(3) by (simp add: mem_read_def split: if_splits)
  note step = csv_loop.simps [of page off a] csv_visit_def ck_type_def enc_chunk_def Let_def
  show "csv_loop page off a = bindR (csv_visit ck a) (csv_loop page (off + length (enc_chunk ck)))"
    using ck
  proof (cases rule: sensor_chunk_cases)
    case ant
    then have "mem_read page (off + 16) 18 = Inr (ck_body ck)"
      using mem_read_within [OF reads(4) le, of 0 18] by (simp add: mem_read_def)
    then show ?thesis using off magic reads ant by (simp add: step add_ac)
  next
    case gyro
    note fill = fill_dim3_within [OF reads(4) le, of "unat (gyr_count (ck_head ck))"]
    have "unat (cp_type (ck_head ck)) = 3 \<or> unat (cp_type (ck_head ck)) = 4" using gyro by (auto simp: ck_type_def)
    then show ?thesis using off magic reads(2,3) gyro by (auto simp: step bindR_assoc fill add_ac mult_ac)
  next
    case temp
    note fill = fill_dim1_within [OF reads(4) le, of "unat (tmp_count (ck_head ck))"]
    show ?thesis using off magic reads(2,3) temp by (simp add: step bindR_assoc fill add_ac mult_ac)
  qed
next
  fix off page and a :: csv_st
  assume "off < 4096" "off + 4 \<le> length page" "le_word (take 4 (drop off page)) \<noteq> MAGIC"
  then show "csv_loop page off a = Inr a" by (simp add: csv_loop.simps [of page off] mem_read_def)
qed (simp add: csv_loop.simps)

section \<open>What csv prints of a page\<close>

definition ant_rows :: "nat \<Rightarrow> sample list \<Rightarrow> csv_row list" where
  "ant_rows l ss = map (\<lambda>s. Rec_ant l 18 (fst s) (snd s)) ss"

definition dim3_head :: "nat \<Rightarrow> sample list \<Rightarrow> csv_row list" where
  "dim3_head l ss = (if ss = [] then [] else [Head_dim3 l (fst (hd ss)) (length ss) 3 0])"

definition temp_head :: "sample list \<Rightarrow> csv_row list" where
  "temp_head ss = (if ss = [] then [] else [Head_temp (fst (hd ss)) (length ss)])"

text \<open>The values of the sample \<open>j\<close> of a run, printed as number \<open>k\<close> of the run.\<close>

definition run_row :: "nat \<Rightarrow> sample list \<Rightarrow> u32 \<Rightarrow> nat \<Rightarrow> nat \<Rightarrow> csv_row" where
  "run_row l ss step j k = Rec_run l k (fst (hd ss) + ucast step * of_nat k) (map sint (shorts (snd (ss ! j))))"

text \<open>A third of the samples of a 3-axis layer, all of the temperature.\<close>

definition dim3_rows :: "nat \<Rightarrow> sample list \<Rightarrow> u32 \<Rightarrow> csv_row list" where
  "dim3_rows l ss step = map (\<lambda>j. run_row l ss step j (3 * j)) [0..<(length ss + 2) div 3]"

definition dim1_rows :: "nat \<Rightarrow> sample list \<Rightarrow> u32 \<Rightarrow> csv_row list" where
  "dim1_rows l ss step = map (\<lambda>j. run_row l ss step j j) [0..<length ss]"

definition dim3_step :: "nat \<Rightarrow> sample list \<Rightarrow> u32" where
  "dim3_step l ss = cp_step (gyro_header l (fst (hd ss)) (fst (last ss)) (length ss))"

definition temp_run_step :: "u64 \<Rightarrow> sample list \<Rightarrow> u32" where
  "temp_run_step t ss = cp_step (temp_header (fst (hd ss)) (temp_last t ss) (length ss))"

definition csv_rows :: "pending \<Rightarrow> csv_row list" where
  "csv_rows P = ant_rows 0 (P 0) @ ant_rows 1 (P 1) @ ant_rows 2 (P 2) @
     dim3_head 3 (P 3) @ dim3_head 4 (P 4) @ temp_head (P 5) @
     dim3_rows 3 (P 3) (dim3_step 3 (P 3)) @ dim3_rows 4 (P 4) (dim3_step 4 (P 4)) @
     dim1_rows 5 (P 5) (temp_run_step (carried_last P) (P 5))"

lemma csv_visit_ants:
  assumes "l \<le> 2" and "times_ok ss"
  shows "foldR csv_visit (map (ant_chunk l) ss) st = Inr (st\<lparr>rows := rows st @ ant_rows l ss\<rparr>)"
  using assms(2)
proof (induction ss arbitrary: st)
  case Nil
  then show ?case by (simp add: ant_rows_def)
next
  case (Cons s ss)
  have h: "ck_head (ant_chunk l s) = ant_header l (fst s)" "ck_body (ant_chunk l s) = snd s" by (simp_all add: ant_chunk_def)
  have t: "time64 (ant_header l (fst s)) = fst s" and n: "unat (ant_length (ant_header l (fst s))) = 18"
    using Cons.prems by (simp_all add: ant_header_def times_ok_def time64_header cp_simps take_bit_small)
  have "csv_visit (ant_chunk l s) st = Inr (add_row (Rec_ant l 18 (fst s) (snd s)) st)"
    using assms(1) by (simp add: csv_visit_def h t n)
  then show ?case using Cons by (simp add: times_ok_def add_row_def ant_rows_def)
qed

lemma time64_run_headers:
  assumes "unat t < 2 ^ 32 * 1000"
  shows "time64 (gyro_header l t u k) = t" "time64 (temp_header t u k) = t"
  using time64_header [OF assms, of 1 "of_nat l"] time64_header [OF assms, of 1 5]
  by (simp_all add: gyro_header_def temp_header_def time64_def cp_simps)

text \<open>The vector of a layer after its run has been read into it.\<close>

definition run_vec :: "nat \<Rightarrow> sample list \<Rightarrow> u32 \<Rightarrow> csv_vec" where
  "run_vec n ss step =
     (if ss = [] then new_vec
      else \<lparr>cv_vals = filled (shorts (bodies ss)) n (replicate 4096 0), cv_cnt = length ss, cv_time = fst (hd ss), cv_step = ucast step\<rparr>)"

lemma gyro_header_dim: "unat (gyr_dim (gyro_header l t u k)) = 3"
  by (simp add: gyro_header_def cp_simps take_bit_small)

lemma fill_vec_run3:
  assumes "sized 6 ss" and "length ss \<le> 1365" and "ss \<noteq> []" and "unat (fst (hd ss)) < 2 ^ 32 * 1000"
  shows "fill_vec (put_dim3 (bodies ss) 0) (gyro_header l (fst (hd ss)) (fst (last ss)) (length ss)) (length ss) new_vec =
    Inr (run_vec (3 * length ss) ss (dim3_step l ss))"
  using assms fill_dim3 [of "length ss" "bodies ss" "replicate 4096 0"] length_bodies [OF assms(1)]
  by (simp add: fill_vec_def new_vec_def run_vec_def time64_run_headers dim3_step_def bodies_def)

lemma fill_vec_run1:
  assumes "sized 2 ss" and "length ss \<le> 4096" and "ss \<noteq> []" and "unat (fst (hd ss)) < 2 ^ 32 * 1000"
  shows "fill_vec (put_dim1 (bodies ss) 0) (temp_header (fst (hd ss)) (temp_last t ss) (length ss)) (length ss) new_vec =
    Inr (run_vec (length ss) ss (temp_run_step t ss))"
  using assms fill_dim1 [of "length ss" "bodies ss" "replicate 4096 0"] length_bodies [OF assms(1)]
  by (simp add: fill_vec_def new_vec_def run_vec_def time64_run_headers temp_run_step_def bodies_def)

lemma times_ok_hd: "times_ok ss \<Longrightarrow> ss \<noteq> [] \<Longrightarrow> unat (fst (hd ss)) < 2 ^ 32 * 1000"
  by (cases ss) (simp_all add: times_ok_def)

lemma csv_visit_dim3:
  assumes l: "l = 3 \<or> l = 4" and ss: "sized 6 ss" "length ss \<le> 1365" "times_ok ss"
    and new: "(if l = 3 then gyrv st else accv st) = new_vec"
  shows "foldR csv_visit (gyro_chunks l ss) st =
    Inr ((if l = 3 then st\<lparr>gyrv := run_vec (3 * length ss) ss (dim3_step l ss)\<rparr> else st\<lparr>accv := run_vec (3 * length ss) ss (dim3_step l ss)\<rparr>)
      \<lparr>rows := rows st @ dim3_head l ss\<rparr>)"
proof (cases "ss = []")
  case True
  then show ?thesis using l new by (auto simp: gyro_chunks_def run_vec_def dim3_head_def)
next
  case False
  note t = times_ok_hd [OF ss(3) False]
  have "csv_visit \<lparr>ck_head = gyro_header l (fst (hd ss)) (fst (last ss)) (length ss), ck_body = bodies ss\<rparr> st =
      Inr (add_row (Head_dim3 l (fst (hd ss)) (length ss) 3 0)
        (if l = 3 then st\<lparr>gyrv := run_vec (3 * length ss) ss (dim3_step l ss)\<rparr> else st\<lparr>accv := run_vec (3 * length ss) ss (dim3_step l ss)\<rparr>))"
    using l new ss(2) fill_vec_run3 [OF ss(1,2) False t, of l]
    by (auto simp: csv_visit_def ck_type_def gyro_header_count gyro_header_dim time64_run_headers [OF t] new_vec_def Let_def add_row_def)
  then show ?thesis using False l by (auto simp: gyro_chunks_def add_row_def dim3_head_def)
qed

lemmas csv_visit_gyro = csv_visit_dim3 [of 3, simplified]
lemmas csv_visit_accel = csv_visit_dim3 [of 4, simplified]

lemma csv_visit_temp:
  assumes "sized 2 ss" and "length ss \<le> 4096" and "times_ok ss" and "tmpv st = new_vec"
  shows "foldR csv_visit (temp_chunks t ss) st =
    Inr (st\<lparr>tmpv := run_vec (length ss) ss (temp_run_step t ss), rows := rows st @ temp_head ss\<rparr>)"
proof (cases "ss = []")
  case True
  then show ?thesis using assms(4) by (simp add: temp_chunks_def run_vec_def temp_head_def)
next
  case False
  note t = times_ok_hd [OF assms(3) False]
  have "csv_visit \<lparr>ck_head = temp_header (fst (hd ss)) (temp_last t ss) (length ss), ck_body = bodies ss\<rparr> st =
      Inr (add_row (Head_temp (fst (hd ss)) (length ss)) st\<lparr>tmpv := run_vec (length ss) ss (temp_run_step t ss)\<rparr>)"
    using assms(2,4) fill_vec_run1 [OF assms(1,2) False t]
    by (simp add: csv_visit_def ck_type_def temp_header_count time64_run_headers [OF t] new_vec_def Let_def)
  then show ?thesis using False by (simp add: temp_chunks_def add_row_def temp_head_def)
qed

section \<open>Printing the vectors\<close>

lemma vec_at_run:
  assumes "ss \<noteq> []" and "i < n" and "n \<le> length (shorts (bodies ss))" and "n \<le> 4096"
  shows "vec_at (run_vec n ss step) i = Inr (sint (shorts (bodies ss) ! i))"
  using assms by (simp add: vec_at_def run_vec_def filled_def nth_append)

lemma shorts_sample:
  assumes "even sz" and "sized sz ss" and "j < length ss"
  shows "shorts (snd (ss ! j)) = take (sz div 2) (drop (sz div 2 * j) (shorts (bodies ss)))"
proof -
  have "\<forall>x \<in> set (map (\<lambda>s. shorts (snd s)) ss). length x = sz div 2" using assms(2) by (auto simp: sized_def)
  from take_concat_same [OF this, of j] assms show ?thesis by (simp add: shorts_bodies)
qed

lemma take_3: "k + 2 < length xs \<Longrightarrow> take 3 (drop k xs) = [xs ! k, xs ! (k + 1), xs ! (k + 2)]"
  by (simp add: numeral_eq_Suc take_Suc_conv_app_nth)

lemma foldR_rows: "(\<And>k out. k \<in> set ks \<Longrightarrow> f k out = Inr (out @ [r k])) \<Longrightarrow> foldR f ks out = Inr (out @ map r ks)"
  by (induction ks arbitrary: out) simp_all

lemma print_dim3_run:
  assumes sz: "sized 6 ss" and n: "length ss \<le> 1365" and j: "j < length ss"
  shows "print_dim3 l (run_vec (3 * length ss) ss step) j out = Inr (out @ [run_row l ss step j (3 * j)])"
proof -
  let ?xs = "shorts (bodies ss)"
  have ne: "ss \<noteq> []" using j by auto
  have len: "length ?xs = 3 * length ss" using length_bodies [OF sz] by (simp add: bodies_def)
  have at: "vec_at (run_vec (3 * length ss) ss step) i = Inr (sint (?xs ! i))" if "i < 3 * length ss" for i
    by (rule vec_at_run [OF ne that]) (use len n in simp_all)
  have "shorts (snd (ss ! j)) = take 3 (drop (3 * j) ?xs)" using shorts_sample [OF _ sz j] by simp
  also have "\<dots> = [?xs ! (3 * j), ?xs ! (3 * j + 1), ?xs ! (3 * j + 2)]" by (rule take_3) (use len j in simp)
  finally show ?thesis using j ne by (simp add: print_dim3_def at run_row_def Let_def) (simp add: run_vec_def)
qed

lemma print_dim1_run:
  assumes sz: "sized 2 ss" and n: "length ss \<le> 4096" and j: "j < length ss"
  shows "print_dim1 l (run_vec (length ss) ss step) j out = Inr (out @ [run_row l ss step j j])"
proof -
  let ?xs = "shorts (bodies ss)"
  have ne: "ss \<noteq> []" using j by auto
  have len: "length ?xs = length ss" using length_bodies [OF sz] by (simp add: bodies_def)
  have at: "vec_at (run_vec (length ss) ss step) j = Inr (sint (?xs ! j))"
    by (rule vec_at_run [OF ne j]) (use len n in simp_all)
  have "shorts (snd (ss ! j)) = take 1 (drop j ?xs)" using shorts_sample [OF _ sz j] by simp
  also have "\<dots> = [?xs ! j]" using len j by (simp add: take_Suc_conv_app_nth)
  finally show ?thesis using ne by (simp add: print_dim1_def at run_row_def) (simp add: run_vec_def)
qed

section \<open>csv of a page of the child\<close>

text \<open>A page the child wrote, with whatever follows it in the buffer, is its chunks and then no magic number.\<close>

lemma page_with_tail:
  assumes P: "page_ok P" and "holds_page page P"
  obtains fill where "page @ ext = enc_chunks (page_chunks P) @ fill" "4 \<le> length fill" "le_word (take 4 fill) \<noteq> MAGIC"
proof -
  obtain b where b: "idle_byte b" and page: "page = programmed (page_image P) b"
    using assms(2) by (auto simp: holds_page_def)
  have len: "length (page_image P) \<le> 2000" using length_page_ok [OF P] page_okD(10) [OF P] by simp
  let ?f = "replicate (PAGE_SIZE - length (page_image P)) b"
  have "page @ ext = enc_chunks (page_chunks P) @ (?f @ ext)" by (simp add: page programmed_def page_image_def)
  moreover have "le_word (take 4 (?f @ ext)) \<noteq> MAGIC"
    using len idle_fill_no_magic [OF b, of "PAGE_SIZE - length (page_image P)"] by simp
  ultimately show thesis using that len by simp
qed

lemma csv_walk_rows:
  assumes P: "page_ok P" and t: "\<And>l. l < LAYER_MAX \<Longrightarrow> times_ok (P l)"
  shows "foldR csv_visit (page_chunks P) \<lparr>gyrv = new_vec, accv = new_vec, tmpv = new_vec, rows = out\<rparr> =
    Inr \<lparr>gyrv = run_vec (3 * length (P 3)) (P 3) (dim3_step 3 (P 3)),
      accv = run_vec (3 * length (P 4)) (P 4) (dim3_step 4 (P 4)),
      tmpv = run_vec (length (P 5)) (P 5) (temp_run_step (carried_last P) (P 5)),
      rows = out @ ant_rows 0 (P 0) @ ant_rows 1 (P 1) @ ant_rows 2 (P 2) @ dim3_head 3 (P 3) @ dim3_head 4 (P 4) @ temp_head (P 5)\<rparr>"
proof -
  have n: "length (P 3) \<le> 1365" "length (P 4) \<le> 1365" "length (P 5) \<le> 4096"
    using page_okD(10) [OF P] by (auto simp: pending_len_def page_len_def split: if_splits)
  note visits = csv_visit_ants [OF _ t] csv_visit_gyro [OF page_okD(4) [OF P] n(1) t] csv_visit_accel [OF page_okD(5) [OF P] n(2) t]
    csv_visit_temp [OF page_okD(6) [OF P] n(3) t]
  show ?thesis by (simp add: page_chunks_def foldR_append visits)
qed

lemma run_vec_cnt: "cv_cnt (run_vec n ss step) = length ss"
  by (simp add: run_vec_def new_vec_def)

lemma print_dim3_rows:
  assumes "sized 6 ss" and "length ss \<le> 1365"
  shows "foldR (print_dim3 l (run_vec (3 * length ss) ss step)) [0..<(length ss + 2) div 3] out = Inr (out @ dim3_rows l ss step)"
  unfolding dim3_rows_def by (rule foldR_rows, rule print_dim3_run) (use assms in auto)

lemma print_dim1_rows:
  assumes "sized 2 ss" and "length ss \<le> 4096"
  shows "foldR (print_dim1 l (run_vec (length ss) ss step)) [0..<length ss] out = Inr (out @ dim1_rows l ss step)"
  unfolding dim1_rows_def by (rule foldR_rows, rule print_dim1_run) (use assms in auto)

lemma csv_page_rows:
  assumes P: "page_ok P" and t: "\<And>l. l < LAYER_MAX \<Longrightarrow> times_ok (P l)" and "holds_page page P"
    and len: "length (page @ ext) = 4096"
  shows "csv_page (page @ ext) = Inr (Dump (page @ ext) # csv_rows P)"
proof -
  obtain fill where f: "page @ ext = enc_chunks (page_chunks P) @ fill" "4 \<le> length fill" "le_word (take 4 fill) \<noteq> MAGIC"
    using page_with_tail [OF P assms(3), of ext] by blast
  have n: "length (P 3) \<le> 1365" "length (P 4) \<le> 1365" "length (P 5) \<le> 4096"
    using page_okD(10) [OF P] by (auto simp: pending_len_def page_len_def split: if_splits)
  note walk = csv_walk.walk_page [OF page_chunks_sensor [OF P] f(1) len disjI2 [OF conjI [OF f(2,3)]]]
  note w = csv_walk_rows [OF P, of "[Dump (page @ ext)]"]
  show ?thesis
    by (simp add: csv_page_def walk w t run_vec_cnt print_dim3_rows [OF page_okD(4) [OF P] n(1), simplified] print_dim3_rows [OF page_okD(5) [OF P] n(2), simplified]
        print_dim1_rows [OF page_okD(6) [OF P] n(3)] csv_rows_def)
qed

section \<open>Search of a page of the child\<close>

text \<open>The seconds of a timestamp, as a header holds them.\<close>

definition seconds :: "sample \<Rightarrow> u32" where
  "seconds s = ucast (fst s div 1000)"

definition found_times :: "u32 \<Rightarrow> u32 \<Rightarrow> sample list \<Rightarrow> u32 list option \<Rightarrow> u32 list option" where
  "found_times epoch_s epoch_e ss ts = fold (\<lambda>s. add_time epoch_s epoch_e (seconds s)) ss ts"

lemma search_step:
  assumes d: "drop off page = enc_chunk ck @ rest" and m: "cp_magic (ck_head ck) = MAGIC" and off: "off < 2112"
  shows "search_loop es ee page off ts =
    (let cp = ck_head ck; ty = ck_type ck in
     search_loop es ee page (off + (if ty \<le> 2 then unat (ant_length cp) else if ty \<le> 4 then unat (gyr_count cp)
       else if ty = 5 then unat (tmp_count cp) else 0) + 16) (add_time es ee (cp_time cp) ts))"
  using chunk_reads [OF d] m off by (subst search_loop.simps) (simp add: Let_def ck_type_def)

lemma search_ants:
  assumes "drop off page = enc_chunks (map (\<lambda>(l, s). ant_chunk l s) cks) @ rest" and "length page = 2112" and "rest \<noteq> []"
    and "\<forall>(l, s) \<in> set cks. l \<le> 2 \<and> length (snd s) = 18"
  shows "search_loop es ee page off ts =
    search_loop es ee page (off + 34 * length cks) (found_times es ee (map snd cks) ts)"
  using assms(1,4)
proof (induction cks arbitrary: off ts)
  case Nil
  then show ?case by (simp add: found_times_def)
next
  case (Cons c cks)
  obtain l s where c: "c = (l, s)" by (cases c)
  let ?rest = "enc_chunks (map (\<lambda>(l, s). ant_chunk l s) cks) @ rest"
  have d: "drop off page = enc_chunk (ant_chunk l s) @ ?rest" using Cons.prems(1) by (simp add: c enc_chunks_def)
  have l: "l \<le> 2" and sz: "length (snd s) = 18" using Cons.prems(2) by (auto simp: c)
  have off: "off < 2112" using arg_cong [OF d, of length] assms(2) by simp
  have h: "ck_head (ant_chunk l s) = ant_header l (fst s)" by (simp add: ant_chunk_def)
  have n: "unat (ant_length (ant_header l (fst s))) = 18" and t: "cp_time (ant_header l (fst s)) = seconds s"
    by (simp_all add: ant_header_def cp_simps take_bit_small seconds_def)
  have "drop (off + 34) page = drop 34 (drop off page)" by (simp add: add.commute)
  also have "\<dots> = ?rest" unfolding d using sz by simp
  finally have "search_loop es ee page (off + 34) ts' =
      search_loop es ee page (off + 34 + 34 * length cks) (found_times es ee (map snd cks) ts')" for ts'
    using Cons.IH Cons.prems(2) by simp
  moreover have "search_loop es ee page off ts = search_loop es ee page (off + 34) (add_time es ee (seconds s) ts)"
    using search_step [OF d _ off, of es ee ts] l by (simp add: h n t Let_def add.commute)
  ultimately show ?case by (simp add: c found_times_def add.assoc)
qed

lemma search_stop:
  "off + 4 \<le> length page \<Longrightarrow> le_word (take 4 (drop off page)) \<noteq> MAGIC \<Longrightarrow> search_loop es ee page off ts = Inr ts"
  by (subst search_loop.simps) (simp add: mem_read_def)

text \<open>
  On a page with a gyro run the search sees the ANT+ records and the head of that run, and then goes on inside the run: where
  no magic number stands there, nothing behind it is found. Without runs it sees everything.
\<close>

definition seen_samples :: "pending \<Rightarrow> sample list" where
  "seen_samples P = P 0 @ P 1 @ P 2 @ take 1 (P 3)"

lemma search_page:
  assumes P: "page_ok P" and "holds_page page P" and len: "length (page @ ext) = 2112"
    and none: "P 3 = [] \<Longrightarrow> P 4 = [] \<and> P 5 = []"
    and inside: "P 3 \<noteq> [] \<Longrightarrow> le_word (take 4 (drop (length (P 3)) (bodies (P 3)))) \<noteq> MAGIC"
  shows "search_loop es ee (page @ ext) 0 ts = Inr (found_times es ee (seen_samples P) ts)"
proof -
  let ?cks = "map (Pair (0 :: nat)) (P 0) @ map (Pair 1) (P 1) @ map (Pair 2) (P 2)"
  let ?runs = "gyro_chunks 3 (P 3) @ gyro_chunks 4 (P 4) @ temp_chunks (carried_last P) (P 5)"
  obtain fill where f: "page @ ext = enc_chunks (page_chunks P) @ fill" "4 \<le> length fill" "le_word (take 4 fill) \<noteq> MAGIC"
    using page_with_tail [OF P assms(2), of ext] by blast
  have "page_chunks P = map (\<lambda>(l, s). ant_chunk l s) ?cks @ ?runs" by (simp add: page_chunks_def)
  then have d: "drop 0 (page @ ext) = enc_chunks (map (\<lambda>(l, s). ant_chunk l s) ?cks) @ (enc_chunks ?runs @ fill)"
    using f(1) by (simp add: enc_chunks_def)
  have sz: "\<forall>(l, s) \<in> set ?cks. l \<le> (2 :: nat) \<and> length (snd s) = 18"
    using page_okD(1-3) [OF P] by (auto simp: sized_def)
  have ne: "enc_chunks ?runs @ fill \<noteq> []" using f(2) by auto
  define at ants where "at = 34 * length ?cks" and "ants = found_times es ee (map snd ?cks) ts"
  have "drop at (page @ ext) = drop at (enc_chunks (map (\<lambda>(l, s). ant_chunk l s) ?cks) @ (enc_chunks ?runs @ fill))"
    using d by simp
  moreover have "length (enc_chunks (map (\<lambda>(l, s). ant_chunk l s) ?cks)) = at"
    unfolding at_def using page_okD(1-3) [OF P] by (simp add: enc_chunks_def length_concat comp_def sized_def sum_list_triv cong: map_cong)
  ultimately have dat: "drop at (page @ ext) = enc_chunks ?runs @ fill" by simp
  have "search_loop es ee (page @ ext) 0 ts = search_loop es ee (page @ ext) at ants"
    using search_ants [OF d len ne sz] by (simp add: at_def ants_def)
  also have "\<dots> = Inr (found_times es ee (seen_samples P) ts)"
  proof (cases "P 3 = []")
    case True
    then have fill: "drop at (page @ ext) = fill" using dat none by (simp add: gyro_chunks_def temp_chunks_def enc_chunks_def)
    have "length (page @ ext) - at = length fill" using arg_cong [OF fill, of length] by simp
    then have "at + 4 \<le> length (page @ ext)" using f(2) by linarith
    moreover have "le_word (take 4 (drop at (page @ ext))) \<noteq> MAGIC" using f(3) unfolding fill .
    ultimately have "search_loop es ee (page @ ext) at ants = Inr ants" by (rule search_stop)
    then show ?thesis using True by (simp add: ants_def seen_samples_def comp_def)
  next
    case False
    let ?cp = "gyro_header 3 (fst (hd (P 3))) (fst (last (P 3))) (length (P 3))"
    let ?ck = "\<lparr>ck_head = ?cp, ck_body = bodies (P 3)\<rparr>"
    obtain rest where d3: "drop at (page @ ext) = enc_chunk ?ck @ rest" using False dat by (simp add: gyro_chunks_def enc_chunks_def)
    have blen: "length (bodies (P 3)) = 6 * length (P 3)" using length_bodies [OF page_okD(4) [OF P]] by (simp add: bodies_def)
    have tot: "2112 - at = 16 + 6 * length (P 3) + length rest" using arg_cong [OF d3, of length] len blen by (simp add: enc_chunk_def)
    have pos: "0 < length (P 3)" using False by simp
    have "drop (at + length (P 3) + 16) (page @ ext) = drop (length (P 3) + 16) (drop at (page @ ext))"
      unfolding drop_drop by (simp add: ac_simps)
    also have "\<dots> = drop (length (P 3)) (bodies (P 3)) @ rest" unfolding d3 using blen by (simp add: enc_chunk_def)
    finally have inner: "drop (at + length (P 3) + 16) (page @ ext) = drop (length (P 3)) (bodies (P 3)) @ rest" .
    have "4 \<le> length (drop (length (P 3)) (bodies (P 3)))" using blen pos unfolding length_drop by linarith
    then have "le_word (take 4 (drop (at + length (P 3) + 16) (page @ ext))) \<noteq> MAGIC"
      unfolding inner
      using inside [OF False] by (simp only: take_append diff_is_0_eq [THEN iffD2] take_0 append_Nil2 not_False_eq_True)
    moreover have "at + length (P 3) + 16 + 4 \<le> length (page @ ext)" using tot pos len by linarith
    ultimately have stop: "search_loop es ee (page @ ext) (at + length (P 3) + 16) ts' = Inr ts'" for ts' by (intro search_stop) auto
    have "cp_time ?cp = seconds (hd (P 3))" by (simp add: gyro_header_def cp_simps seconds_def)
    moreover have "unat (gyr_count ?cp) = length (P 3)" by (rule gyro_header_count) (rule page_okD(7) [OF P])
    moreover have "ck_type ?ck = 3" by (simp add: ck_type_def)
    moreover have "at < 2112" using tot by linarith
    ultimately have "search_loop es ee (page @ ext) at ants = Inr (add_time es ee (seconds (hd (P 3))) ants)"
      using search_step [OF d3] stop by (simp add: Let_def)
    then show ?thesis using False by (cases "P 3") (simp_all add: ants_def seen_samples_def found_times_def comp_def)
  qed
  finally show ?thesis .
qed

end
