(* ===== verification/Parent_Tool.thy ===== *)
theory Parent_Tool
  imports Parent_Csv Parent_Nand
begin

text \<open>
  The command line tool (\<open>main\<close> of \<open>sw/parent/src/format.cc\<close>): the options, the set-up of the GPIO and the chip, and the
  eight commands, each a loop over blocks and pages around the step machines. A run is a
  result that may not be there (a loop that never ends), a fault (\<open>exit(1)\<close> is one), or the lines printed and the
  next state: the buffer \<open>cmd\<close>, the status byte of the step machines, and the bus.
\<close>

section \<open>Runs\<close>

type_synonym 'a run = "'a res option"
type_synonym tool = "byte list \<times> byte \<times> bus"

definition bindO :: "'a run \<Rightarrow> ('a \<Rightarrow> 'b run) \<Rightarrow> 'b run" where
  "bindO m f = (case m of None \<Rightarrow> None | Some (Inl e) \<Rightarrow> Some (Inl e) | Some (Inr x) \<Rightarrow> f x)"

fun foldO :: "('x \<Rightarrow> 'a \<Rightarrow> 'a run) \<Rightarrow> 'x list \<Rightarrow> 'a \<Rightarrow> 'a run" where
  "foldO f [] a = Some (Inr a)"
| "foldO f (x # xs) a = bindO (f x a) (foldO f xs)"

lemma bindO_simps [simp]:
  "bindO None f = None" "bindO (Some (Inl e)) f = Some (Inl e)" "bindO (Some (Inr x)) f = f x"
  by (simp_all add: bindO_def)

section \<open>Options\<close>

record options =
  o_type :: string
  o_config :: string
  page_s :: u16
  page_e :: u16
  block_s :: u16
  block_e :: u16
  put_string :: u16
  epoch_s :: u32
  epoch_e :: u32

definition no_options :: options where
  "no_options = \<lparr>o_type = [], o_config = [], page_s = 0, page_e = 0, block_s = 0, block_e = 0,
     put_string = 0xFFFF, epoch_s = 0, epoch_e = 0\<rparr>"

text \<open>\<open>atoi\<close>: white space, a sign, digits up to the first other character. (Beyond the range of \<open>int\<close> C leaves it undefined.)\<close>

definition digit :: "char \<Rightarrow> bool" where
  "digit c \<longleftrightarrow> of_char c \<in> {48 .. 57 :: nat}"

definition space :: "char \<Rightarrow> bool" where
  "space c \<longleftrightarrow> c = CHR '' '' \<or> of_char c \<in> {9 .. 13 :: nat}"

definition digits_value :: "string \<Rightarrow> int" where
  "digits_value s = fold (\<lambda>c v. 10 * v + (of_char c - 48)) (takeWhile digit s) 0"

definition atoi :: "string \<Rightarrow> int" where
  "atoi s =
     (case dropWhile space s of
        [] \<Rightarrow> 0
      | c # cs \<Rightarrow> if c = CHR ''-'' then - digits_value cs
                  else if c = CHR ''+'' then digits_value cs else digits_value (c # cs))"

text \<open>What \<open>getopt\<close> returns is an argument: the option character (\<open>'?'\<close> for one it does not know) and \<open>optarg\<close>.\<close>

definition set_option :: "char \<times> string option \<Rightarrow> options \<Rightarrow> options res" where
  "set_option = (\<lambda>(opt, optarg) o1.
     if opt \<notin> set ''tcSEsepaz'' then Inl Exits
     else Inr (case optarg of
        None \<Rightarrow> o1
      | Some s \<Rightarrow>
          if opt = CHR ''t'' then o1\<lparr>o_type := s\<rparr>
          else if opt = CHR ''c'' then o1\<lparr>o_config := s\<rparr>
          else if opt = CHR ''S'' then o1\<lparr>page_s := of_int (atoi s)\<rparr>
          else if opt = CHR ''E'' then o1\<lparr>page_e := of_int (atoi s)\<rparr>
          else if opt = CHR ''s'' then o1\<lparr>block_s := of_int (atoi s)\<rparr>
          else if opt = CHR ''e'' then o1\<lparr>block_e := of_int (atoi s)\<rparr>
          else if opt = CHR ''p'' then o1\<lparr>put_string := of_int (atoi s)\<rparr>
          else if opt = CHR ''a'' then o1\<lparr>epoch_s := of_int (atoi s)\<rparr>
          else o1\<lparr>epoch_e := of_int (atoi s)\<rparr>))"

definition parse_options :: "(char \<times> string option) list \<Rightarrow> options res" where
  "parse_options args =
     bindR (foldR set_option args no_options) (\<lambda>o1. if o_type o1 = [] then Inl Exits else Inr o1)"

section \<open>Set-up\<close>

definition setup_gpio :: "bcm_env \<Rightarrow> bus \<Rightarrow> bus res" where
  "setup_gpio env h =
     (if open_gpio env \<le> 0 then Inl Exits
      else if \<not> mmap_ok env then Inl Exits
      else Inr (h @
        [Hw ''GPFSEL0 &=~'' [7 * 2 ^ 15], Hw ''GPFSEL0 |='' [2 ^ 15], Hw ''GPCLR0'' [2 ^ 5],
         Hw ''GPFSEL0 &=~'' [7 * 2 ^ 18], Hw ''GPFSEL0 |='' [2 ^ 18], Hw ''GPSET0'' [2 ^ 6],
         Hw ''GPFSEL2 &=~'' [7 * 2 ^ 6], Hw ''GPFSEL2 |='' [2 ^ 6], Cs True,
         Hw ''GPFSEL1 &=~'' [7 * 2 ^ 3], Hw ''GPFSEL1 |='' [4 * 2 ^ 3], Hw ''GPSET0'' [2 ^ 11],
         Hw ''GPFSEL1 &=~'' [7], Hw ''GPFSEL1 |='' [4], Hw ''GPSET0'' [2 ^ 10],
         Hw ''GPFSEL0 &=~'' [7 * 2 ^ 27], Hw ''GPFSEL0 |='' [4 * 2 ^ 27], Hw ''GPSET0'' [2 ^ 9]]))"

text \<open>Reset, identification, un-protect and write enable; \<open>cmd\<close> keeps the last three bytes put into it.\<close>

definition setup_chip :: "chip \<Rightarrow> bcm_env \<Rightarrow> bus \<Rightarrow> tool res" where
  "setup_chip chip env h =
     (if open_spi env \<le> 0 then Inl Exits
      else if \<not> list_all (\<lambda>r. r \<ge> 0) (setup_ioctls env) then Inl Exits
      else case par_query chip [JEDEC_ID, 0] (replicate 3 0) (par_instr chip [DEVICE_RESET] h @ [Delay 1000]) of (jid, h) \<Rightarrow>
        if jid \<noteq> [0xEF, 0xAA, 0x21] then Inl Exits
        else let h = par_instr chip [WRITE_STATUS_REGISTER_L, STATUS_REGISTER_1_ADDR, 0] h @ [Delay 100];
                 h = par_instr chip [WRITE_ENABLE] h @ [Delay 100]
             in Inr ([WRITE_ENABLE, STATUS_REGISTER_1_ADDR, 0] @ replicate 2109 0, DEVICE_RESET, h))"

definition init_block :: "chip \<Rightarrow> nat \<Rightarrow> byte \<times> bus \<Rightarrow> (byte \<times> bus) run" where
  "init_block chip block = repeat_until (\<lambda>s.
     case read_initialize chip (of_nat block) s of (ret, s') \<Rightarrow>
     if ret = -1 then Inl Exits else Inr (ret, s')) id"

definition init_blocks :: "chip \<Rightarrow> string \<Rightarrow> tool \<Rightarrow> tool run" where
  "init_blocks chip ty = (\<lambda>(cmd, status, h).
     if ty = ''erase'' then Some (Inr (cmd, DEVICE_RESET, h))
     else bindO (foldO (init_block chip) [0..<BLOCK_COUNT] (DEVICE_RESET, h)) (\<lambda>s. Some (Inr (cmd, s))))"

section \<open>What is printed\<close>

text \<open>A dump of \<open>cmd\<close>, a string out of it, the end of a block, the rows of a page, the timestamps found in a page.\<close>

datatype line =
    Page_dump "byte list"
  | Page_string "byte list"
  | Block_done nat
  | Csv_rows "csv_row list"
  | Times u32 u32 "u32 list"

definition c_string :: "byte list \<Rightarrow> nat \<Rightarrow> byte list res" where
  "c_string cmd k = (if 0 \<in> set (drop k cmd) then Inr (takeWhile (\<lambda>b. b \<noteq> 0) (drop k cmd)) else Inl Out_of_bounds)"

definition print_page :: "u16 \<Rightarrow> byte list \<Rightarrow> line list res" where
  "print_page k cmd =
     (if k \<noteq> 0xFFFF then bindR (c_string cmd (unat k)) (\<lambda>s. Inr [Page_dump cmd, Page_string s])
      else Inr [Page_dump cmd])"

section \<open>read, erase, format, check\<close>

text \<open>The loops over the blocks from \<open>bs\<close> to \<open>be\<close> and, inside, the pages from \<open>ps\<close> to \<open>pe\<close>.\<close>

definition each_page ::
  "nat \<Rightarrow> nat \<Rightarrow> nat \<Rightarrow> nat \<Rightarrow> (nat \<Rightarrow> nat \<Rightarrow> 'a \<Rightarrow> 'a run) \<Rightarrow> 'a \<Rightarrow> 'a run" where
  "each_page bs be ps pe body = foldO (\<lambda>b. foldO (body b) [ps..<pe]) [bs..<be]"

definition range_pages :: "options \<Rightarrow> (nat \<Rightarrow> nat \<Rightarrow> 'a \<Rightarrow> 'a run) \<Rightarrow> 'a \<Rightarrow> 'a run" where
  "range_pages o1 = each_page (unat (block_s o1)) (unat (block_e o1)) (unat (page_s o1)) (unat (page_e o1))"

definition read_command :: "chip \<Rightarrow> options \<Rightarrow> tool \<Rightarrow> (line list \<times> tool) run" where
  "read_command chip o1 = (\<lambda>(cmd, status, h).
     range_pages o1 (\<lambda>b p (out, s).
       bindO (read_page chip (of_nat b) (of_nat p) s) (\<lambda>s'.
       bindO (Some (print_page (put_string o1) (fst s'))) (\<lambda>ls. Some (Inr (out @ ls, s')))))
     ([], cmd, DEVICE_RESET, h))"

definition erase_blocks :: "chip \<Rightarrow> nat \<Rightarrow> line list \<times> tool \<Rightarrow> (line list \<times> tool) run" where
  "erase_blocks chip b = (\<lambda>(out, cmd, s).
     bindO (erase_one chip (of_nat b) s) (\<lambda>s'. Some (Inr (out @ [Block_done b], cmd, s'))))"

definition erase_command :: "chip \<Rightarrow> options \<Rightarrow> tool \<Rightarrow> (line list \<times> tool) run" where
  "erase_command chip o1 = (\<lambda>(cmd, status, h).
     foldO (erase_blocks chip) [unat (block_s o1)..<unat (block_e o1)] ([], cmd, DEVICE_RESET, h))"

text \<open>Whether the first 16 bytes are blank.\<close>

definition looks_blank :: "byte list \<Rightarrow> bool" where
  "looks_blank cmd \<longleftrightarrow> list_all (\<lambda>n. cmd ! n = 0xFF) [0..<16]"

definition has_magic :: "byte list \<Rightarrow> bool" where
  "has_magic cmd \<longleftrightarrow> le_word (take 4 cmd) = MAGIC"

text \<open>Reads a page into \<open>cmd\<close>; the tool exits where it does not look good.\<close>

definition require_page :: "chip \<Rightarrow> (byte list \<Rightarrow> bool) \<Rightarrow> nat \<Rightarrow> nat \<Rightarrow> tool \<Rightarrow> tool run" where
  "require_page chip good b p s =
     bindO (read_page chip (of_nat b) (of_nat p) s) (\<lambda>s'. if good (fst s') then Some (Inr s') else Some (Inl Exits))"

definition format_block :: "chip \<Rightarrow> nat \<Rightarrow> line list \<times> tool \<Rightarrow> (line list \<times> tool) run" where
  "format_block chip b = (\<lambda>(out, cmd, s).
     bindO (erase_one chip (of_nat b) s) (\<lambda>s'.
     bindO (foldO (require_page chip looks_blank b) [0..<PAGE_COUNT] (cmd, s')) (\<lambda>t.
     Some (Inr (out @ [Block_done b], t)))))"

definition format_command :: "chip \<Rightarrow> tool \<Rightarrow> (line list \<times> tool) run" where
  "format_command chip = (\<lambda>(cmd, status, h).
     foldO (format_block chip) [0..<BLOCK_COUNT] ([], cmd, DEVICE_RESET, h))"

definition check_block :: "chip \<Rightarrow> nat \<Rightarrow> line list \<times> tool \<Rightarrow> (line list \<times> tool) run" where
  "check_block chip b = (\<lambda>(out, t).
     bindO (foldO (require_page chip (\<lambda>cmd. has_magic cmd \<or> looks_blank cmd) b) [0..<PAGE_COUNT] t) (\<lambda>t.
     Some (Inr (out @ [Block_done b], t))))"

definition check_command :: "chip \<Rightarrow> tool \<Rightarrow> (line list \<times> tool) run" where
  "check_command chip = (\<lambda>(cmd, status, h).
     foldO (check_block chip) [0..<BLOCK_COUNT] ([], cmd, DEVICE_RESET, h))"

section \<open>config, write\<close>

definition config_header :: "nat \<Rightarrow> compress \<Rightarrow> compress" where
  "config_header n cp =
     set_ant_length (of_nat n) (set_type (of_nat LAYER_CONFIG) (cp\<lparr>cp_magic := MAGIC\<rparr>))"

definition config_image :: "byte list \<Rightarrow> byte list res" where
  "config_image config = (let cmd = replicate 2112 0 in
     bindR (mem_read cmd 0 16) (\<lambda>hb.
     bindR (mem_write cmd 0 (compress_bytes (config_header (length config) (compress_of hb)))) (\<lambda>cmd.
     mem_write cmd 16 (take (min (length config) (2112 - 4)) config))))"

definition config_command :: "chip \<Rightarrow> options \<Rightarrow> tool \<Rightarrow> (line list \<times> tool) run" where
  "config_command chip o1 = (\<lambda>(cmd, status, h).
     let config = map of_char (o_config o1) in
     if config \<noteq> [] \<and> length config < 2112 - 4
     then bindO (Some (config_image config)) (\<lambda>cmd.
          bindO (write_page chip 0 0 cmd (2112 - 64) (DEVICE_RESET, h)) (\<lambda>s. Some (Inr ([], cmd, s))))
     else Some (Inr ([], cmd, DEVICE_RESET, h)))"

text \<open>The test pattern of the write: the page number over half of the block number, the magic number over both.\<close>

definition write_pattern :: "nat \<Rightarrow> nat \<Rightarrow> byte list \<Rightarrow> byte list res" where
  "write_pattern b p cmd =
     bindR (mem_write cmd 0 (le_bytes 4 (of_nat b :: u32))) (\<lambda>cmd.
     bindR (mem_write cmd 2 (le_bytes 4 (of_nat p :: u32))) (\<lambda>cmd.
     bindR (mem_write cmd 8 (map of_nat [8..<2112])) (\<lambda>cmd.
     mem_write cmd 0 (le_bytes 4 MAGIC))))"

definition write_command :: "chip \<Rightarrow> options \<Rightarrow> tool \<Rightarrow> (line list \<times> tool) run" where
  "write_command chip o1 = (\<lambda>(cmd, status, h).
     range_pages o1 (\<lambda>b p (out, cmd, status, h).
       bindO (Some (write_pattern b p cmd)) (\<lambda>cmd.
       bindO (write_page chip (of_nat b) (of_nat p) cmd (2112 - 64) (DEVICE_RESET, h)) (\<lambda>s. Some (Inr (out, cmd, s)))))
     ([], cmd, DEVICE_RESET, h))"

section \<open>csv, search\<close>

definition csv_command :: "chip \<Rightarrow> options \<Rightarrow> tool \<Rightarrow> (line list \<times> tool) run" where
  "csv_command chip o1 = (\<lambda>(cmd, status, h).
     range_pages o1 (\<lambda>b p (out, cmd, status, h).
       bindO (read_page chip (of_nat b) (of_nat p) (replicate 4096 0, DEVICE_RESET, h)) (\<lambda>(decbf, s).
       bindO (Some (csv_page decbf)) (\<lambda>rs. Some (Inr (out @ [Csv_rows rs], cmd, s)))))
     ([], cmd, DEVICE_RESET, h))"

type_synonym times_map = "(u32 \<times> u32 list) list"

fun put_times :: "u32 \<Rightarrow> u32 list \<Rightarrow> times_map \<Rightarrow> times_map" where
  "put_times k v [] = [(k, v)]"
| "put_times k v ((k', v') # m) =
     (if k < k' then (k, v) # (k', v') # m else if k = k' then (k, v) # m else (k', v') # put_times k v m)"

definition blockpage :: "nat \<Rightarrow> nat \<Rightarrow> u32" where
  "blockpage b p = (push_bit 16 (of_nat b) AND 0xFFFF0000) OR (of_nat p AND 0x0000FFFF)"

text \<open>The pages of a block up to the first without a magic number. Within a page only the entry of its key changes.\<close>

primrec search_pages ::
  "chip \<Rightarrow> u32 \<Rightarrow> u32 \<Rightarrow> nat \<Rightarrow> nat list \<Rightarrow> times_map \<times> tool \<Rightarrow> (times_map \<times> tool) run" where
  "search_pages chip es ee b [] a = Some (Inr a)"
| "search_pages chip es ee b (p # ps) a = (case a of (m, cmd, status, h) \<Rightarrow>
     bindO (read_page chip (of_nat b) (of_nat p) (cmd, DEVICE_RESET, h)) (\<lambda>(cmd, s).
     if \<not> has_magic cmd then Some (Inr (m, cmd, s))
     else bindO (Some (search_loop es ee cmd 0 (map_of m (blockpage b p)))) (\<lambda>ts.
          search_pages chip es ee b ps
            ((case ts of None \<Rightarrow> m | Some xs \<Rightarrow> put_times (blockpage b p) xs m), cmd, s))))"

definition times_lines :: "times_map \<Rightarrow> line list" where
  "times_lines m = map (\<lambda>(k, v). Times (drop_bit 16 k AND 0xFFFF) (k AND 0xFFFF) v) m"

definition search_command :: "chip \<Rightarrow> options \<Rightarrow> tool \<Rightarrow> (line list \<times> tool) run" where
  "search_command chip o1 = (\<lambda>(cmd, status, h).
     bindO (foldO (\<lambda>b. search_pages chip (epoch_s o1) (epoch_e o1) b [0..<PAGE_COUNT]) [0..<BLOCK_COUNT] ([], cmd, status, h))
       (\<lambda>(m, t). Some (Inr (times_lines m, t))))"

section \<open>main\<close>

definition command :: "chip \<Rightarrow> options \<Rightarrow> tool \<Rightarrow> (line list \<times> tool) run" where
  "command chip o1 t =
     (if o_type o1 = ''read'' then read_command chip o1 t
      else if o_type o1 = ''erase'' then erase_command chip o1 t
      else if o_type o1 = ''format'' then format_command chip t
      else if o_type o1 = ''check'' then check_command chip t
      else if o_type o1 = ''config'' then config_command chip o1 t
      else if o_type o1 = ''write'' then write_command chip o1 t
      else if o_type o1 = ''csv'' then csv_command chip o1 t
      else if o_type o1 = ''search'' then search_command chip o1 t
      else Some (Inr ([], t)))"

definition parent_main :: "chip \<Rightarrow> bcm_env \<Rightarrow> (char \<times> string option) list \<Rightarrow> bus \<Rightarrow> (line list \<times> tool) run" where
  "parent_main chip env args h =
     bindO (Some (parse_options args)) (\<lambda>o1.
     bindO (Some (setup_gpio env h)) (\<lambda>h.
     bindO (Some (setup_chip chip env h)) (\<lambda>t.
     bindO (init_blocks chip (o_type o1) t) (command chip o1))))"

end
