(* ===== verification/Parent_Commands.thy ===== *)
theory Parent_Commands
  imports Parent_Flash Parent_Tool
begin

text \<open>
  The commands of the parent tool over the chip: from what the step machines do to the array (\<open>parent_nand\<close>), what
  \<open>format\<close>, \<open>check\<close>, \<open>config\<close>, \<open>read\<close> and \<open>csv\<close> do, and that \<open>main\<close> reaches them. All of these runs return.
\<close>

section \<open>Runs that return\<close>

text \<open>A loop whose body returns; \<open>I\<close> is over the elements done.\<close>

lemma foldO_list:
  assumes "\<And>ys x zs a. xs = ys @ x # zs \<Longrightarrow> I ys a \<Longrightarrow> \<exists>a'. f x a = Some (Inr a') \<and> I (ys @ [x]) a'" and "I [] a"
  shows "\<exists>a'. foldO f xs a = Some (Inr a') \<and> I xs a'"
proof -
  have "\<exists>a'. foldO f zs a = Some (Inr a') \<and> I xs a'" if "xs = ys @ zs" "I ys a" for ys zs a
    using that
  proof (induction zs arbitrary: ys a)
    case (Cons z zs)
    obtain a' where a': "f z a = Some (Inr a')" "I (ys @ [z]) a'" using assms(1) Cons.prems by blast
    then show ?case using Cons.IH [of "ys @ [z]" a'] Cons.prems(1) by simp
  qed simp
  from this [of "[]" xs a] assms(2) show ?thesis by simp
qed

text \<open>A loop over the numbers from 0 to \<open>n\<close>.\<close>

lemma foldO_upt:
  assumes "\<And>i a. i < n \<Longrightarrow> I i a \<Longrightarrow> \<exists>a'. f i a = Some (Inr a') \<and> I (Suc i) a'" and "I 0 a"
  shows "\<exists>a'. foldO f [0..<n] a = Some (Inr a') \<and> I n a'"
proof -
  have "\<exists>a'. foldO f [0..<n] a = Some (Inr a') \<and> I (length [0..<n]) a'"
  proof (rule foldO_list [where I = "\<lambda>ys. I (length ys)"])
    fix ys x zs and b
    assume xs: "[0..<n] = ys @ x # zs" and I: "I (length ys) b"
    have l: "length ys < n" using arg_cong [OF xs, of length] by simp
    have "x = [0..<n] ! length ys" by (simp only: xs nth_append_length)
    with l have "x = length ys" by simp
    with l I show "\<exists>b'. f x b = Some (Inr b') \<and> I (length (ys @ [x])) b'" using assms(1) by simp
  qed (simp add: assms(2))
  then show ?thesis by simp
qed

text \<open>A loop whose body goes on where its element is \<open>good\<close> and exits otherwise.\<close>

lemma foldO_exits:
  assumes "\<And>x a. x \<in> set xs \<Longrightarrow> I a \<Longrightarrow> if good x then \<exists>a'. f x a = Some (Inr a') \<and> I a' else f x a = Some (Inl Exits)" and "I a"
  shows "if \<forall>x \<in> set xs. good x then \<exists>a'. foldO f xs a = Some (Inr a') \<and> I a' else foldO f xs a = Some (Inl Exits)"
  using assms
proof (induction xs arbitrary: a)
  case (Cons x xs)
  show ?case
  proof (cases "good x")
    case True
    then obtain a' where "f x a = Some (Inr a')" "I a'" using Cons.prems(1) [of x a] Cons.prems(2) by auto
    then show ?thesis using Cons.IH [of a'] Cons.prems(1) True by simp
  next
    case False
    then have "f x a = Some (Inl Exits)" using Cons.prems(1) [of x a] Cons.prems(2) by simp
    then show ?thesis using False by simp
  qed
qed simp

lemma foldO_append: "foldO f (xs @ ys) a = bindO (foldO f xs a) (foldO f ys)"
  by (induction xs arbitrary: a) (auto simp: bindO_def split: option.splits sum.splits)

text \<open>The two loops are one over the pairs.\<close>

lemma each_page_product:
  "each_page bs be ps pe body a = foldO (\<lambda>(b, p). body b p) (List.product [bs..<be] [ps..<pe]) a"
proof -
  have inner: "foldO (\<lambda>(b, p). body b p) (map (Pair b) xs) a = foldO (body b) xs a" for b xs a
    by (induction xs arbitrary: a) (auto simp: bindO_def split: option.splits sum.splits)
  have "foldO (\<lambda>b. foldO (body b) xs) ys a = foldO (\<lambda>(b, p). body b p) (List.product ys xs) a" for xs ys a
    by (induction ys arbitrary: a) (auto simp: foldO_append inner bindO_def split: option.splits sum.splits)
  then show ?thesis by (simp add: each_page_def)
qed

text \<open>A loop of steps simulated by another one.\<close>

lemma repeat_until_simulates:
  assumes "repeat_until step1 id s1 = Some (Inr r1)" and "R s1 s2"
    and "\<And>s1 s2 ret s1'. R s1 s2 \<Longrightarrow> step1 s1 = Inr (ret, s1') \<Longrightarrow> \<exists>s2'. step2 s2 = Inr (ret, s2') \<and> R s1' s2'"
  shows "\<exists>r2. repeat_until step2 id s2 = Some (Inr r2) \<and> R r1 r2"
proof -
  have "pause = id \<Longrightarrow> y = Inr r1 \<Longrightarrow> R s1 s2 \<Longrightarrow>
      (\<And>s1 s2 ret s1'. R s1 s2 \<Longrightarrow> step s1 = Inr (ret, s1') \<Longrightarrow> \<exists>s2'. step2 s2 = Inr (ret, s2') \<and> R s1' s2') \<Longrightarrow>
      \<exists>r2. repeat_until step2 id s2 = Some (Inr r2) \<and> R r1 r2" if "repeat_until step pause s1 = Some y" for step pause s1 s2 y
    using that
  proof (induction step pause s1 y arbitrary: s2 rule: repeat_until.raw_induct [rotated, consumes 1, case_names 1])
    case (1 rec step pause s1 y)
    obtain ret s1' where p: "step s1 = Inr (ret, s1')" using 1(2,4) by (auto split: sum.splits)
    obtain s2' where q: "step2 s2 = Inr (ret, s2')" "R s1' s2'" using 1(6) [OF 1(5) p] by blast
    show ?case
    proof (cases "ret = DONE")
      case True
      then show ?thesis using 1(2,4) p q by (subst repeat_until.simps) simp
    next
      case False
      then have r: "rec step pause (pause s1') = Some y" using 1(2) p by simp
      have R: "R (pause s1') s2'" using q(2) 1(3) by simp
      have "\<exists>r2. repeat_until step2 id s2' = Some (Inr r2) \<and> R r1 r2"
        by (rule 1(1) [OF r 1(3,4) R]) (rule 1(6))
      then show ?thesis using False q(1) by (subst repeat_until.simps) simp
    qed
  qed
  then show ?thesis using assms by blast
qed

section \<open>The commands on the array\<close>

lemma unat_block: "b < 1024 \<Longrightarrow> unat (of_nat b :: u16) = b" and unat_page: "p < 64 \<Longrightarrow> unat (of_nat p :: u16) = p"
  by (simp_all add: unat_of_nat_small)

lemma blank_looks_blank: "looks_blank (blank_page @ ext)"
  by (auto simp: looks_blank_def list_all_iff nth_append blank_page_def)

lemma looks_blank_append: "16 \<le> length pg \<Longrightarrow> looks_blank (pg @ ext) = looks_blank pg"
  by (auto simp: looks_blank_def list_all_iff nth_append)

lemma has_magic_append: "4 \<le> length pg \<Longrightarrow> has_magic (pg @ ext) = has_magic pg"
  by (simp add: has_magic_def)

text \<open>A page the check accepts.\<close>

definition plausible_page :: "byte list \<Rightarrow> bool" where
  "plausible_page pg \<longleftrightarrow> has_magic pg \<or> looks_blank pg"

context parent_nand
begin

definition tool_ok :: "flash_image \<Rightarrow> tool \<Rightarrow> bool" where
  "tool_ok f t \<longleftrightarrow> length (fst t) = 2112 \<and> settled f (snd t)"

lemma settled_length: "settled f s \<Longrightarrow> valid_pos b p \<Longrightarrow> length (f b p) = PAGE_SIZE"
  using arr_length [of b p "snd s"] same_flashD [of "arr (snd s)" f b p] by (cases s) (simp add: settled_def)

lemma read_page_settled:
  assumes s: "settled f s" and v: "valid_pos b p" and n: "PAGE_SIZE \<le> length rbf"
  shows "\<exists>ext s'. read_page chip (of_nat b) (of_nat p) (rbf, s) = Some (Inr (f b p @ ext, s')) \<and> settled f s' \<and>
    length ext = length rbf - PAGE_SIZE"
proof -
  obtain h where h: "s = (DEVICE_RESET, h)" "bus_ok h" "unprotected h" "same_flash (arr h) f" using s by (cases s) (auto simp: settled_def)
  have u: "unat (of_nat b :: u16) = b" "unat (of_nat p :: u16) = p" using v by (simp_all add: unat_block unat_page)
  obtain t where t: "read_page chip (of_nat b) (of_nat p) (rbf, s) = Some (Inr t)" "got_page f (of_nat b) (of_nat p) (length rbf) t"
    using read_page_gets [OF h(2-4), of "of_nat b" "of_nat p" rbf] v u h(1) by auto
  obtain cmd s' where ts: "t = (cmd, s')" by (cases t)
  have "settled f s'" and len: "length cmd = length rbf" and tk: "take PAGE_SIZE cmd = f b p"
    using t(2) n settled_length [OF s v] by (auto simp: ts got_page_def settled_def u)
  moreover have "cmd = f b p @ drop PAGE_SIZE cmd" using tk by (metis append_take_drop_id)
  ultimately show ?thesis using t(1) ts by (metis length_drop)
qed

lemma require_page_exits:
  assumes t: "tool_ok f t" and v: "valid_pos b p" and g: "\<And>ext. length ext = 64 \<Longrightarrow> good (f b p @ ext) = g"
  shows "if g then \<exists>t'. require_page chip good b p t = Some (Inr t') \<and> tool_ok f t' else require_page chip good b p t = Some (Inl Exits)"
proof -
  obtain ext s' where r: "read_page chip (of_nat b) (of_nat p) (fst t, snd t) = Some (Inr (f b p @ ext, s'))" "settled f s'" "length ext = 64"
    using read_page_settled [of f "snd t" b p "fst t"] t v by (auto simp: tool_ok_def)
  have len: "length (f b p) = PAGE_SIZE" using settled_length [of f "snd t", OF _ v] t by (simp add: tool_ok_def)
  show ?thesis using r g [OF r(3)] len by (simp add: require_page_def tool_ok_def)
qed

subsection \<open>format\<close>

definition erased_below :: "nat \<Rightarrow> flash_image \<Rightarrow> flash_image" where
  "erased_below i f = (\<lambda>b p. if b < i then blank_page else f b p)"

lemma format_block_erases:
  assumes cmd: "length cmd = 2112" and h: "bus_ok h" "same_flash (arr h) (erased_below i f)" and i: "i < BLOCK_COUNT"
  shows "\<exists>t. format_block chip i (out, cmd, DEVICE_RESET, h) = Some (Inr (out @ [Block_done i], t)) \<and> tool_ok (erased_below (Suc i) f) t"
proof -
  let ?f = "erased_below (Suc i) f"
  have f: "(erased_below i f)(i := (\<lambda>p. blank_page)) = ?f" by (auto simp: erased_below_def fun_eq_iff)
  obtain s where e: "erase_one chip (of_nat i) (DEVICE_RESET, h) = Some (Inr s)" "settled ?f s"
    using erase_one_erases [OF h, of "of_nat i"] i f by (auto simp: unat_block)
  have "if \<forall>p \<in> set [0..<PAGE_COUNT]. True then \<exists>t. foldO (require_page chip looks_blank i) [0..<PAGE_COUNT] (cmd, s) = Some (Inr t) \<and> tool_ok ?f t
      else foldO (require_page chip looks_blank i) [0..<PAGE_COUNT] (cmd, s) = Some (Inl Exits)"
  proof (rule foldO_exits)
    fix p a
    assume "p \<in> set [0..<PAGE_COUNT]" and t: "tool_ok ?f a"
    then have v: "valid_pos i p" using i by simp
    have "?f i p = blank_page" by (simp add: erased_below_def)
    then show "if True then \<exists>a'. require_page chip looks_blank i p a = Some (Inr a') \<and> tool_ok ?f a'
        else require_page chip looks_blank i p a = Some (Inl Exits)"
      using require_page_exits [OF t v, of looks_blank True] by (simp add: blank_looks_blank)
  qed (use cmd e(2) in \<open>simp add: tool_ok_def\<close>)
  then show ?thesis using e(1) by (auto simp: format_block_def)
qed

lemma format_erases_all:
  assumes cmd: "length cmd = 2112" and h: "bus_ok h"
  shows "\<exists>t. format_command chip (cmd, status, h) = Some (Inr (map Block_done [0..<BLOCK_COUNT], t)) \<and> tool_ok (\<lambda>b p. blank_page) t"
proof -
  define I where "I i a \<longleftrightarrow> fst a = map Block_done [0..<i] \<and> length (fst (snd a)) = 2112 \<and> fst (snd (snd a)) = DEVICE_RESET \<and>
    bus_ok (snd (snd (snd a))) \<and> same_flash (arr (snd (snd (snd a)))) (erased_below i (arr h)) \<and> (0 < i \<longrightarrow> tool_ok (erased_below i (arr h)) (snd a))"
    for i and a :: "line list \<times> tool"
  have "\<exists>a. foldO (format_block chip) [0..<BLOCK_COUNT] ([], cmd, DEVICE_RESET, h) = Some (Inr a) \<and> I BLOCK_COUNT a"
  proof (rule foldO_upt)
    fix i and a :: "line list \<times> tool"
    assume i: "i < BLOCK_COUNT" and I: "I i a"
    obtain out cmd' k where a: "a = (out, cmd', DEVICE_RESET, k)" using I by (cases a) (auto simp: I_def)
    have "length cmd' = 2112" "bus_ok k" "same_flash (arr k) (erased_below i (arr h))" "out = map Block_done [0..<i]"
      using I by (simp_all add: I_def a)
    with format_block_erases [OF this(1-3) i, of out]
    show "\<exists>a'. format_block chip i a = Some (Inr a') \<and> I (Suc i) a'" unfolding a
      by (auto simp: I_def tool_ok_def settled_def split: prod.splits)
  qed (simp add: I_def cmd h erased_below_def)
  then obtain out t where r: "foldO (format_block chip) [0..<BLOCK_COUNT] ([], cmd, DEVICE_RESET, h) = Some (Inr (out, t))" "I BLOCK_COUNT (out, t)"
    by auto
  have out: "out = map Block_done [0..<BLOCK_COUNT]" and t: "tool_ok (erased_below BLOCK_COUNT (arr h)) t"
    using r(2) unfolding I_def by simp_all
  have "settled f s \<Longrightarrow> same_flash f g \<Longrightarrow> settled g s" for f g s
    using same_flash_trans by (auto simp: settled_def split: prod.splits)
  moreover have "same_flash (erased_below BLOCK_COUNT (arr h)) (\<lambda>b p. blank_page)" by (simp add: same_flash_def erased_below_def)
  ultimately have "tool_ok (\<lambda>b p. blank_page) t" using t unfolding tool_ok_def by blast
  then show ?thesis unfolding format_command_def using r(1) out by (simp del: upt_Suc)
qed

subsection \<open>check\<close>

lemma check_block_exits:
  assumes t: "tool_ok f t" and b: "b < BLOCK_COUNT"
  shows "if \<forall>p<PAGE_COUNT. plausible_page (f b p) then \<exists>t'. check_block chip b (out, t) = Some (Inr (out @ [Block_done b], t')) \<and> tool_ok f t'
    else check_block chip b (out, t) = Some (Inl Exits)"
proof -
  let ?good = "\<lambda>cmd. has_magic cmd \<or> looks_blank cmd"
  have "if \<forall>p \<in> set [0..<PAGE_COUNT]. plausible_page (f b p)
      then \<exists>t'. foldO (require_page chip ?good b) [0..<PAGE_COUNT] t = Some (Inr t') \<and> tool_ok f t'
      else foldO (require_page chip ?good b) [0..<PAGE_COUNT] t = Some (Inl Exits)"
  proof (rule foldO_exits)
    fix p a
    assume p: "p \<in> set [0..<PAGE_COUNT]" and a: "tool_ok f a"
    have v: "valid_pos b p" using p b by simp
    have len: "length (f b p) = PAGE_SIZE" using settled_length [of f "snd a", OF _ v] a by (simp add: tool_ok_def)
    show "if plausible_page (f b p) then \<exists>a'. require_page chip ?good b p a = Some (Inr a') \<and> tool_ok f a'
        else require_page chip ?good b p a = Some (Inl Exits)"
      by (rule require_page_exits [OF a v]) (simp add: plausible_page_def looks_blank_append has_magic_append len)
  qed (rule t)
  then show ?thesis by (auto simp: check_block_def Ball_def split: if_splits)
qed

lemma check_decides:
  assumes t: "tool_ok f (cmd, s)"
  shows "if \<forall>b p. valid_pos b p \<longrightarrow> plausible_page (f b p)
    then \<exists>t'. check_command chip (cmd, s) = Some (Inr t') \<and> tool_ok f (snd t') else check_command chip (cmd, s) = Some (Inl Exits)"
proof -
  obtain h where s: "s = (DEVICE_RESET, h)" using t by (auto simp: tool_ok_def settled_def split: prod.splits)
  have "if \<forall>b \<in> set [0..<BLOCK_COUNT]. \<forall>p<PAGE_COUNT. plausible_page (f b p)
      then \<exists>a. foldO (check_block chip) [0..<BLOCK_COUNT] ([], cmd, s) = Some (Inr a) \<and> tool_ok f (snd a)
      else foldO (check_block chip) [0..<BLOCK_COUNT] ([], cmd, s) = Some (Inl Exits)"
  proof (rule foldO_exits)
    fix b and a :: "line list \<times> tool"
    assume b: "b \<in> set [0..<BLOCK_COUNT]" and a: "tool_ok f (snd a)"
    then show "if \<forall>p<PAGE_COUNT. plausible_page (f b p) then \<exists>a'. check_block chip b a = Some (Inr a') \<and> tool_ok f (snd a')
        else check_block chip b a = Some (Inl Exits)"
      using check_block_exits [OF a, of b "fst a"] by (auto split: if_splits)
  qed (simp add: t)
  moreover have "(\<forall>b \<in> set [0..<BLOCK_COUNT]. \<forall>p<PAGE_COUNT. plausible_page (f b p)) \<longleftrightarrow> (\<forall>b p. valid_pos b p \<longrightarrow> plausible_page (f b p))"
    by auto
  ultimately show ?thesis unfolding check_command_def s by (auto simp del: upt_Suc simp: s split: if_splits)
qed

end

section \<open>The configuration page\<close>

definition config_page :: "byte list \<Rightarrow> byte list" where
  "config_page config = compress_bytes (config_header (length config) (compress_of (replicate 16 0))) @
     config @ replicate (2096 - length config) 0"

lemma config_header_fields:
  "cp_magic (config_header n cp) = MAGIC" "unat (cp_type (config_header n cp)) = 6"
  by (simp_all add: config_header_def cp_simps take_bit_small)

lemma config_header_base: "unat (tmp_base (config_header n (compress_of (replicate 16 0)))) = n mod 512"
proof -
  have z: "cp_union (compress_of (replicate 16 0)) = 0" by (simp add: compress_of_def numeral_eq_Suc)
  have "tmp_base (config_header n (compress_of (replicate 16 0))) = take_bit 9 (of_nat n)"
    by (rule bit_word_eqI)
      (auto simp: tmp_base_def config_header_def cp_simps set_ant_length_def bit_get_bits bit_set_bits bit_simps z)
  then show ?thesis by (simp add: unsigned_take_bit_eq unsigned_of_nat) (simp add: take_bit_eq_mod mod_mod_cancel)
qed

lemma config_image_cases:
  assumes "length config < 2108"
  shows "config_image config = (if length config \<le> 2096 then Inr (config_page config) else Inl Out_of_bounds)"
  using assms by (auto simp: config_image_def mem_read_def mem_write_def config_page_def Let_def)

context parent_nand
begin

lemma config_writes:
  assumes t: "settled f s" and blank: "f 0 0 = blank_page" and n: "o_config o1 \<noteq> []" "length (o_config o1) \<le> 2096"
  shows "\<exists>s'. config_command chip o1 (cmd, s) = Some (Inr ([], config_page (map of_char (o_config o1)), s')) \<and>
    settled (replace_page f 0 0 (take PAGE_SIZE (config_page (map of_char (o_config o1))))) s'"
proof -
  obtain h where s: "s = (DEVICE_RESET, h)" "bus_ok h" "same_flash (arr h) f" using t by (cases s) (simp add: settled_def)
  let ?pg = "config_page (map of_char (o_config o1))"
  have len: "PAGE_SIZE \<le> length ?pg" using n by (simp add: config_page_def)
  obtain s' where "write_page chip 0 0 ?pg (of_nat PAGE_SIZE) (DEVICE_RESET, h) = Some (Inr s')"
      "settled (replace_page f 0 0 (take PAGE_SIZE ?pg)) s'"
    using write_page_writes [OF s(2,3), of 0 0 ?pg] len blank by auto
  then show ?thesis using n s(1) by (simp add: config_command_def Let_def config_image_cases)
qed

end

context flash_driver
begin

lemma config_reads:
  assumes rd: "ready d" and pg: "img d 0 0 = take PAGE_SIZE (config_page config)" and n: "length config \<le> 2096"
    and l: "unat layer = LAYER_CONFIG" and tr: "tr_block tr = 0" "tr_page tr = 0" and r: "length page0 = PAGE_SIZE"
    and m: "m \<noteq> 0" "min (length config mod 512) (unat m) \<le> length buf"
  shows "\<exists>d'. mxfs_read drv d layer (Some buf) m tr (Some page0) =
    Inr (int (min (length config mod 512) (unat m)),
      Some (take (min (length config mod 512) (unat m)) config @ drop (min (length config mod 512) (unat m)) buf), d')"
proof -
  let ?cp = "config_header (length config) (compress_of (replicate 16 0))"
  let ?k = "min (length config mod 512) (unat m)"
  let ?page = "take PAGE_SIZE (config_page config)"
  define rest where "rest = take (PAGE_SIZE - 16) (config @ replicate (2096 - length config) 0)"
  have page: "?page = compress_bytes ?cp @ rest" by (simp add: config_page_def rest_def)
  have "length config mod 512 \<le> length config" "length config mod 512 < 512" by simp_all
  then have k: "?k \<le> length config" "?k < 512" by linarith+
  have "take ?k rest = take ?k (config @ replicate (2096 - length config) 0)"
    unfolding rest_def take_take using k(2) by (simp only: min_absorb1)
  then have "take ?k rest = take ?k config" using k(1) by (simp only: take_append diff_is_0_eq [THEN iffD2] take_0 append_Nil2)
  then have body: "rest = take ?k config @ drop ?k rest" by (metis append_take_drop_id)
  obtain d' where d': "drv_read drv d 0 0 page0 (of_nat PAGE_SIZE) = Inr (OK, ?page, d')"
    using read_law [OF rd, of 0 0 "of_nat PAGE_SIZE" page0] r by (auto simp: pg)
  have lr: "length rest = 2032" using n by (simp add: rest_def)
  have "read_loop 6 (unat m) ?page 0 (buf, 0) = copy_records ?page 16 ?k 1 (buf, 0)"
    using read_loop_config [of 0 ?page ?cp rest, OF _ config_header_fields] config_header_base [of "length config"] page by simp
  also have "\<dots> = bindR (mem_write buf 0 (take ?k config)) (\<lambda>b. Inr (b, 0 + length (take ?k config)))"
    using copy_records_spec [of 16 ?page "take ?k config" "drop ?k rest" 1 ?k buf 0] page body lr k by simp
  finally have "mxfs_read drv d layer (Some buf) m tr (Some page0) = Inr (int ?k, Some (take ?k config @ drop ?k buf), d')"
    using m d' k by (simp add: mxfs_read_def l tr mem_write_def)
  then show ?thesis by blast
qed

end

section \<open>read and csv\<close>

text \<open>The pages of a range, in the order of the loops.\<close>

definition pages_of :: "options \<Rightarrow> (nat \<times> nat) list" where
  "pages_of o1 = List.product [unat (block_s o1)..<unat (block_e o1)] [unat (page_s o1)..<unat (page_e o1)]"

definition range_valid :: "options \<Rightarrow> bool" where
  "range_valid o1 \<longleftrightarrow> unat (block_e o1) \<le> BLOCK_COUNT \<and> unat (page_e o1) \<le> PAGE_COUNT"

lemma pages_of_valid: "range_valid o1 \<Longrightarrow> (b, p) \<in> set (pages_of o1) \<Longrightarrow> valid_pos b p"
  by (auto simp: pages_of_def range_valid_def)

text \<open>A page of the array, dumped with the bytes the chip sends behind it.\<close>

definition dumps :: "flash_image \<Rightarrow> nat \<times> nat \<Rightarrow> line \<Rightarrow> bool" where
  "dumps f bp l \<longleftrightarrow> (\<exists>ext. length ext = 64 \<and> l = Page_dump (f (fst bp) (snd bp) @ ext))"

definition csv_of :: "flash_image \<Rightarrow> (nat \<Rightarrow> nat \<Rightarrow> pending) \<Rightarrow> nat \<times> nat \<Rightarrow> line \<Rightarrow> bool" where
  "csv_of f Q bp l \<longleftrightarrow> (\<exists>ext. length ext = PAGE_SIZE \<and>
     l = Csv_rows (Dump (f (fst bp) (snd bp) @ ext) # csv_rows (Q (fst bp) (snd bp))))"

text \<open>The pages of the range hold what the child wrote.\<close>

definition child_pages :: "flash_image \<Rightarrow> (nat \<Rightarrow> nat \<Rightarrow> pending) \<Rightarrow> (nat \<times> nat) list \<Rightarrow> bool" where
  "child_pages f Q ps \<longleftrightarrow> (\<forall>(b, p) \<in> set ps. page_ok (Q b p) \<and> holds_page (f b p) (Q b p) \<and> (\<forall>l<LAYER_MAX. times_ok (Q b p l)))"

context parent_nand
begin

text \<open>A loop over pages that prints one line for each.\<close>

lemma range_pages_lines:
  fixes L :: "nat \<times> nat \<Rightarrow> line \<Rightarrow> bool"
  assumes body: "\<And>b p out t. valid_pos b p \<Longrightarrow> tool_ok f t \<Longrightarrow> (b, p) \<in> set (pages_of o1) \<Longrightarrow>
      \<exists>l t'. body b p (out, t) = Some (Inr (out @ [l], t')) \<and> tool_ok f t' \<and> L (b, p) l"
    and r: "range_valid o1" and t: "tool_ok f t"
  shows "\<exists>out t'. range_pages o1 body ([], t) = Some (Inr (out, t')) \<and> tool_ok f t' \<and> list_all2 L (pages_of o1) out"
proof -
  have "\<exists>a. foldO (\<lambda>(b, p). body b p) (pages_of o1) ([], t) = Some (Inr a) \<and> (tool_ok f (snd a) \<and> list_all2 L (pages_of o1) (fst a))"
  proof (rule foldO_list [where I = "\<lambda>done a. tool_ok f (snd a) \<and> list_all2 L done (fst a)"])
    fix ys x zs and a :: "line list \<times> tool"
    assume xs: "pages_of o1 = ys @ x # zs" and I: "tool_ok f (snd a) \<and> list_all2 L ys (fst a)"
    obtain b p where x: "x = (b, p)" by (cases x)
    have mem: "(b, p) \<in> set (pages_of o1)" using xs x by simp
    obtain l t' where "body b p (fst a, snd a) = Some (Inr (fst a @ [l], t'))" "tool_ok f t'" "L (b, p) l"
      using body [OF pages_of_valid [OF r mem] _ mem] I by blast
    then show "\<exists>a'. (case x of (b, p) \<Rightarrow> body b p) a = Some (Inr a') \<and> (tool_ok f (snd a') \<and> list_all2 L (ys @ [x]) (fst a'))"
      using I x by (auto simp: list_all2_appendI)
  qed (simp add: t)
  then show ?thesis by (auto simp: range_pages_def each_page_product pages_of_def)
qed

lemma tool_ok_reset: "tool_ok f (cmd, s) \<Longrightarrow> \<exists>h. s = (DEVICE_RESET, h)"
  by (cases s) (simp add: tool_ok_def settled_def)

lemma read_prints:
  assumes t: "tool_ok f t" and r: "range_valid o1" and "put_string o1 = 0xFFFF"
  shows "\<exists>out t'. read_command chip o1 t = Some (Inr (out, t')) \<and> tool_ok f t' \<and> list_all2 (dumps f) (pages_of o1) out"
proof -
  obtain cmd h where th: "t = (cmd, DEVICE_RESET, h)" using t tool_ok_reset by (cases t) blast
  show ?thesis
    unfolding th read_command_def prod.case
  proof (rule range_pages_lines [OF _ r])
    fix b p out and u :: tool
    assume v: "valid_pos b p" and u: "tool_ok f u"
    obtain ext s' where "read_page chip (of_nat b) (of_nat p) (fst u, snd u) = Some (Inr (f b p @ ext, s'))" "settled f s'" "length ext = 64"
      using read_page_settled [of f "snd u" b p "fst u"] u v by (auto simp: tool_ok_def)
    moreover have "length (f b p) = PAGE_SIZE" using settled_length [of f "snd u", OF _ v] u by (simp add: tool_ok_def)
    ultimately show "\<exists>l t'. (case (out, u) of (out, s) \<Rightarrow> bindO (read_page chip (of_nat b) (of_nat p) s) (\<lambda>s'.
        bindO (Some (print_page (put_string o1) (fst s'))) (\<lambda>ls. Some (Inr (out @ ls, s'))))) = Some (Inr (out @ [l], t')) \<and>
        tool_ok f t' \<and> dumps f (b, p) l"
      using assms(3) by (simp add: print_page_def tool_ok_def dumps_def)
  qed (use t th in simp)
qed

lemma csv_prints:
  assumes t: "tool_ok f t" and r: "range_valid o1" and Q: "child_pages f Q (pages_of o1)"
  shows "\<exists>out t'. csv_command chip o1 t = Some (Inr (out, t')) \<and> tool_ok f t' \<and> list_all2 (csv_of f Q) (pages_of o1) out"
proof -
  obtain cmd h where th: "t = (cmd, DEVICE_RESET, h)" using t tool_ok_reset by (cases t) blast
  show ?thesis
    unfolding th csv_command_def prod.case
  proof (rule range_pages_lines [OF _ r])
    fix b p out and u :: tool
    assume v: "valid_pos b p" and u: "tool_ok f u" and mem: "(b, p) \<in> set (pages_of o1)"
    obtain c k where uk: "u = (c, DEVICE_RESET, k)" using u tool_ok_reset by (cases u) blast
    have su: "settled f (DEVICE_RESET, k)" using u by (simp add: tool_ok_def uk)
    obtain ext s' where rd: "read_page chip (of_nat b) (of_nat p) (replicate 4096 0, DEVICE_RESET, k) = Some (Inr (f b p @ ext, s'))"
        "settled f s'" and ext: "length ext = PAGE_SIZE"
      using read_page_settled [OF su v, of "replicate 4096 0"] by auto
    have q: "page_ok (Q b p)" "holds_page (f b p) (Q b p)" "\<And>l. l < LAYER_MAX \<Longrightarrow> times_ok (Q b p l)"
      using Q mem by (auto simp: child_pages_def)
    have len: "length (f b p @ ext) = 4096" using settled_length [OF su v] ext by simp
    have "csv_page (f b p @ ext) = Inr (Dump (f b p @ ext) # csv_rows (Q b p))"
      by (rule csv_page_rows [OF q(1) _ q(2) len]) (rule q(3))
    then show "\<exists>l t'. (case (out, u) of (out, cmd, status, h) \<Rightarrow>
        bindO (read_page chip (of_nat b) (of_nat p) (replicate 4096 0, DEVICE_RESET, h)) (\<lambda>(decbf, s).
        bindO (Some (csv_page decbf)) (\<lambda>rs. Some (Inr (out @ [Csv_rows rs], cmd, s))))) = Some (Inr (out @ [l], t')) \<and>
        tool_ok f t' \<and> csv_of f Q (b, p) l"
      using rd u ext by (simp add: uk tool_ok_def csv_of_def)
  qed (use t th in simp)
qed

end

section \<open>Up to the command\<close>

text \<open>The environment in which everything opens.\<close>

definition env_ok :: "bcm_env \<Rightarrow> bool" where
  "env_ok env \<longleftrightarrow> open_gpio env > 0 \<and> mmap_ok env \<and> open_spi env > 0 \<and> list_all (\<lambda>r. r \<ge> 0) (setup_ioctls env)"

text \<open>Without such an environment the tool exits and nothing has been sent.\<close>

lemma setup_exits:
  assumes "\<not> env_ok env"
  shows "bindR (setup_gpio env h) (setup_chip chip env) = Inl Exits"
  using assms by (auto simp: env_ok_def setup_gpio_def setup_chip_def)

lemma read_step_ret: "read_step chip b p rbf s = (ret, s') \<Longrightarrow> ret \<noteq> -1"
  by (auto simp: read_step_def split: prod.splits if_splits)

context parent_nand
begin

lemma setup_settles:
  assumes env: "env_ok env" and ok: "bus_ok h"
  shows "\<exists>t. bindR (setup_gpio env h) (setup_chip chip env) = Inr t \<and> tool_ok (arr h) t"
proof -
  obtain g where g: "setup_gpio env h = Inr (h @ g)" and gf: "framed False g" "guarded (guard_after h) g" "list_all quiet g" "commands g = []"
    using env by (cases "guard_after h") (simp add: env_ok_def setup_gpio_def)
  have ok1: "bus_ok (h @ g)" by (rule bus_ok_append [OF ok gf(1,2)])
  have a1: "same_flash (arr (h @ g)) (arr h)" by (rule arr_kept [OF quiet_list_keeps [OF gf(3)]])
  define h2 where "h2 = instr [DEVICE_RESET] (h @ g) @ [Delay 1000]"
  have "h2 = (h @ g) @ [Cs False, Tx [DEVICE_RESET], Cs True, Delay 1000]" by (simp add: h2_def instr_def)
  then have "same_flash (arr h2) (arr (h @ g))" by (simp only:) (rule arr_kept, simp)
  from same_flash_trans [OF this a1] have a2: "same_flash (arr h2) (arr h)" .
  have ok2: "bus_ok h2" using instr_ok [OF ok1, of "[DEVICE_RESET]"] by (simp add: h2_def)
  define h3 where "h3 = h2 @ [Cs False, Tx [JEDEC_ID, 0], Rx [0xEF, 0xAA, 0x21], Cs True]"
  have "rx_bytes chip (h2 @ [Cs False, Tx [JEDEC_ID, 0]]) 3 = [0xEF, 0xAA, 0x21]"
    using jedec [of 0 h2] jedec [of 1 h2] jedec [of 2 h2] by (simp add: rx_bytes_def numeral_3_eq_3 numeral_2_eq_2)
  then have q: "par_query chip [JEDEC_ID, 0] (replicate 3 0) h2 = ([0xEF, 0xAA, 0x21], h3)"
    by (simp add: query h3_def Let_def)
  have ok3: "bus_ok h3" using query_ok [OF ok2, of "[JEDEC_ID, 0]"] by (simp add: h3_def)
  have "same_flash (arr h3) (arr h2)" unfolding h3_def by (rule arr_kept) simp
  from same_flash_trans [OF this a2] have a3: "same_flash (arr h3) (arr h)" .
  note un = unprotect_ok [OF ok3 a3]
  let ?h4 = "instr [WRITE_STATUS_REGISTER_L, STATUS_REGISTER_1_ADDR, 0] h3 @ [Delay 100]"
  have d: "same_chip k (k @ [Delay 100])" for k by (rule events_same_chip) simp_all
  have ok4: "bus_ok ?h4" and a4: "same_flash (arr ?h4) (arr h)" and u4: "unprotected ?h4"
    using un same_chipD(4) [OF d] same_flash_trans [OF same_chipD(1) [OF d] un(2)] by simp_all
  note i5 = quiet_instr(1,2) [OF ok4, of "[WRITE_ENABLE]", simplified]
  let ?h5 = "instr [WRITE_ENABLE] ?h4 @ [Delay 100]"
  have "bus_ok ?h5" "same_flash (arr ?h5) (arr h)" "unprotected ?h5"
    using i5(1) u4 same_chipD(4) [OF d] same_flash_trans [OF same_chipD(1) [OF d] same_flash_trans [OF i5(2) a4]]
    by (simp_all add: enable_unprotected)
  moreover have "bindR (setup_gpio env h) (setup_chip chip env) =
      Inr ([WRITE_ENABLE, STATUS_REGISTER_1_ADDR, 0] @ replicate 2109 0, DEVICE_RESET, ?h5)"
    using env g q by (simp add: setup_chip_def env_ok_def sends h2_def Let_def)
  ultimately show ?thesis by (simp add: tool_ok_def settled_def)
qed

text \<open>The step that only looks at the first page of a block makes the state changes of the read of 32 bytes.\<close>

lemma init_block_returns:
  assumes s: "settled f s" and b: "b < BLOCK_COUNT"
  shows "\<exists>s'. init_block chip b s = Some (Inr s') \<and> settled f s'"
proof -
  obtain h where h: "s = (DEVICE_RESET, h)" "bus_ok h" "unprotected h" "same_flash (arr h) f" using s by (cases s) (auto simp: settled_def)
  have v: "valid_pos (unat (of_nat b :: u16)) (unat (0 :: u16))" using b by (simp add: unat_block)
  obtain t where t: "read_page chip (of_nat b) 0 (replicate 32 0, s) = Some (Inr t)" "got_page f (of_nat b) 0 32 t"
    using read_page_gets [OF h(2-4) v, of "replicate 32 0"] h(1) by auto
  let ?R = "\<lambda>(u :: tool) s. snd u = s \<and> length (fst u) = 32"
  let ?step = "\<lambda>s. case read_initialize chip (of_nat b) s of (ret, s') \<Rightarrow> if ret = -1 then Inl Exits else Inr (ret, s')"
  have "\<exists>r2. repeat_until ?step id s = Some (Inr r2) \<and> ?R t r2"
  proof (rule repeat_until_simulates [OF t(1) [unfolded read_page_def], where R = ?R])
    fix u :: tool and s ret u'
    assume R: "?R u s" and st: "(case u of (rbf, s) \<Rightarrow> Inr (read_by_block_page chip (of_nat b) 0 rbf s)) = Inr (ret, u')"
    obtain rbf where u: "u = (rbf, s)" "length rbf = 32" using R by (cases u) auto
    have step: "read_step chip (of_nat b) 0 rbf s = (ret, u')" using st u by (simp add: read_by_block_page_def)
    have len: "length (fst u') = 32" using step u(2)
      by (cases s) (auto simp: read_step_def query rx_bytes_def Let_def split: prod.splits if_splits)
    have "\<exists>rbf'. read_step chip (of_nat b) 0 (replicate 32 0) s = (ret, rbf', snd u')" using step u(2)
      by (cases s) (auto simp: read_step_def query rx_bytes_def Let_def split: prod.splits if_splits)
    then have "read_initialize chip (of_nat b) s = (ret, snd u')" by (cases "snd u'") (auto simp: read_initialize_def)
    then show "\<exists>s'. ?step s = Inr (ret, s') \<and> ?R u' s'" using read_step_ret [OF step] len by simp
  qed simp
  moreover have "settled f (snd t)" using t(2) by (auto simp: got_page_def settled_def split: prod.splits)
  ultimately show ?thesis by (auto simp: init_block_def)
qed

lemma init_blocks_return:
  assumes t: "tool_ok f t"
  shows "\<exists>t'. init_blocks chip ty t = Some (Inr t') \<and> tool_ok f t'"
proof -
  obtain cmd h where th: "t = (cmd, DEVICE_RESET, h)" using t tool_ok_reset by (cases t) blast
  have "\<exists>s. foldO (init_block chip) [0..<BLOCK_COUNT] (DEVICE_RESET, h) = Some (Inr s) \<and> settled f s"
    by (rule foldO_upt [where I = "\<lambda>i. settled f"]) (use t init_block_returns in \<open>auto simp: tool_ok_def th\<close>)
  then show ?thesis using t by (auto simp: init_blocks_def th tool_ok_def simp del: upt_Suc)
qed

text \<open>\<open>main\<close> runs the command on a tool that is ready, over the array as it was.\<close>

lemma main_runs:
  assumes env: "env_ok env" and ok: "bus_ok h" and a: "parse_options args = Inr o1"
  shows "\<exists>t. parent_main chip env args h = command chip o1 t \<and> tool_ok (arr h) t"
proof -
  obtain h1 where h1: "setup_gpio env h = Inr h1" using env by (simp add: env_ok_def setup_gpio_def)
  obtain t where t: "setup_chip chip env h1 = Inr t" "tool_ok (arr h) t" using setup_settles [OF env ok] h1 by auto
  obtain t' where "init_blocks chip (o_type o1) t = Some (Inr t')" "tool_ok (arr h) t'" using init_blocks_return [OF t(2)] by blast
  moreover from this have "parent_main chip env args h = command chip o1 t'" using a h1 t by (simp add: parent_main_def)
  ultimately show ?thesis by blast
qed

text \<open>\<open>main\<close> with \<open>-t format\<close>, \<open>-t config\<close> and \<open>-t csv\<close>.\<close>

lemma tool_ok_bus: "tool_ok f t \<Longrightarrow> bus_ok (snd (snd t)) \<and> same_flash (arr (snd (snd t))) f"
  by (auto simp: tool_ok_def settled_def split: prod.splits)

lemma format_main:
  assumes env: "env_ok env" and ok: "bus_ok h"
  shows "\<exists>t. parent_main chip env [(CHR ''t'', Some ''format'')] h = Some (Inr (map Block_done [0..<BLOCK_COUNT], t)) \<and>
    tool_ok (\<lambda>b p. blank_page) t"
proof -
  have a: "parse_options [(CHR ''t'', Some ''format'')] = Inr (no_options\<lparr>o_type := ''format''\<rparr>)"
    by (simp add: parse_options_def set_option_def)
  obtain t where m: "parent_main chip env [(CHR ''t'', Some ''format'')] h = command chip (no_options\<lparr>o_type := ''format''\<rparr>) t"
    and t: "tool_ok (arr h) t" using main_runs [OF env ok a] by blast
  have "length (fst t) = 2112" "bus_ok (snd (snd t))" using t tool_ok_bus [OF t] by (simp_all add: tool_ok_def)
  then show ?thesis using format_erases_all [of "fst t" "snd (snd t)" "fst (snd t)"] by (simp add: m command_def del: upt_Suc)
qed

lemma config_main:
  assumes env: "env_ok env" and ok: "bus_ok h" and blank: "arr h 0 0 = blank_page" and n: "config \<noteq> []" "length config \<le> 2096"
  shows "\<exists>t. parent_main chip env [(CHR ''t'', Some ''config''), (CHR ''c'', Some config)] h = Some (Inr ([], t)) \<and>
    tool_ok (replace_page (arr h) 0 0 (take PAGE_SIZE (config_page (map of_char config)))) t"
proof -
  let ?args = "[(CHR ''t'', Some ''config''), (CHR ''c'', Some config)]" and ?o = "no_options\<lparr>o_type := ''config'', o_config := config\<rparr>"
  have a: "parse_options ?args = Inr ?o" by (simp add: parse_options_def set_option_def)
  obtain t where m: "parent_main chip env ?args h = command chip ?o t" and t: "tool_ok (arr h) t"
    using main_runs [OF env ok a] by blast
  have s: "settled (arr h) (snd t)" using t by (simp add: tool_ok_def)
  obtain s' where "config_command chip ?o (fst t, snd t) = Some (Inr ([], config_page (map of_char config), s'))"
      "settled (replace_page (arr h) 0 0 (take PAGE_SIZE (config_page (map of_char config)))) s'"
    using config_writes [OF s blank, of ?o "fst t"] n by auto
  moreover have "length (config_page (map of_char config)) = 2112" using n by (simp add: config_page_def)
  ultimately show ?thesis using m by (simp add: command_def tool_ok_def)
qed

lemma csv_main:
  assumes env: "env_ok env" and ok: "bus_ok h" and a: "parse_options args = Inr o1" "o_type o1 = ''csv''" "range_valid o1"
    and Q: "child_pages (arr h) Q (pages_of o1)"
  shows "\<exists>out t. parent_main chip env args h = Some (Inr (out, t)) \<and> tool_ok (arr h) t \<and> list_all2 (csv_of (arr h) Q) (pages_of o1) out"
proof -
  obtain t where m: "parent_main chip env args h = command chip o1 t" and t: "tool_ok (arr h) t"
    using main_runs [OF env ok a(1)] by blast
  show ?thesis using csv_prints [OF t a(3) Q] a(2) by (auto simp: m command_def)
qed

end

end
