(* ===== verification/Parent_Search.thy ===== *)
theory Parent_Search
  imports Parent_Commands
begin

text \<open>
  The \<open>search\<close> command of the parent tool on an array in which the first pages of every block were written by the child:
  the map of timestamps it builds, key by key in increasing order, and the lines it prints of it.
\<close>

section \<open>Keys\<close>

lemma blockpage_or: "p < 64 \<Longrightarrow> blockpage b p = push_bit 16 (of_nat b) OR of_nat p"
proof -
  assume "p < 64"
  then have "unat (of_nat p :: u32) < 2 ^ 16" by (simp add: unat_of_nat_small)
  then have p: "take_bit 16 (of_nat p :: u32) = of_nat p" by (rule take_bit_small)
  have m: "(0xFFFF0000 :: u32) = NOT (mask 16)" "(0x0000FFFF :: u32) = mask 16" by (simp_all add: mask_eq_exp_minus_1)
  have "push_bit 16 (of_nat b :: u32) AND NOT (mask 16) = push_bit 16 (of_nat b)"
    by (rule bit_word_eqI) (auto simp: bit_simps)
  then show ?thesis unfolding blockpage_def m take_bit_eq_mask [symmetric] p by simp
qed

lemma blockpage_parts:
  assumes "valid_pos b p"
  shows "drop_bit 16 (blockpage b p) AND 0xFFFF = of_nat b" "blockpage b p AND 0xFFFF = of_nat p" "unat (blockpage b p) = b * 65536 + p"
proof -
  define B P where "B = (of_nat b :: u32)" and "P = (of_nat p :: u32)"
  have k: "blockpage b p = push_bit 16 B OR P" using assms by (simp add: blockpage_or B_def P_def)
  have ub: "unat B = b" and up: "unat P = p" using assms by (simp_all add: B_def P_def unat_of_nat_small)
  have tb: "take_bit 16 B = B" and tp: "take_bit 16 P = P" using assms by (auto intro!: take_bit_small simp: ub up)
  have hb: "bit B i \<Longrightarrow> i < 16" and hp: "bit P i \<Longrightarrow> i < 16" for i
    using arg_cong [OF tb, of "\<lambda>w. bit w i"] arg_cong [OF tp, of "\<lambda>w. bit w i"] by (auto simp: bit_simps)
  have np: "\<not> bit P (16 + i)" for i using hp [of "16 + i"] by auto
  have m: "(0xFFFF :: u32) = mask 16" by (simp add: mask_eq_exp_minus_1)
  show "drop_bit 16 (blockpage b p) AND 0xFFFF = of_nat b" unfolding m k B_def [symmetric]
    by (rule bit_word_eqI) (auto simp: bit_simps np dest: hb)
  show "blockpage b p AND 0xFFFF = of_nat p" unfolding m k P_def [symmetric]
    by (rule bit_word_eqI) (auto simp: bit_simps dest: hp)
  have "push_bit 16 B AND P = 0" by (rule bit_word_eqI) (auto simp: bit_simps dest: hp)
  then have "blockpage b p = push_bit 16 B + P" by (simp add: k disjunctive_add_eq_or)
  moreover have "unat (push_bit 16 B) = b * 65536"
    using assms by (simp add: unsigned_push_bit_eq ub) (simp add: push_bit_eq_mult take_bit_nat_eq_self)
  ultimately show "unat (blockpage b p) = b * 65536 + p" using assms by (simp add: unat_word_ariths up)
qed

lemma blockpage_less:
  assumes "valid_pos b p" and "valid_pos b' p'" and "b < b' \<or> b = b' \<and> p < p'"
  shows "blockpage b p < blockpage b' p'"
  using assms by (auto simp: word_less_nat_alt blockpage_parts(3) [OF assms(1)] blockpage_parts(3) [OF assms(2)])

section \<open>The map\<close>

lemma put_times_last: "\<forall>e \<in> set m. fst e < k \<Longrightarrow> put_times k v m = m @ [(k, v)]"
  by (induction k v m rule: put_times.induct) auto

lemma map_of_above: "\<forall>e \<in> set m. fst e < (k :: u32) \<Longrightarrow> map_of m k = None"
  by (induction m) auto

text \<open>The entries of pages \<open>xs\<close>, and the lines printed of them.\<close>

definition entry :: "(nat \<Rightarrow> nat \<Rightarrow> u32 list option) \<Rightarrow> nat \<times> nat \<Rightarrow> times_map" where
  "entry T bp = (case T (fst bp) (snd bp) of None \<Rightarrow> [] | Some v \<Rightarrow> [(blockpage (fst bp) (snd bp), v)])"

definition entries :: "(nat \<Rightarrow> nat \<Rightarrow> u32 list option) \<Rightarrow> (nat \<times> nat) list \<Rightarrow> times_map" where
  "entries T xs = concat (map (entry T) xs)"

definition time_line :: "(nat \<Rightarrow> nat \<Rightarrow> u32 list option) \<Rightarrow> nat \<times> nat \<Rightarrow> line list" where
  "time_line T bp = (case T (fst bp) (snd bp) of None \<Rightarrow> [] | Some v \<Rightarrow> [Times (of_nat (fst bp)) (of_nat (snd bp)) v])"

lemma entries_append [simp]: "entries T [] = []" "entries T (xs @ ys) = entries T xs @ entries T ys"
  by (simp_all add: entries_def)

lemma entries_one: "entries T [(b, p)] = entry T (b, p)"
  by (simp add: entries_def)

lemma entries_keys: "e \<in> set (entries T xs) \<Longrightarrow> \<exists>b p. (b, p) \<in> set xs \<and> fst e = blockpage b p"
  by (fastforce simp: entries_def entry_def split: option.splits)

lemma times_lines_entries: "\<forall>(b, p) \<in> set xs. valid_pos b p \<Longrightarrow> times_lines (entries T xs) = concat (map (time_line T) xs)"
  by (induction xs) (auto simp: entries_def times_lines_def entry_def time_line_def blockpage_parts split: option.splits)

text \<open>One more page, behind all the others.\<close>

definition before :: "(nat \<times> nat) list \<Rightarrow> nat \<Rightarrow> nat \<Rightarrow> bool" where
  "before xs b p \<longleftrightarrow> (\<forall>(b', p') \<in> set xs. valid_pos b' p' \<and> (b' < b \<or> b' = b \<and> p' < p))"

lemma entries_below:
  assumes "before xs b p" and "valid_pos b p"
  shows "\<forall>e \<in> set (entries T xs). fst e < blockpage b p"
proof
  fix e assume "e \<in> set (entries T xs)"
  then obtain b' p' where "(b', p') \<in> set xs" "fst e = blockpage b' p'" using entries_keys by blast
  then show "fst e < blockpage b p" using assms blockpage_less by (auto simp: before_def)
qed

lemma entries_snoc:
  assumes "before xs b p" and "valid_pos b p"
  shows "map_of (entries T xs) (blockpage b p) = None"
    "(case T b p of None \<Rightarrow> entries T xs | Some v \<Rightarrow> put_times (blockpage b p) v (entries T xs)) = entries T (xs @ [(b, p)])"
  using map_of_above [OF entries_below [OF assms, of T]] put_times_last [OF entries_below [OF assms, of T]]
  by (auto simp: entries_one entry_def split: option.splits)

section \<open>Pages of the child\<close>

text \<open>A page that holds something, where the search steps from its first run to no magic number.\<close>

definition searchable :: "pending \<Rightarrow> bool" where
  "searchable P \<longleftrightarrow> page_ok P \<and> (P 0 \<noteq> [] \<or> P 1 \<noteq> [] \<or> P 2 \<noteq> [] \<or> P 3 \<noteq> []) \<and>
     (P 3 = [] \<longrightarrow> P 4 = [] \<and> P 5 = []) \<and>
     (P 3 \<noteq> [] \<longrightarrow> le_word (take 4 (drop (length (P 3)) (bodies (P 3)))) \<noteq> MAGIC)"

lemma searchable_magic:
  assumes "searchable P" and "holds_page page P"
  shows "has_magic (page @ ext)"
proof -
  have P: "page_ok P" using assms(1) by (simp add: searchable_def)
  have "page_chunks P \<noteq> []" using assms(1) by (auto simp: searchable_def page_chunks_def gyro_chunks_def)
  then obtain ck cks where c: "page_chunks P = ck # cks" by (cases "page_chunks P") auto
  obtain fill where "page @ ext = enc_chunks (page_chunks P) @ fill" using page_with_tail [OF P assms(2), of ext] by blast
  then have "page @ ext = compress_bytes (ck_head ck) @ (ck_body ck @ enc_chunks cks @ fill)"
    by (simp add: c enc_chunks_def enc_chunk_def)
  moreover have "cp_magic (ck_head ck) = MAGIC" using page_chunks_sensor [OF P] c by (simp add: sensor_chunk_def)
  ultimately show ?thesis unfolding has_magic_def by (simp only: magic_of_bytes_append)
qed

text \<open>The array a search is run on: in every block the child's pages come first, and none of the rest begins with a magic number.\<close>

definition searched :: "flash_image \<Rightarrow> (nat \<Rightarrow> nat) \<Rightarrow> (nat \<Rightarrow> nat \<Rightarrow> pending) \<Rightarrow> bool" where
  "searched f cnt Q \<longleftrightarrow> (\<forall>b<BLOCK_COUNT. cnt b \<le> PAGE_COUNT \<and>
     (\<forall>p<cnt b. searchable (Q b p) \<and> holds_page (f b p) (Q b p)) \<and>
     (cnt b < PAGE_COUNT \<longrightarrow> \<not> has_magic (f b (cnt b))))"

definition child_positions :: "(nat \<Rightarrow> nat) \<Rightarrow> nat \<Rightarrow> (nat \<times> nat) list" where
  "child_positions cnt n = concat (map (\<lambda>b. map (Pair b) [0..<cnt b]) [0..<n])"

definition seen_times :: "u32 \<Rightarrow> u32 \<Rightarrow> (nat \<Rightarrow> nat \<Rightarrow> pending) \<Rightarrow> nat \<Rightarrow> nat \<Rightarrow> u32 list option" where
  "seen_times es ee Q b p = found_times es ee (seen_samples (Q b p)) None"

section \<open>The command\<close>

context parent_nand
begin

lemma search_pages_entries:
  assumes f: "searched f cnt Q" and b: "b < BLOCK_COUNT"
  shows "q \<le> cnt b \<Longrightarrow> tool_ok f t \<Longrightarrow> before xs b q \<Longrightarrow>
    \<exists>t'. search_pages chip es ee b [q..<PAGE_COUNT] (entries (seen_times es ee Q) xs, t) =
      Some (Inr (entries (seen_times es ee Q) (xs @ map (Pair b) [q..<cnt b]), t')) \<and> tool_ok f t'"
proof (induction "PAGE_COUNT - q" arbitrary: q t xs)
  case 0
  then have "q = PAGE_COUNT" "cnt b = PAGE_COUNT" using f b by (auto simp: searched_def)
  then show ?case using 0 by auto
next
  case (Suc k)
  then have q: "q < PAGE_COUNT" by simp
  then have v: "valid_pos b q" using b by simp
  obtain cmd h where th: "t = (cmd, DEVICE_RESET, h)" using Suc.prems(2) tool_ok_reset by (cases t) blast
  have s: "settled f (DEVICE_RESET, h)" and len: "length cmd = 2112" using Suc.prems(2) by (simp_all add: tool_ok_def th)
  obtain ext s' where rd: "read_page chip (of_nat b) (of_nat q) (cmd, DEVICE_RESET, h) = Some (Inr (f b q @ ext, s'))"
      "settled f s'" "length ext = 64"
    using read_page_settled [OF s v, of cmd] len by auto
  have lf: "length (f b q) = PAGE_SIZE" by (rule settled_length [OF s v])
  have t': "tool_ok f (f b q @ ext, s')" using rd lf by (simp add: tool_ok_def)
  have upt: "[q..<PAGE_COUNT] = q # [Suc q..<PAGE_COUNT]" using q by (simp only: upt_conv_Cons)
  show ?case
  proof (cases "q < cnt b")
    case True
    then have Q: "searchable (Q b q)" "holds_page (f b q) (Q b q)" using f b by (auto simp: searched_def)
    have "search_loop es ee (f b q @ ext) 0 None = Inr (seen_times es ee Q b q)"
      unfolding seen_times_def by (rule search_page) (use Q lf rd(3) in \<open>simp_all add: searchable_def\<close>)
    then have "search_pages chip es ee b [q..<PAGE_COUNT] (entries (seen_times es ee Q) xs, t) =
        search_pages chip es ee b [Suc q..<PAGE_COUNT] (entries (seen_times es ee Q) (xs @ [(b, q)]), f b q @ ext, s')"
      unfolding upt th by (simp add: rd(1) searchable_magic [OF Q] entries_snoc [OF Suc.prems(3) v] del: entries_append upt_Suc)
    moreover have "before (xs @ [(b, q)]) b (Suc q)" using Suc.prems(3) v by (auto simp: before_def)
    moreover have "[q..<cnt b] = q # [Suc q..<cnt b]" using True by (rule upt_conv_Cons)
    ultimately show ?thesis
      using Suc.hyps(1) [of "Suc q" "(f b q @ ext, s')" "xs @ [(b, q)]"] Suc.hyps(2) True t' by (simp del: entries_append upt_Suc)
  next
    case False
    then have "q = cnt b" using Suc.prems(1) by simp
    then have "\<not> has_magic (f b q)" using f b q by (auto simp: searched_def)
    then have "\<not> has_magic (f b q @ ext)" using lf by (simp add: has_magic_append)
    then have "search_pages chip es ee b [q..<PAGE_COUNT] (entries (seen_times es ee Q) xs, t) =
        Some (Inr (entries (seen_times es ee Q) xs, f b q @ ext, s'))" unfolding upt th by (simp add: rd(1) del: upt_Suc)
    moreover have "xs @ map (Pair b) [q..<cnt b] = xs" using \<open>q = cnt b\<close> by simp
    ultimately show ?thesis using t' by metis
  qed
qed

lemma search_prints:
  assumes f: "searched f cnt Q" and t: "tool_ok f t"
  shows "\<exists>t'. search_command chip o1 t = Some (Inr (concat (map (time_line (seen_times (epoch_s o1) (epoch_e o1) Q))
    (child_positions cnt BLOCK_COUNT)), t')) \<and> tool_ok f t'"
proof -
  let ?T = "seen_times (epoch_s o1) (epoch_e o1) Q"
  have pos: "\<forall>(b, p) \<in> set (child_positions cnt n). valid_pos b p \<and> b < n" if "n \<le> BLOCK_COUNT" for n
  proof -
    have "cnt b \<le> PAGE_COUNT" if "b < n" for b using f that \<open>n \<le> BLOCK_COUNT\<close> by (simp add: searched_def)
    then show ?thesis using that by (fastforce simp: child_positions_def)
  qed
  have "\<exists>a. foldO (\<lambda>b. search_pages chip (epoch_s o1) (epoch_e o1) b [0..<PAGE_COUNT]) [0..<BLOCK_COUNT] ([], t) = Some (Inr a) \<and>
      (fst a = entries ?T (child_positions cnt BLOCK_COUNT) \<and> tool_ok f (snd a))"
  proof (rule foldO_upt [where I = "\<lambda>n a. fst a = entries ?T (child_positions cnt n) \<and> tool_ok f (snd a)"])
    fix b and a :: "times_map \<times> tool"
    assume b: "b < BLOCK_COUNT" and I: "fst a = entries ?T (child_positions cnt b) \<and> tool_ok f (snd a)"
    have "before (child_positions cnt b) b 0" using pos [of b] b by (auto simp: before_def)
    from search_pages_entries [OF f b _ _ this, of "snd a" "epoch_s o1" "epoch_e o1"] I
    show "\<exists>a'. search_pages chip (epoch_s o1) (epoch_e o1) b [0..<PAGE_COUNT] a = Some (Inr a') \<and>
        (fst a' = entries ?T (child_positions cnt (Suc b)) \<and> tool_ok f (snd a'))"
      by (cases a) (auto simp: child_positions_def)
  qed (simp add: t child_positions_def)
  moreover have "times_lines (entries ?T (child_positions cnt BLOCK_COUNT)) = concat (map (time_line ?T) (child_positions cnt BLOCK_COUNT))"
    using pos [of BLOCK_COUNT] by (intro times_lines_entries) auto
  ultimately show ?thesis by (cases t) (auto simp: search_command_def simp del: upt_Suc)
qed

end

end
