(* ===== verification/Whole_Life.thy ===== *)
theory Whole_Life
  imports Mxfs_Restart Parent_Search
begin

text \<open>
  The life of one chip through all the programs: the parent tool formats it and writes a configuration, the child on the
  RP2040 reads the configuration and logs in several sessions, and the parent tool prints what was logged.
\<close>

text \<open>What happened on the chip, step by step: the answers of the programs and the history of the bus after each of them.\<close>

definition life ::
  "chip \<Rightarrow> bcm_env \<Rightarrow> string \<Rightarrow> client_op list list \<Rightarrow> (char \<times> string option) list \<Rightarrow> bus \<Rightarrow> (int list list \<times> bus \<times> line list \<times> bus) run" where
  "life chip env config opss args h =
     bindO (parent_main chip env [(CHR ''t'', Some ''format'')] h) (\<lambda>(out, cmd, status, h).
     bindO (parent_main chip env [(CHR ''t'', Some ''config''), (CHR ''c'', Some config)] h) (\<lambda>(out, cmd, status, h).
     bindO (Some (sessions build_rp2040 platform_rp2040 (rp_driver chip) opss h)) (\<lambda>(retss, h).
     bindO (parent_main chip env args h) (\<lambda>(out, cmd, status, h').
     Some (Inr (retss, h, out, h'))))))"

lemma life_runs:
  assumes par: "parent_nand chip arr cache" and rp: "rp_nand chip arr cache" and env: "env_ok env" and ok: "bus_ok h"
    and config: "config \<noteq> []" "length config \<le> 2096"
    and ops: "list_all (ops_good build_rp2040) opss" "opss \<noteq> []"
    and room: "sum_list (map log_blocks (map session_log opss)) < BLOCK_COUNT - 1"
    and args: "parse_options args = Inr o1" "o_type o1 = ''csv''" "range_valid o1"
    and pages: "\<And>b p. (b, p) \<in> set (pages_of o1) \<Longrightarrow> session_page opss (b, p) (Q b p) \<and> (\<forall>l<LAYER_MAX. times_ok (Q b p l))"
  shows "\<exists>h1 out h2. life chip env config opss args h = Some (Inr (map all_ok opss, h1, out, h2)) \<and> rp_ready h1 \<and> same_flash (arr h2) (arr h1) \<and>
    arr h1 0 0 = take PAGE_SIZE (config_page (map of_char config)) \<and>
    (\<forall>pos P. session_page opss pos P \<longrightarrow> reads_page (rp_driver chip) h1 P pos) \<and>
    list_all2 (csv_of (arr h1) Q) (pages_of o1) out"
proof -
  note bus = parent_nand.tool_ok_bus [OF par]
  obtain t1 where f: "parent_main chip env [(CHR ''t'', Some ''format'')] h = Some (Inr (map Block_done [0..<BLOCK_COUNT], t1))"
    "parent_nand.tool_ok arr (\<lambda>b p. blank_page) t1" using parent_nand.format_main [OF par env ok] by blast
  have b1: "bus_ok (snd (snd t1))" "same_flash (arr (snd (snd t1))) (\<lambda>b p. blank_page)" using bus [OF f(2)] by simp_all
  have "arr (snd (snd t1)) 0 0 = blank_page" using same_flashD [OF b1(2), of 0 0] by simp
  from parent_nand.config_main [OF par env b1(1) this config] obtain t2 where
    c: "parent_main chip env [(CHR ''t'', Some ''config''), (CHR ''c'', Some config)] (snd (snd t1)) = Some (Inr ([], t2))"
    "parent_nand.tool_ok arr (replace_page (arr (snd (snd t1))) 0 0 (take PAGE_SIZE (config_page (map of_char config)))) t2" by blast
  let ?h = "snd (snd t2)"
  have b2: "bus_ok ?h" "same_flash (arr ?h) (replace_page (arr (snd (snd t1))) 0 0 (take PAGE_SIZE (config_page (map of_char config))))"
    using bus [OF c(2)] by simp_all
  have blank: "arr ?h b q = blank_page" if "b \<in> set data_blocks" "q < PAGE_COUNT" for b q
    using same_flashD [OF b2(2), of b q] same_flashD [OF b1(2), of b q] that by (simp add: replace_page_def)
  have conf: "arr ?h 0 0 = take PAGE_SIZE (config_page (map of_char config))"
    using same_flashD [OF b2(2), of 0 0] by (simp add: replace_page_def)
  note rs = rp_nand.rp_restarts [OF rp]
  have cfg: "good_build build_rp2040" by (simp add: good_build_def build_rp2040_def)
  have pf: "mount_good platform_rp2040 = mount_good_flash" "find_current platform_rp2040 = find_flash data_blocks 0"
    by (simp_all add: platform_rp2040_def)
  obtain h1 where s: "sessions build_rp2040 platform_rp2040 (rp_driver chip) opss ?h = Inr (map all_ok opss, h1)" "rp_ready h1"
    "same_outside {1..} (arr h1) (arr ?h)"
    and held: "\<forall>b p P. session_page opss (b, p) P \<longrightarrow> page_ok P \<and> holds_page (arr h1 b p) P \<and> valid_pos b p"
    using restartable.sessions_fill [OF rs cfg pf ops b2(1) blank room] by blast
  have conf1: "arr h1 0 0 = take PAGE_SIZE (config_page (map of_char config))"
    using s(3) conf by (simp add: same_outside_def)
  have reads: "reads_page (rp_driver chip) h1 P pos" if "session_page opss pos P" for pos P
    using held that restartable.held_reads_page [OF rs s(2)] by (cases pos) blast
  have Q: "child_pages (arr h1) Q (pages_of o1)" using pages held by (fastforce simp: child_pages_def)
  have "bus_ok h1" using s(2) by (simp add: rp_ready_def)
  then obtain out t4 where p: "parent_main chip env args h1 = Some (Inr (out, t4))" "parent_nand.tool_ok arr (arr h1) t4"
    "list_all2 (csv_of (arr h1) Q) (pages_of o1) out"
    using parent_nand.csv_main [OF par env _ args Q] by blast
  have "life chip env config opss args h = Some (Inr (map all_ok opss, h1, out, snd (snd t4)))"
    using f(1) c(1) s(1) p(1) by (simp add: life_def split_beta del: upt_Suc)
  moreover have "same_flash (arr (snd (snd t4))) (arr h1)" using bus [OF p(2)] by simp
  ultimately show ?thesis using s(2) conf1 reads p(3) by blast
qed

end
