(* ===== verification/Parent_Safe.thy ===== *)
theory Parent_Safe
  imports Parent_Tool
begin

text \<open>
  What holds of the parent tool on any chip at all, one that answers at random or whose transfers fail included: where a
  command returns, its buffer still has 2112 bytes and the step machines are at rest, and where it faults the fault is an
  exit of its own, unless it decodes a page or was given an offset or a configuration that nothing checks. The judgement
  \<open>run_all\<close> says it of runs, with one rule for each way to put runs together.
\<close>

section \<open>Rules\<close>

lemma run_all_bind:
  assumes "run_all E P m" and "\<And>x. P x \<Longrightarrow> run_all E Q (f x)"
  shows "run_all E Q (bindO m f)"
proof -
  consider "m = None" | e where "m = Some (Inl e)" | x where "m = Some (Inr x)" by (metis option.exhaust sum.exhaust)
  then show ?thesis by cases (use assms in simp_all)
qed

lemma run_all_fold:
  assumes "I a" and "\<And>x a. x \<in> set xs \<Longrightarrow> I a \<Longrightarrow> run_all E I (f x a)"
  shows "run_all E I (foldO f xs a)"
  using assms
proof (induction xs arbitrary: a)
  case (Cons x xs)
  then show ?case by (simp add: run_all_bind [where P = I])
qed simp

lemma run_all_mono:
  assumes "run_all E P m" and "\<And>e. E e \<Longrightarrow> E' e" and "\<And>x. P x \<Longrightarrow> P' x"
  shows "run_all E' P' m"
  using assms by (auto simp: run_all_def split: option.splits sum.splits)

text \<open>For calls that always come back.\<close>

definition res_all :: "(fault \<Rightarrow> bool) \<Rightarrow> ('a \<Rightarrow> bool) \<Rightarrow> 'a res \<Rightarrow> bool" where
  "res_all E P m = (case m of Inl e \<Rightarrow> E e | Inr x \<Rightarrow> P x)"

lemma res_all_simps [simp]: "res_all E P (Inl e) = E e" "res_all E P (Inr x) = P x"
  by (simp_all add: res_all_def)

lemma run_all_res: "run_all E P (Some m) = res_all E P m"
  by (cases m) simp_all

lemma res_all_bind:
  assumes "res_all E P m" and "\<And>x. P x \<Longrightarrow> res_all E Q (f x)"
  shows "res_all E Q (bindR m f)"
  using assms by (cases m) simp_all

section \<open>The step machines\<close>

lemma length_par_query: "par_query chip cmd old h = (bs, h') \<Longrightarrow> length bs = length old"
  by (auto simp: par_query_def par_rx_def rx_bytes_def Let_def split: prod.splits if_splits)

lemma read_page_all: "length rbf = n \<Longrightarrow> run_all E (\<lambda>(bs, st, h'). length bs = n \<and> st = DEVICE_RESET) (read_page chip block page (rbf, st0, h))"
  unfolding read_page_def
  by (rule run_all_repeat [where I = "\<lambda>s. length (fst s) = n"])
    (auto simp: read_by_block_page_def read_step_def split: prod.splits if_splits dest!: length_par_query)

lemma erase_one_all: "run_all E (\<lambda>(st, h'). st = DEVICE_RESET) (erase_one chip block s)"
  unfolding erase_one_def
  by (rule run_all_repeat [where I = "\<lambda>s. True"]) (auto simp: erase_block_def Let_def split: prod.splits if_splits)

lemma write_page_all:
  "unat n \<le> length wbf \<Longrightarrow> run_all E (\<lambda>(st, h'). st = DEVICE_RESET) (write_page chip block page wbf n s)"
  unfolding write_page_def
  by (rule run_all_repeat [where I = "\<lambda>s. True"])
    (auto simp: write_block_page_def mem_read_def split: prod.splits if_splits sum.splits)

lemma init_block_all: "run_all (\<lambda>e. e = Exits) (\<lambda>(st, h'). st = DEVICE_RESET) (init_block chip block s)"
  unfolding init_block_def
  by (rule run_all_repeat [where I = "\<lambda>s. True"]) (auto simp: read_initialize_def read_step_def split: prod.splits if_splits)

section \<open>The commands\<close>

definition tool_typed :: "tool \<Rightarrow> bool" where
  "tool_typed t \<longleftrightarrow> (case t of (cmd, status, h) \<Rightarrow> length cmd = 2112 \<and> status = DEVICE_RESET)"

fun line_typed :: "line \<Rightarrow> bool" where
  "line_typed (Page_dump bs) \<longleftrightarrow> length bs = 2112"
| "line_typed (Page_string bs) \<longleftrightarrow> 0 \<notin> set bs"
| "line_typed (Block_done b) \<longleftrightarrow> b < 65536"
| "line_typed (Csv_rows rs) \<longleftrightarrow> True"
| "line_typed (Times b p ts) \<longleftrightarrow> b \<le> 0xFFFF \<and> p \<le> 0xFFFF"

definition output_typed :: "line list \<times> tool \<Rightarrow> bool" where
  "output_typed r \<longleftrightarrow> list_all line_typed (fst r) \<and> tool_typed (snd r)"

text \<open>The faults a command may end with.\<close>

definition may_fault :: "options \<Rightarrow> fault \<Rightarrow> bool" where
  "may_fault o1 e \<longleftrightarrow> e = Exits \<or>
     e = Out_of_bounds \<and>
       (o_type o1 = ''read'' \<and> put_string o1 \<noteq> 0xFFFF \<or>
        o_type o1 = ''config'' \<and> 2096 < length (o_config o1) \<and> length (o_config o1) < 2108 \<or>
        o_type o1 \<in> {''csv'', ''search''}) \<or>
     e = Panic \<and> o_type o1 = ''csv''"

lemma may_exit [simp]: "may_fault o1 Exits"
  by (simp add: may_fault_def)

lemma start_typed: "tool_typed (cmd, st, h) \<Longrightarrow> output_typed ([], cmd, DEVICE_RESET, h)"
  by (simp add: tool_typed_def output_typed_def)

text \<open>A loop over pages keeps what its body keeps.\<close>

lemma range_all:
  assumes "I a" and "\<And>b p a. I a \<Longrightarrow> run_all E I (body b p a)"
  shows "run_all E I (range_pages o1 body a)"
  unfolding range_pages_def each_page_def by (intro run_all_fold assms)

lemma print_page_all:
  assumes "length cmd = 2112" and "k \<noteq> 0xFFFF \<Longrightarrow> E Out_of_bounds"
  shows "res_all E (list_all line_typed) (print_page k cmd)"
  using assms by (auto simp: print_page_def c_string_def dest: set_takeWhileD)

lemma read_command_all:
  assumes "tool_typed t" and "o_type o1 = ''read''"
  shows "run_all (may_fault o1) output_typed (read_command chip o1 t)"
proof -
  obtain cmd st h where t: "t = (cmd, st, h)" by (cases t)
  have step: "run_all (may_fault o1) output_typed
      (bindO (read_page chip (of_nat b) (of_nat p) s) (\<lambda>s'.
       bindO (Some (print_page (put_string o1) (fst s'))) (\<lambda>ls. Some (Inr (out @ ls, s')))))"
    if I: "output_typed (out, s)" for b p out s
  proof (rule run_all_bind)
    obtain c st h where s: "s = (c, st, h)" by (cases s)
    then have "length c = 2112" using I by (simp add: output_typed_def tool_typed_def)
    then show "run_all (may_fault o1) (\<lambda>(bs, st, h'). length bs = 2112 \<and> st = DEVICE_RESET) (read_page chip (of_nat b) (of_nat p) s)"
      unfolding s by (rule read_page_all)
  next
    fix s' :: tool
    assume "case s' of (bs, st, h') \<Rightarrow> length bs = 2112 \<and> st = DEVICE_RESET"
    then have ok: "tool_typed s'" and len: "length (fst s') = 2112" by (auto simp: tool_typed_def)
    have "res_all (may_fault o1) (list_all line_typed) (print_page (put_string o1) (fst s'))"
      by (rule print_page_all [OF len]) (simp add: may_fault_def assms(2))
    then show "run_all (may_fault o1) output_typed (bindO (Some (print_page (put_string o1) (fst s'))) (\<lambda>ls. Some (Inr (out @ ls, s'))))"
      unfolding run_all_res [symmetric] using I ok by (intro run_all_bind) (auto simp: output_typed_def)
  qed
  show ?thesis unfolding read_command_def t prod.case
    by (rule range_all) (use assms(1) step in \<open>auto simp: t start_typed\<close>)
qed

text \<open>A page is read into the buffer of the tool.\<close>

lemma read_tool_all: "tool_typed s \<Longrightarrow> run_all E tool_typed (read_page chip block page s)"
proof -
  assume s: "tool_typed s"
  obtain c st h where ss: "s = (c, st, h)" by (cases s)
  have len: "length c = 2112" using s by (simp add: ss tool_typed_def)
  show ?thesis unfolding ss by (rule run_all_mono [OF read_page_all [OF len]]) (auto simp: tool_typed_def)
qed

lemma require_page_all: "tool_typed s \<Longrightarrow> run_all (may_fault o1) tool_typed (require_page chip good b p s)"
  unfolding require_page_def by (rule run_all_bind [OF read_tool_all]) simp_all

text \<open>A block is erased, or a page written, with the buffer as it was.\<close>

lemma with_buffer_all:
  assumes "run_all E (\<lambda>(st, h'). st = DEVICE_RESET) m" and "length cmd = 2112" and "list_all line_typed out"
  shows "run_all E output_typed (bindO m (\<lambda>s'. Some (Inr (out, cmd, s'))))"
  by (rule run_all_bind [OF assms(1)]) (auto simp: output_typed_def tool_typed_def assms)

lemma erase_blocks_all:
  assumes "output_typed r" and "b < 65536"
  shows "run_all E output_typed (erase_blocks chip b r)"
proof -
  obtain out cmd s where r: "r = (out, cmd, s)" by (cases r)
  show ?thesis unfolding erase_blocks_def r prod.case
    by (rule with_buffer_all [OF erase_one_all]) (use assms in \<open>auto simp: r output_typed_def tool_typed_def\<close>)
qed

lemma erase_command_all: "tool_typed t \<Longrightarrow> run_all E output_typed (erase_command chip o1 t)"
proof -
  assume t: "tool_typed t"
  have "unat (block_e o1) < 65536" using unsigned_less [of "block_e o1", where 'a = nat] by simp
  then have b: "b < 65536" if "b \<in> set [unat (block_s o1)..<unat (block_e o1)]" for b using that by simp
  obtain cmd st h where tt: "t = (cmd, st, h)" by (cases t)
  show ?thesis unfolding erase_command_def tt prod.case
    by (rule run_all_fold [OF _ erase_blocks_all]) (use b t tt start_typed in \<open>simp_all del: set_upt\<close>)
qed

lemma block_done_all:
  assumes "output_typed (out, t)" and "b < 65536" and "\<And>t. tool_typed t \<Longrightarrow> run_all E tool_typed (body t)"
  shows "run_all E output_typed (bindO (body t) (\<lambda>t. Some (Inr (out @ [Block_done b], t))))"
  by (rule run_all_bind [OF assms(3)]) (use assms(1,2) in \<open>auto simp: output_typed_def\<close>)

lemma format_command_all: "tool_typed t \<Longrightarrow> run_all (may_fault o1) output_typed (format_command chip t)"
proof -
  assume t: "tool_typed t"
  obtain cmd st h where tt: "t = (cmd, st, h)" by (cases t)
  have "run_all (may_fault o1) output_typed (format_block chip b r)" if b: "b < 65536" and r: "output_typed r" for b r
  proof -
    obtain out cmd s where rr: "r = (out, cmd, s)" by (cases r)
    have cmd: "length cmd = 2112" using r by (simp add: rr output_typed_def tool_typed_def split: prod.splits)
    show ?thesis unfolding format_block_def rr prod.case
    proof (rule run_all_bind [OF erase_one_all])
      fix s' :: "byte \<times> bus"
      assume s': "case s' of (st, h') \<Rightarrow> st = DEVICE_RESET"
      have "tool_typed (cmd, s')" using s' cmd by (auto simp: tool_typed_def)
      then have "output_typed (out, cmd, s')" using r by (simp add: rr output_typed_def)
      then show "run_all (may_fault o1) output_typed (bindO (foldO (require_page chip looks_blank b) [0..<PAGE_COUNT] (cmd, s'))
          (\<lambda>t. Some (Inr (out @ [Block_done b], t))))"
        by (rule block_done_all) (use b in \<open>auto intro: run_all_fold require_page_all\<close>)
    qed
  qed
  then show ?thesis unfolding format_command_def tt prod.case
    by (intro run_all_fold) (use t tt start_typed in auto)
qed

lemma check_command_all: "tool_typed t \<Longrightarrow> run_all (may_fault o1) output_typed (check_command chip t)"
proof -
  assume t: "tool_typed t"
  obtain cmd st h where tt: "t = (cmd, st, h)" by (cases t)
  have "run_all (may_fault o1) output_typed (check_block chip b r)" if b: "b < 65536" and r: "output_typed r" for b r
  proof -
    obtain out t where rr: "r = (out, t)" by (cases r)
    show ?thesis unfolding check_block_def rr prod.case
      by (rule block_done_all [OF r [unfolded rr]]) (use b in \<open>auto intro: run_all_fold require_page_all\<close>)
  qed
  then show ?thesis unfolding check_command_def tt prod.case
    by (intro run_all_fold) (use t tt start_typed in auto)
qed

lemma config_image_all:
  assumes "2096 < length config \<Longrightarrow> E Out_of_bounds"
  shows "res_all E (\<lambda>cmd. length cmd = 2112) (config_image config)"
proof -
  have hb: "mem_read (replicate 2112 0) 0 16 = Inr (replicate 16 (0 :: byte))" by (simp add: mem_read_def)
  show ?thesis using assms
    by (simp add: config_image_def Let_def hb mem_write_def min_def)
qed

lemma config_command_all:
  assumes "tool_typed t" and "o_type o1 = ''config''"
  shows "run_all (may_fault o1) output_typed (config_command chip o1 t)"
proof -
  obtain cmd st h where t: "t = (cmd, st, h)" by (cases t)
  let ?config = "map of_char (o_config o1) :: byte list"
  show ?thesis
  proof (cases "?config \<noteq> [] \<and> length ?config < 2112 - 4")
    case True
    have "run_all (may_fault o1) (\<lambda>cmd. length cmd = 2112) (Some (config_image ?config))"
      unfolding run_all_res by (rule config_image_all) (use True assms(2) in \<open>simp add: may_fault_def\<close>)
    then have "run_all (may_fault o1) output_typed (bindO (Some (config_image ?config)) (\<lambda>cmd.
          bindO (write_page chip 0 0 cmd (2112 - 64) (DEVICE_RESET, h)) (\<lambda>s. Some (Inr ([], cmd, s)))))"
      by (rule run_all_bind) (rule with_buffer_all [OF write_page_all]; simp)
    then show ?thesis using True by (simp add: config_command_def t Let_def)
  next
    case False
    then show ?thesis using assms(1) start_typed by (auto simp: config_command_def t Let_def)
  qed
qed

lemma write_pattern_all: "length cmd = 2112 \<Longrightarrow> res_all E (\<lambda>cmd. length cmd = 2112) (write_pattern b p cmd)"
  by (simp add: write_pattern_def mem_write_def del: upt_Suc)

lemma write_command_all: "tool_typed t \<Longrightarrow> run_all E output_typed (write_command chip o1 t)"
proof -
  assume t: "tool_typed t"
  obtain cmd st h where tt: "t = (cmd, st, h)" by (cases t)
  have step: "run_all E output_typed (bindO (Some (write_pattern b p cmd)) (\<lambda>cmd.
       bindO (write_page chip (of_nat b) (of_nat p) cmd (2112 - 64) (DEVICE_RESET, h)) (\<lambda>s. Some (Inr (out, cmd, s)))))"
    if I: "output_typed (out, cmd, status, h)" for b p out cmd status h
  proof (rule run_all_bind)
    show "run_all E (\<lambda>cmd. length cmd = 2112) (Some (write_pattern b p cmd))"
      unfolding run_all_res by (rule write_pattern_all) (use I in \<open>simp add: output_typed_def tool_typed_def\<close>)
  qed (rule with_buffer_all [OF write_page_all]; use I in \<open>simp add: output_typed_def\<close>)
  show ?thesis unfolding write_command_def tt prod.case
    by (rule range_all) (use t tt step start_typed in auto)
qed

section \<open>The decoding commands\<close>

text \<open>Decoding reads outside the page or puts a value outside a vector, and no worse.\<close>

definition decodes :: "'a res \<Rightarrow> bool" where
  "decodes m \<longleftrightarrow> res_all (\<lambda>e. e = Out_of_bounds \<or> e = Panic) (\<lambda>x. True) m"

lemma decodes_Inr [intro!]: "decodes (Inr x)"
  by (simp add: decodes_def)

lemma decodes_bind [intro]: "decodes m \<Longrightarrow> (\<And>x. decodes (f x)) \<Longrightarrow> decodes (bindR m f)"
  by (cases m) (simp_all add: decodes_def)

lemma decodes_if [intro]: "(c \<Longrightarrow> decodes a) \<Longrightarrow> (\<not> c \<Longrightarrow> decodes b) \<Longrightarrow> decodes (if c then a else b)"
  by simp

lemma decodes_fold [intro]: "(\<And>x a. decodes (f x a)) \<Longrightarrow> decodes (foldR f xs a)"
  by (induction xs arbitrary: a) auto

lemma decodes_read [intro!]: "decodes (mem_read m off n)"
  by (simp add: mem_read_def decodes_def)

lemma decodes_put [intro!]: "decodes (vec_put decbf at i v)"
  by (simp add: vec_put_def mem_read_def decodes_def)

lemma decodes_dims [intro!]: "decodes (put_dim3 decbf bp n v)" "decodes (put_dim1 decbf bp n v)"
  unfolding put_dim3_def put_dim1_def by (intro decodes_bind decodes_put)+

lemma decodes_fill [intro]: "(\<And>n v. decodes (put n v)) \<Longrightarrow> decodes (fill_vec put cp count v)"
  unfolding fill_vec_def by (intro decodes_bind decodes_fold decodes_Inr)

lemma csv_loop_decodes: "decodes (csv_loop decbf offset st)"
proof (induction "4096 - offset" arbitrary: offset st rule: less_induct)
  case less
  have IH: "decodes (csv_loop decbf (offset + 16 + k) st')" if "offset < 4096" for k st'
    by (rule less) (use that in simp)
  from IH [where k = 0] have IH0: "decodes (csv_loop decbf (offset + 16) st')" if "offset < 4096" for st'
    using that by simp
  show ?case
    unfolding csv_loop.simps [of decbf offset st] Let_def
    by (intro decodes_if decodes_bind decodes_read decodes_fill decodes_dims decodes_Inr IH IH0)
qed

lemma decodes_prints [intro!]: "decodes (print_dim3 ty v k out)" "decodes (print_dim1 ty v k out)"
proof -
  have v: "decodes (vec_at v i)" for i by (simp add: vec_at_def decodes_def)
  show "decodes (print_dim3 ty v k out)" "decodes (print_dim1 ty v k out)"
    unfolding print_dim3_def print_dim1_def Let_def by (intro decodes_bind decodes_Inr v)+
qed

lemma csv_page_decodes: "decodes (csv_page decbf)"
  unfolding csv_page_def by (intro decodes_bind decodes_fold csv_loop_decodes decodes_prints)

lemma search_loop_all: "res_all (\<lambda>e. e = Out_of_bounds) (\<lambda>ts. True) (search_loop es ee cmd offset ts)"
proof (induction "2112 - offset" arbitrary: offset ts rule: less_induct)
  case less
  have IH: "res_all (\<lambda>e. e = Out_of_bounds) (\<lambda>ts. True) (search_loop es ee cmd (offset + k + 16) ts')" if "offset < 2112" for k ts'
    by (rule less) (use that in simp)
  have rd: "mem_read cmd off n = Inl e \<Longrightarrow> e = Out_of_bounds" for off n e by (simp add: mem_read_def split: if_splits)
  show ?case
    unfolding search_loop.simps [of es ee cmd offset ts] Let_def
    using IH rd by (auto simp: bindR_def split: sum.splits)
qed

lemma csv_command_all:
  assumes "tool_typed t" and "o_type o1 = ''csv''"
  shows "run_all (may_fault o1) output_typed (csv_command chip o1 t)"
proof -
  obtain cmd st h where t: "t = (cmd, st, h)" by (cases t)
  have step: "run_all (may_fault o1) output_typed (bindO (read_page chip (of_nat b) (of_nat p) (replicate 4096 0, DEVICE_RESET, h)) (\<lambda>(decbf, s).
       bindO (Some (csv_page decbf)) (\<lambda>rs. Some (Inr (out @ [Csv_rows rs], cmd, s)))))"
    if I: "output_typed (out, cmd, status, h)" for b p out cmd status h
  proof (rule run_all_bind [OF read_page_all [OF length_replicate]], clarify)
    fix bs :: "byte list" and h' :: bus
    have "run_all (may_fault o1) (\<lambda>rs. True) (Some (csv_page bs))"
      using csv_page_decodes [of bs] assms(2) by (auto simp: run_all_res decodes_def res_all_def may_fault_def split: sum.splits)
    then show "run_all (may_fault o1) output_typed (bindO (Some (csv_page bs)) (\<lambda>rs. Some (Inr (out @ [Csv_rows rs], cmd, DEVICE_RESET, h'))))"
      by (rule run_all_bind) (use I in \<open>simp add: output_typed_def tool_typed_def\<close>)
  qed
  show ?thesis unfolding csv_command_def t prod.case
    by (rule range_all) (use assms(1) t step start_typed in auto)
qed

lemma search_pages_all:
  assumes "tool_typed (snd a)" and "o_type o1 = ''search''"
  shows "run_all (may_fault o1) (\<lambda>a. tool_typed (snd a)) (search_pages chip es ee b ps a)"
  using assms(1)
proof (induction ps arbitrary: a)
  case (Cons p ps)
  obtain m cmd st h where a: "a = (m, cmd, st, h)" by (cases a)
  have cmd: "length cmd = 2112" using Cons.prems by (simp add: a tool_typed_def)
  show ?case unfolding a search_pages.simps prod.case
  proof (rule run_all_bind [OF read_page_all [OF cmd]], clarify)
    fix bs :: "byte list" and h' :: bus
    assume bs: "length bs = 2112"
    have s: "run_all (may_fault o1) (\<lambda>ts. True) (Some (search_loop es ee bs 0 (map_of m (blockpage b p))))"
      using search_loop_all [of es ee bs 0 "map_of m (blockpage b p)"] assms(2) by (auto simp: run_all_res res_all_def may_fault_def split: sum.splits)
    have "run_all (may_fault o1) (\<lambda>a. tool_typed (snd a)) (bindO (Some (search_loop es ee bs 0 (map_of m (blockpage b p)))) (\<lambda>ts.
        search_pages chip es ee b ps ((case ts of None \<Rightarrow> m | Some xs \<Rightarrow> put_times (blockpage b p) xs m), bs, DEVICE_RESET, h')))"
      by (rule run_all_bind [OF s]) (rule Cons.IH, simp add: tool_typed_def bs)
    then show "run_all (may_fault o1) (\<lambda>a. tool_typed (snd a)) (if \<not> has_magic bs then Some (Inr (m, bs, DEVICE_RESET, h'))
        else bindO (Some (search_loop es ee bs 0 (map_of m (blockpage b p)))) (\<lambda>ts.
          search_pages chip es ee b ps ((case ts of None \<Rightarrow> m | Some xs \<Rightarrow> put_times (blockpage b p) xs m), bs, DEVICE_RESET, h')))"
      using bs by (simp add: tool_typed_def)
  qed
qed simp

lemma times_lines_typed: "list_all line_typed (times_lines m)"
  by (auto simp: times_lines_def list_all_iff word_and_le1 word_and_le2)

lemma search_command_all:
  assumes "tool_typed t" and "o_type o1 = ''search''"
  shows "run_all (may_fault o1) output_typed (search_command chip o1 t)"
proof -
  obtain cmd st h where t: "t = (cmd, st, h)" by (cases t)
  have f: "run_all (may_fault o1) (\<lambda>a. tool_typed (snd a))
      (foldO (\<lambda>b. search_pages chip (epoch_s o1) (epoch_e o1) b [0..<PAGE_COUNT]) [0..<BLOCK_COUNT] ([], cmd, st, h))"
    by (rule run_all_fold) (use assms t search_pages_all in auto)
  show ?thesis unfolding search_command_def t prod.case
    by (rule run_all_bind [OF f]) (auto simp: output_typed_def times_lines_typed)
qed

section \<open>main\<close>

lemma command_all: "tool_typed t \<Longrightarrow> run_all (may_fault o1) output_typed (command chip o1 t)"
  unfolding command_def
  using read_command_all erase_command_all format_command_all check_command_all config_command_all write_command_all
    csv_command_all search_command_all by (auto simp: output_typed_def)

lemma setup_all:
  "res_all (\<lambda>e. e = Exits) (\<lambda>h'. True) (setup_gpio env h)"
  "res_all (\<lambda>e. e = Exits) tool_typed (setup_chip chip env h)"
  by (simp_all add: setup_gpio_def setup_chip_def tool_typed_def Let_def split: prod.split)

lemma init_blocks_all: "tool_typed t \<Longrightarrow> run_all (\<lambda>e. e = Exits) tool_typed (init_blocks chip ty t)"
proof -
  assume t: "tool_typed t"
  obtain cmd st h where tt: "t = (cmd, st, h)" by (cases t)
  have f: "run_all (\<lambda>e. e = Exits) (\<lambda>(st, h'). st = DEVICE_RESET) (foldO (init_block chip) [0..<BLOCK_COUNT] (DEVICE_RESET, h))"
    by (rule run_all_fold) (simp_all add: init_block_all)
  have "run_all (\<lambda>e. e = Exits) tool_typed (bindO (foldO (init_block chip) [0..<BLOCK_COUNT] (DEVICE_RESET, h)) (\<lambda>s. Some (Inr (cmd, s))))"
    by (rule run_all_bind [OF f]) (use t in \<open>auto simp: tool_typed_def tt\<close>)
  then show ?thesis using t by (simp add: init_blocks_def tt tool_typed_def)
qed

lemma options_exit: "parse_options args = Inl e \<Longrightarrow> e = Exits"
proof -
  have "foldR set_option args o1 = Inl e \<Longrightarrow> e = Exits" for o1 e
    by (induction args arbitrary: o1) (auto simp: bindR_eq_Inl set_option_def split: if_splits)
  then show "parse_options args = Inl e \<Longrightarrow> e = Exits" by (auto simp: parse_options_def bindR_eq_Inl split: if_splits)
qed

lemma parent_main_all:
  "case parse_options args of Inl e \<Rightarrow> parent_main chip env args h = Some (Inl Exits)
   | Inr o1 \<Rightarrow> run_all (may_fault o1) output_typed (parent_main chip env args h)"
proof (cases "parse_options args")
  case (Inl e)
  then show ?thesis using options_exit [OF Inl] by (simp add: parent_main_def)
next
  case (Inr o1)
  have g: "run_all (may_fault o1) (\<lambda>h. True) (Some (setup_gpio env h))" for h
    using run_all_mono [OF setup_all(1) [folded run_all_res]] by fastforce
  have c: "run_all (may_fault o1) tool_typed (Some (setup_chip chip env h))" for h
    using run_all_mono [OF setup_all(2) [folded run_all_res]] by fastforce
  have i: "run_all (may_fault o1) tool_typed (init_blocks chip (o_type o1) t)" if "tool_typed t" for t
    using run_all_mono [OF init_blocks_all [OF that]] by fastforce
  have "run_all (may_fault o1) output_typed (parent_main chip env args h)"
    unfolding parent_main_def Inr bindO_simps
    by (rule run_all_bind [OF g], rule run_all_bind [OF c], rule run_all_bind [OF i], assumption, rule command_all)
  then show ?thesis by (simp add: Inr)
qed

end
