(* ===== verification/Power_Loss.thy ===== *)
theory Power_Loss
  imports Mxfs_Restart
begin

text \<open>
  Sessions that the end of the power cuts off while a page is being programmed or a block erased. The step relation \<open>chip_life\<close> is about
  a chip that sees any number of sessions. Each may leave the page at its write position with any bytes at all, or, where that is the
  first page of a block, the whole block, as long as the block is blank or its head was stored. What the next
  session finds is still a flash it can mount, and every page of a block that was not hit is still there. The last case,
  a block whose first page is torn so that the mount takes it for blank, is that of \<open>Torn_Block\<close>.
\<close>

section \<open>The life of a chip\<close>

definition torn_page :: "flash_image \<Rightarrow> nat \<times> nat \<Rightarrow> flash_image \<Rightarrow> bool" where
  "torn_page f pos f' \<longleftrightarrow> snd pos \<noteq> 0 \<and> (\<exists>bs. same_flash f' (replace_page f (fst pos) (snd pos) bs))"

definition torn_start :: "flash_image \<Rightarrow> nat \<times> nat \<Rightarrow> flash_image \<Rightarrow> bool" where
  "torn_start f pos f' \<longleftrightarrow> snd pos = 0 \<and> same_outside {fst pos} f' f \<and> block_ok f' (fst pos)"

text \<open>The device after the last operation or after the power failed, and the blocks this cost.\<close>

inductive left_as :: "('d \<Rightarrow> flash_image) \<Rightarrow> nat \<times> nat \<Rightarrow> 'd \<Rightarrow> 'd \<Rightarrow> nat set \<Rightarrow> bool"
  for img :: "'d \<Rightarrow> flash_image" and pos :: "nat \<times> nat" and d d' :: 'd where
  whole: "same_flash (img d') (img d) \<Longrightarrow> left_as img pos d d' {}"
| in_page: "torn_page (img d) pos (img d') \<Longrightarrow> left_as img pos d d' {}"
| in_block: "torn_start (img d) pos (img d') \<Longrightarrow> left_as img pos d d' {fst pos}"

inductive chip_life ::
  "'p build \<Rightarrow> 'p platform \<Rightarrow> 'd driver \<Rightarrow> ('d \<Rightarrow> flash_image) \<Rightarrow> ('d \<Rightarrow> bool) \<Rightarrow> 'd \<Rightarrow> history \<Rightarrow> nat set list \<Rightarrow> 'd \<Rightarrow> bool"
  for cfg :: "'p build" and pf :: "'p platform" and drv :: "'d driver" and img :: "'d \<Rightarrow> flash_image" and alive :: "'d \<Rightarrow> bool" and d0 :: 'd where
  new: "chip_life cfg pf drv img alive d0 [] [] d0"
| session: "chip_life cfg pf drv img alive d0 hist gone d \<Longrightarrow>
    mxfs_create_instance cfg pf drv (\<lambda>n. True) None \<lparr>singleton = 0, singleton_locked = False, device = d\<rparr> = Inr (OK, Some inst, sys) \<Longrightarrow>
    ops_good cfg ops \<Longrightarrow> foldR (run_op cfg drv) ops ([], inst, device sys) = Inr (rets, inst', d') \<Longrightarrow>
    left_as img (position inst') d' d'' lost \<Longrightarrow> alive d'' \<Longrightarrow>
    chip_life cfg pf drv img alive d0 (hist @ [(fst (position inst), session_log ops)]) (gone @ [lost]) d''"

section \<open>A torn page\<close>

text \<open>It is in a block of the session, behind all its pages.\<close>

lemma torn_apart:
  assumes "log_low n \<le> i" and "i < n" and "snd (log_pos s n) \<noteq> 0"
  shows "log_pos s i \<noteq> log_pos s n"
proof
  assume eq: "log_pos s i = log_pos s n"
  have "n mod 64 \<noteq> 0" using assms(3) by (simp add: log_pos_def)
  then have "(n - 1) div 64 = n div 64" using div_Suc [of "n - 1" 64] assms(2) by (auto split: if_splits)
  moreover have "(n - 1) div 64 - 1022 \<le> i div 64" using div_le_mono [OF assms(1), of 64] by (simp add: log_low_def)
  ultimately have "n div 64 < i div 64 + 1023" by linarith
  then have "i = n" using log_pos_inj [of i n s] assms(2) eq by simp
  then show False using assms(2) by simp
qed

lemma torn_block:
  assumes "snd (log_pos s n) \<noteq> 0"
  shows "fst (log_pos s n) \<in> touched s 0 n"
proof -
  have n: "n mod 64 \<noteq> 0" using assms by (simp add: log_pos_def)
  then have "n \<noteq> 0" by (metis mod_0)
  then have "n - 1 < n" "(n - 1) div 64 = n div 64" using div_Suc [of "n - 1" 64] n by (auto split: if_splits)
  then have "fst (log_pos s (n - 1)) = fst (log_pos s n)" by (simp add: log_pos_def)
  then show ?thesis using \<open>n - 1 < n\<close> unfolding touched_def by (intro image_eqI [of _ _ "n - 1"]) simp_all
qed

lemma torn_pages_ok:
  assumes "pages_ok f s H" and "torn_page f (log_pos s (length H)) g"
  shows "pages_ok g s H"
  unfolding pages_ok_def
proof (intro allI impI)
  fix i
  assume i: "log_low (length H) \<le> i \<and> i < length H"
  obtain bs where g: "same_flash g (replace_page f (fst (log_pos s (length H))) (snd (log_pos s (length H))) bs)"
    and p: "snd (log_pos s (length H)) \<noteq> 0" using assms(2) by (auto simp: torn_page_def)
  have "log_pos s i \<noteq> log_pos s (length H)" using torn_apart [of "length H" i s] i p by blast
  then have "fst (log_pos s i) \<noteq> fst (log_pos s (length H)) \<or> snd (log_pos s i) \<noteq> snd (log_pos s (length H))"
    by (metis prod.collapse)
  then have "g (fst (log_pos s i)) (snd (log_pos s i)) = f (fst (log_pos s i)) (snd (log_pos s i))"
    using same_flashD [OF g log_pos_valid(1)] by (auto simp: replace_page_def)
  then show "page_ok (H ! i) \<and> holds_page (g (fst (log_pos s i)) (snd (log_pos s i))) (H ! i)"
    using assms(1) i by (simp add: pages_ok_def)
qed

lemma torn_outside:
  assumes "torn_page f (log_pos s n) g" and "same_outside (touched s 0 n) f f0"
  shows "same_outside (touched s 0 n) g f0"
proof -
  obtain bs where g: "same_flash g (replace_page f (fst (log_pos s n)) (snd (log_pos s n)) bs)" and p: "snd (log_pos s n) \<noteq> 0"
    using assms(1) by (auto simp: torn_page_def)
  have "same_outside (touched s 0 n) g f"
    using g torn_block [OF p] by (auto simp: same_outside_def same_flash_def replace_page_def)
  then show ?thesis using assms(2) by (rule same_outside_trans) simp_all
qed

section \<open>What every step of the relation keeps\<close>

context restartable
begin

lemma left_session:
  assumes f: "flash_ok f" and h: "history_left f hist gone" and ops: "ops_good cfg ops"
    and rel: "log_rel cfg (img d) s inst (session_log ops)" and ok: "flash_ok (img d)"
    and out: "same_outside (touched s 0 (length (log_pages (session_log ops)))) (img d) f"
    and left: "left_as img (position inst) d d' lost"
  shows "flash_ok (img d') \<and> history_left (img d') (hist @ [(s, session_log ops)]) (gone @ [lost])"
proof -
  let ?H = "log_pages (session_log ops)"
  have pages: "pages_ok (img d) s ?H" and pos: "position inst = log_pos s (length ?H)" using rel by (simp_all add: log_rel_def)
  have dated: "pages_good dated (session_log ops)" using session_log_dated ops by (simp add: ops_good_def)
  from left show ?thesis
  proof cases
    case whole
    then show ?thesis
      using flash_ok_same [OF ok] history_left_snoc [OF h pages out same_flash_outside] by simp
  next
    case in_page
    then have "pages_ok (img d') s ?H" "same_outside (touched s 0 (length ?H)) (img d') f"
      using torn_pages_ok [OF pages] torn_outside out pos by simp_all
    then show ?thesis using flash_ok_written [OF f _ dated] history_left_snoc [OF h _ _ same_outside_refl] in_page by simp
  next
    case in_block
    then have o: "same_outside {fst (position inst)} (img d') (img d)" "block_ok (img d') (fst (position inst))"
      by (simp_all add: torn_start_def)
    show ?thesis using flash_ok_changed [OF ok o(1)] o(2) history_left_snoc [OF h pages out o(1)] in_block by simp
  qed
qed

lemma chip_life_ok:
  assumes cfg: "good_build cfg" and pf: "mount_good pf = mount_good_flash" "find_current pf = find_flash data_blocks 0"
    and life: "chip_life cfg pf drv img alive d0 hist gone d" and d0: "alive d0" "flash_ok (img d0)"
  shows "alive d \<and> flash_ok (img d) \<and> history_left (img d) hist gone"
  using life
proof induction
  case new
  then show ?case using d0 by (simp add: history_left_Nil)
next
  case (session hist gone d inst sys ops rets inst' d' d'' lost)
  have d: "alive d" "flash_ok (img d)" "history_left (img d) hist gone" using session.IH by simp_all
  obtain i d1 where m: "mxfs_create_instance cfg pf drv (\<lambda>n. True) None \<lparr>singleton = 0, singleton_locked = False, device = d\<rparr> =
      Inr (OK, Some i, \<lparr>singleton = 1, singleton_locked = False, device = d1\<rparr>)" "ready d1" "same_flash (img d1) (img d)"
    "log_rel cfg (img d1) (fst (position i)) i empty_log" using mount_runs [OF cfg pf d(1,2)] by blast
  then have i: "i = inst" "device sys = d1" using session.hyps(2) by auto
  obtain i2 d2 where r: "foldR (run_op cfg drv) ops ([], i, d1) = Inr ([] @ replicate (length ops) OK, i2, d2)"
    "log_rel cfg (img d2) (fst (position i)) i2 (session_log ops)"
    "same_outside (touched (fst (position i)) 0 (length (log_pages (session_log ops)))) (img d2) (img d)" "flash_ok (img d2)"
    using client_runs [OF cfg session.hyps(3) m(2) d(2) m(3,4), of "[]"] by blast
  then have "i2 = inst'" "d2 = d'" using session.hyps(4) by (simp_all add: i)
  then show ?case using left_session [OF d(2,3) session.hyps(3) r(2,4,3)] session.hyps(5,6) by (simp add: i)
qed

text \<open>After any such life the next session runs, and reads everything that was left.\<close>

lemma next_life:
  assumes cfg: "good_build cfg" and pf: "mount_good pf = mount_good_flash" "find_current pf = find_flash data_blocks 0"
    and life: "chip_life cfg pf drv img alive d0 hist gone d" and d0: "alive d0" "flash_ok (img d0)" and ops: "ops_good cfg ops"
  shows "\<exists>s inst d'. session cfg pf drv ops d = Inr (all_ok ops, Some inst, d') \<and> chosen_block (img d) s \<and>
    (\<forall>k i. page_left (hist @ [(s, session_log ops)]) (gone @ [{}]) k i \<longrightarrow>
      reads_page drv d' (hist_page (hist @ [(s, session_log ops)]) k i) (hist_pos (hist @ [(s, session_log ops)]) k i))"
proof -
  have d: "alive d" "flash_ok (img d)" "history_left (img d) hist gone" using chip_life_ok [OF cfg pf life d0] by simp_all
  obtain b inst d' where s: "session cfg pf drv ops d = Inr (all_ok ops, Some inst, d')" "ready d'" "chosen_block (img d) b"
    "log_rel cfg (img d') b inst (session_log ops)"
    "same_outside (touched b 0 (length (log_pages (session_log ops)))) (img d') (img d)"
    using session_runs [OF cfg pf ops d(1,2)] by blast
  have "history_left (img d') (hist @ [(b, session_log ops)]) (gone @ [{}])"
    by (rule history_left_snoc [OF d(3) _ s(5) same_outside_refl]) (use s(4) in \<open>simp add: log_rel_def\<close>)
  then show ?thesis using s(1,3) history_reads [OF s(2)] by blast
qed

text \<open>Such a life with a torn page: a session on any mountable chip, then the program of the next page breaks off after some bytes.\<close>

lemma life_with_torn_page:
  assumes cfg: "good_build cfg" and pf: "mount_good pf = mount_good_flash" "find_current pf = find_flash data_blocks 0"
    and d0: "alive d0" "flash_ok (img d0)" and ops: "ops_good cfg ops" and part: "length (log_pages (session_log ops)) mod 64 \<noteq> 0"
    and bs: "length bs \<le> PAGE_SIZE"
  shows "\<exists>s d fill. chip_life cfg pf drv img alive d0 [(s, session_log ops)] [{}] d \<and> chosen_block (img d0) s \<and> idle_byte fill \<and>
    (case log_pos s (length (log_pages (session_log ops))) of (b, p) \<Rightarrow> img d b p = programmed bs fill) \<and>
    pages_ok (img d) s (log_pages (session_log ops)) \<and> same_outside (touched s 0 (length (log_pages (session_log ops)))) (img d) (img d0)"
proof -
  let ?L = "session_log ops" and ?n = "length (log_pages (session_log ops))"
  obtain i d1 where m: "mxfs_create_instance cfg pf drv (\<lambda>n. True) None \<lparr>singleton = 0, singleton_locked = False, device = d0\<rparr> =
      Inr (OK, Some i, \<lparr>singleton = 1, singleton_locked = False, device = d1\<rparr>)" "ready d1" "same_flash (img d1) (img d0)"
    "chosen_block (img d0) (fst (position i))" "log_rel cfg (img d1) (fst (position i)) i empty_log"
    using mount_runs [OF cfg pf d0] by blast
  let ?s = "fst (position i)"
  obtain i2 d2 where r: "foldR (run_op cfg drv) ops ([], i, d1) = Inr ([] @ replicate (length ops) OK, i2, d2)" "ready d2"
    "log_rel cfg (img d2) ?s i2 ?L" "same_outside (touched ?s 0 ?n) (img d2) (img d0)"
    using client_runs [OF cfg ops m(2) d0(2) m(3,5), of "[]"] by blast
  obtain b p where bp: "log_pos ?s ?n = (b, p)" by (cases "log_pos ?s ?n")
  have pos: "position i2 = (b, p)" and tail: "tail_ok (img d2) i2" and pages: "pages_ok (img d2) ?s (log_pages ?L)"
    using r(3) by (simp_all add: log_rel_def bp)
  have v: "valid_pos b p" using log_pos_valid(1) [of ?s ?n] by (simp add: bp)
  have p: "p \<noteq> 0" using part bp by (auto simp: log_pos_def)
  have blank: "img d2 b p = blank_page" using tail p v by (auto simp: tail_ok_def pos)
  have w: "unat (of_nat b :: u16) = b" "unat (of_nat p :: u16) = p" "unat (of_nat (length bs) :: u16) = length bs"
    using v bs by (simp_all add: unat_of_nat_small)
  obtain d3 fill where d3: "ready d3" "idle_byte fill" "same_flash (img d3) (replace_page (img d2) b p (programmed bs fill))"
    using write_law [OF r(2), of "of_nat b" "of_nat p" "of_nat (length bs)" bs] blank v bs unfolding w
    by (auto simp: replace_page_def)
  have torn: "torn_page (img d2) (b, p) (img d3)" using d3(3) p by (auto simp: torn_page_def)
  have "chip_life cfg pf drv img alive d0 ([] @ [(?s, ?L)]) ([] @ [{}]) d3"
    by (rule chip_life.session [OF chip_life.new m(1) ops]) (use r(1) torn ready_alive [OF d3(1)] in \<open>auto simp: pos intro: left_as.in_page\<close>)
  moreover have "img d3 b p = programmed bs fill" using same_flashD [OF d3(3) v] by (simp add: replace_page_def)
  moreover have "pages_ok (img d3) ?s (log_pages ?L)" "same_outside (touched ?s 0 ?n) (img d3) (img d0)"
    using torn_pages_ok [OF pages] torn_outside [OF _ r(4)] torn by (simp_all add: bp)
  ultimately show ?thesis using m(4) d3(2) bp by (intro exI [of _ ?s] exI [of _ d3] exI [of _ fill]) simp
qed

end

end
