(* ===== verification/Torn_Block.thy ===== *)
theory Torn_Block
  imports Mxfs_Restart
begin

text \<open>
  A block whose first page was torn before its magic number was stored. The mount takes such a block for blank, so the block is never
  erased, and programming cannot bring back the bits the torn page has lost: every session that starts there
  reports success, loses its first page, and leaves the block for the next one to find again.
\<close>

section \<open>Pages that never start with the magic number again\<close>

text \<open>The page has a zero bit where the magic number has a one.\<close>

definition torn_head :: "byte list \<Rightarrow> bool" where
  "torn_head pg \<longleftrightarrow> length pg = PAGE_SIZE \<and> (\<exists>i<4. pg ! i AND le_bytes 4 MAGIC ! i \<noteq> le_bytes 4 MAGIC ! i)"

lemma torn_head_overlay:
  assumes "torn_head old" and "length new = PAGE_SIZE"
  shows "torn_head (overlay old new)"
proof -
  obtain i where i: "i < 4" "old ! i AND le_bytes 4 MAGIC ! i \<noteq> le_bytes 4 MAGIC ! i" and l: "length old = PAGE_SIZE"
    using assms(1) by (auto simp: torn_head_def)
  have "(x AND y) AND m \<noteq> m" if "x AND m \<noteq> m" for x y m :: byte
    using that by (metis and.assoc and.commute and.left_idem)
  moreover have "overlay old new ! i = old ! i AND new ! i" using i(1) l assms(2) by (simp add: overlay_def)
  ultimately have "overlay old new ! i AND le_bytes 4 MAGIC ! i \<noteq> le_bytes 4 MAGIC ! i" using i(2) by simp
  then show ?thesis using i(1) l assms(2) by (auto simp: torn_head_def)
qed

lemma torn_head_magic:
  assumes "torn_head pg"
  shows "le_word (take 4 pg) \<noteq> MAGIC"
proof
  assume eq: "le_word (take 4 pg) = MAGIC"
  obtain i where i: "i < 4" "pg ! i AND le_bytes 4 MAGIC ! i \<noteq> le_bytes 4 MAGIC ! i" and l: "length pg = PAGE_SIZE"
    using assms by (auto simp: torn_head_def)
  have "le_bytes 4 MAGIC = take 4 pg" using le_bytes_le_word [where bs = "take 4 pg" and n = 4 and 'a = 32] l unfolding eq [symmetric] by simp
  then show False using i by simp
qed

lemma torn_head_free: "torn_head (f b 0) \<Longrightarrow> free_block f b"
  using torn_head_magic [of "f b 0"] by (simp add: free_block_def block_head_def compress_of_def)

section \<open>Sessions that stay in one block\<close>

definition written_over :: "nat \<Rightarrow> flash_image \<Rightarrow> pending list \<Rightarrow> flash_image" where
  "written_over b f H = f(b := (\<lambda>p. if p < length H then overlay (f b p) (programmed (page_image (H ! p)) 0) else f b p))"

text \<open>The instance has flushed the pages of \<open>L\<close> over whatever the block held.\<close>

definition over_rel :: "'p build \<Rightarrow> (bus \<Rightarrow> flash_image) \<Rightarrow> nat \<Rightarrow> flash_image \<Rightarrow> 'p mxfs_inst \<Rightarrow> mxfs_log \<Rightarrow> bus \<Rightarrow> bool" where
  "over_rel cfg arr b f inst L h \<longleftrightarrow> good_build cfg \<and> rp_ready h \<and> inst_inv cfg inst \<and>
     (\<forall>l<LAYER_MAX. pending_of inst l = log_pending L l) \<and> list_all page_ok (log_pages L) \<and>
     position inst = (b, length (log_pages L)) \<and> \<not> marked inst b \<and> same_flash (arr h) (written_over b f (log_pages L))"

lemma written_over_Nil [simp]: "written_over b f [] = f"
  by (simp add: written_over_def)

lemma written_over_snoc:
  assumes "same_flash g (written_over b f H)" and "b < BLOCK_COUNT" "length H < PAGE_COUNT"
  shows "same_flash (replace_page g b (length H) (overlay (g b (length H)) (programmed (page_image P) 0))) (written_over b f (H @ [P]))"
  using assms by (auto simp: same_flash_def replace_page_def written_over_def nth_append less_Suc_eq)

lemma written_over_outside: "same_outside {b} (written_over b f H) f"
  by (simp add: same_outside_def written_over_def)

lemma written_over_cong: "same_flash f g \<Longrightarrow> b < BLOCK_COUNT \<Longrightarrow> same_flash (written_over b f H) (written_over b g H)"
  by (auto simp: same_flash_def written_over_def)

lemma torn_written_over:
  assumes "torn_head (f b 0)" and "list_all page_ok H"
  shows "torn_head (written_over b f H b 0)"
proof (cases H)
  case (Cons P Ps)
  then have "length (page_image P) \<le> PAGE_SIZE" using assms(2) length_page_ok [of P] by (simp add: page_ok_def)
  then show ?thesis using torn_head_overlay [OF assms(1)] Cons by (simp add: written_over_def)
qed (use assms in simp)

context rp_nand
begin

lemma flush_over:
  assumes inv: "inst_inv cfg inst" and ne: "page_len (counts_of inst) \<noteq> 0" and pos: "position inst = (b, p)"
    and um: "\<not> marked inst b" and rd: "rp_ready h" and p: "Suc p < PAGE_COUNT"
  shows "\<exists>inst' h'. mxfs_flush cfg (rp_driver chip) inst h = Inr (OK, inst', h') \<and> rp_ready h' \<and> inst_inv cfg inst' \<and>
    page_len (counts_of inst') = 0 \<and> position inst' = (b, Suc p) \<and> \<not> marked inst' b \<and>
    same_flash (arr h') (replace_page (arr h) b p (overlay (arr h b p) (programmed (page_image (pending_of inst)) 0)))"
proof -
  let ?P = "pending_of inst" and ?c = "clear_all inst"
  have cb: "unat (mxfs_current_block inst) = b" "unat (mxfs_current_page inst) = p" using pos by (simp_all add: position_def)
  have v: "1 \<le> b" "valid_pos b p" using inst_invD(3) [OF inv] by (simp_all add: position_ok_iff pos)
  have er: "flush_erase (rp_driver chip) ?c h = Inr (OK, ?c, h)"
    by (rule flush_erase_simps(2) [where cb = "mxfs_current_block inst"]) (use v um in \<open>simp_all add: cb marked_def\<close>)
  have len: "length (page_image ?P) = page_len (counts_of inst)" by (rule length_pending_image [OF inv])
  have n: "unat (of_nat (page_len (counts_of inst)) :: u16) = page_len (counts_of inst)" "page_len (counts_of inst) \<le> PAGE_SIZE"
    using inst_invD(2) [OF inv] by (simp_all add: unat_of_nat_small)
  obtain h' where w: "rp_write chip h (mxfs_current_block inst) (mxfs_current_page inst) (page_image ?P) (of_nat (page_len (counts_of inst))) =
      Inr (OK, h')" "rp_ready h'"
    "same_flash (arr h') (replace_page (arr h) b p (overlay (arr h b p) (programmed (page_image ?P) 0)))"
    using rp_write_overlays [OF rd, of "mxfs_current_block inst" "mxfs_current_page inst" "of_nat (page_len (counts_of inst))" "page_image ?P"] v
    by (auto simp: cb n len)
  let ?m = "mark_written cfg (encoded ?P) ?c"
  have fl: "mxfs_flush cfg (rp_driver chip) inst h = Inr (OK, advance ?m, h')"
    using w(1) by (simp add: mxfs_flush_unfold [OF inv ne] er) (simp add: rp_driver_def)
  have ok: "position_ok ?m" and posm: "position ?m = (b, p)" using v pos by (simp_all add: position_ok_iff position_def)
  have "position (advance ?m) = (b, Suc p)" using advance_position(1) [OF ok] p unfolding posm by (simp add: next_pos_def)
  moreover have "\<not> marked (advance ?m) b"
    using um p cb unat_plus_one [of "mxfs_current_page inst"] by (simp add: advance_def Let_def marked_def)
  ultimately show ?thesis using fl w(2,3) mxfs_flush_inst [OF inv fl] by blast
qed

end

sublocale rp_nand \<subseteq> over: log_client cfg "rp_driver chip" "over_rel cfg arr b f" "\<lambda>n. n < PAGE_COUNT" for cfg b f
proof
  fix inst L h
  assume r: "over_rel cfg arr b f inst L h"
  have inv: "inst_inv cfg inst" and pos: "position inst = (b, length (log_pages L))"
    and pend: "\<And>l. l < LAYER_MAX \<Longrightarrow> pending_of inst l = log_pending L l" using r by (simp_all add: over_rel_def)
  have b: "b < BLOCK_COUNT" using inst_invD(3) [OF inv] by (simp add: position_ok_iff pos)
  have len: "page_len (counts_of inst) = pending_len (log_pending L)"
    using pending_len_cong [of "pending_of inst" "log_pending L"] pend by (simp add: pending_len_counts)
  have img: "page_image (pending_of inst) = page_image (log_pending L)" by (rule page_image_cong) (rule pend)
  have ok: "page_ok (log_pending L)"
    using page_ok_pending [OF inv] page_ok_cong [of "pending_of inst" "log_pending L"] pend by simp
  show "good_build cfg \<and> inst_inv cfg inst \<and> (\<forall>l<LAYER_MAX. pending_of inst l = log_pending L l)"
    using r by (simp add: over_rel_def)
  show "\<exists>inst' h'. mxfs_flush cfg (rp_driver chip) inst h = Inr (OK, inst', h') \<and> over_rel cfg arr b f inst' (log_flush L) h'"
    if room: "length (log_pages (log_flush L)) < PAGE_COUNT"
  proof (cases "pending_len (log_pending L) = 0")
    case True
    then show ?thesis using r len by (simp add: log_flush_def mxfs_flush_nothing [OF inv])
  next
    case False
    then have p: "Suc (length (log_pages L)) < PAGE_COUNT" using room by (simp add: log_flush_def)
    obtain inst' h' where fl: "mxfs_flush cfg (rp_driver chip) inst h = Inr (OK, inst', h')" "rp_ready h'" "inst_inv cfg inst'"
      "page_len (counts_of inst') = 0" "position inst' = (b, Suc (length (log_pages L)))" "\<not> marked inst' b"
      "same_flash (arr h') (replace_page (arr h) b (length (log_pages L))
        (overlay (arr h b (length (log_pages L))) (programmed (page_image (log_pending L)) 0)))"
      using flush_over [OF inv _ pos _ _ p, of h] r len False img by (auto simp: over_rel_def)
    have "same_flash (arr h') (written_over b f (log_pages L @ [log_pending L]))"
      by (rule same_flash_trans [OF fl(7) written_over_snoc]) (use r b p in \<open>simp_all add: over_rel_def\<close>)
    moreover have "pending_of inst' l = []" if "l < LAYER_MAX" for l
      using fl(4) that page_len_0_iff [of "counts_of inst'"] by (metis length_0_conv length_pending_of)
    ultimately have "over_rel cfg arr b f inst' (log_flush L) h'"
      using fl r False ok by (simp add: over_rel_def log_flush_def)
    then show ?thesis using fl(1) by blast
  qed
  fix inst' P
  assume "inst_inv cfg inst'" "position inst' = position inst" "blocks inst' = blocks inst"
    and "\<And>l. l < LAYER_MAX \<Longrightarrow> pending_of inst' l = P l"
  then show "over_rel cfg arr b f inst' (L\<lparr>log_pending := P\<rparr>) h" using r by (simp add: over_rel_def marked_def)
qed simp

section \<open>Sessions on a torn block\<close>

text \<open>The mount of a block that counts as free, whatever it holds: at its first page, not marked.\<close>

context restartable
begin

lemma mount_dirty:
  assumes cfg: "good_build cfg" and pf: "mount_good pf = mount_good_flash" "find_current pf = find_flash data_blocks 0" and d: "alive d"
    and b: "b \<in> set data_blocks" "free_block (img d) b" "\<And>k. k \<in> set data_blocks \<Longrightarrow> k < b \<Longrightarrow> \<not> free_block (img d) k"
  shows "\<exists>inst d'. mxfs_create_instance cfg pf drv (\<lambda>n. True) None \<lparr>singleton = 0, singleton_locked = False, device = d\<rparr> =
      Inr (OK, Some inst, \<lparr>singleton = 1, singleton_locked = False, device = d'\<rparr>) \<and> ready d' \<and> same_flash (img d') (img d) \<and>
    starts_at cfg inst b \<and> \<not> marked inst b"
proof -
  let ?sys = "\<lparr>singleton = 0, singleton_locked = False, device = d\<rparr>"
  obtain d1 d2 where c: "drv_create_gpio drv d = Inr (OK, d1)" "drv_create_spi drv d1 = Inr (OK, d2)" "ready d2"
    and same: "same_flash (img d2) (img d)" using restart [OF d] by blast
  have free: "free_block (img d2) k = free_block (img d) k" if "k \<in> set data_blocks" for k
    by (rule free_block_cong) (rule same_flash_head [OF same that])
  have tm: "\<exists>b \<in> set data_blocks. free_block (img d2) b \<or> cp_time (block_head (img d2) b) > 0" using b free by blast
  have "\<exists>inst d' b. mxfs_create_instance cfg pf drv (\<lambda>n. True) None ?sys =
      Inr (OK, Some inst, \<lparr>singleton = 1, singleton_locked = False, device = d'\<rparr>) \<and> ready d' \<and> same_flash (img d') (img d2) \<and>
    chosen_block (img d2) b \<and> starts_at cfg inst b \<and> (marked inst b \<longleftrightarrow> \<not> free_block (img d2) b)"
    by (rule create_chooses [OF cfg pf _ _ _ _ c(2,3) tm]) (simp_all add: c(1))
  then obtain inst d' b' where m: "mxfs_create_instance cfg pf drv (\<lambda>n. True) None ?sys =
      Inr (OK, Some inst, \<lparr>singleton = 1, singleton_locked = False, device = d'\<rparr>)" "ready d'" "same_flash (img d') (img d2)"
    "chosen_block (img d2) b'" "starts_at cfg inst b'" "marked inst b' \<longleftrightarrow> \<not> free_block (img d2) b'" by blast
  have "\<exists>k \<in> set data_blocks. free_block (img d2) k" using b(1,2) free by blast
  from m(4) [unfolded chosen_block_def if_P [OF this]]
  have "b' \<in> set data_blocks" "free_block (img d2) b'" "\<forall>k \<in> set data_blocks. k < b' \<longrightarrow> \<not> free_block (img d2) k" by simp_all
  then have eq: "b' = b" using b free by (metis linorder_neqE_nat)
  show ?thesis using m(1,2,5,6) same_flash_trans [OF m(3) same] b(2) free [OF b(1)] by (auto simp: eq)
qed

end

context rp_nand
begin

text \<open>One session from such a block, of fewer pages than a block has.\<close>

lemma session_over:
  assumes cfg: "good_build cfg" and pf: "mount_good pf = mount_good_flash" "find_current pf = find_flash data_blocks 0"
    and ops: "list_all (op_ok cfg) ops" "length (log_pages (session_log ops)) < PAGE_COUNT" and h: "bus_ok h"
    and b: "b \<in> set data_blocks" "free_block (arr h) b" "\<And>k. k \<in> set data_blocks \<Longrightarrow> k < b \<Longrightarrow> \<not> free_block (arr h) k"
  shows "\<exists>inst h'. session cfg pf (rp_driver chip) ops h = Inr (all_ok ops, Some inst, h') \<and> rp_ready h' \<and>
    same_flash (arr h') (written_over b (arr h) (log_pages (session_log ops))) \<and> list_all page_ok (log_pages (session_log ops))"
proof -
  obtain inst h1 where m: "mxfs_create_instance cfg pf (rp_driver chip) (\<lambda>n. True) None \<lparr>singleton = 0, singleton_locked = False, device = h\<rparr> =
      Inr (OK, Some inst, \<lparr>singleton = 1, singleton_locked = False, device = h1\<rparr>)" "rp_ready h1" "same_flash (arr h1) (arr h)"
    "starts_at cfg inst b" "\<not> marked inst b"
    using rp_restart.mount_dirty [OF cfg pf h b] by blast
  have "over_rel cfg arr b (arr h) inst empty_log h1"
    using m(2-5) cfg by (simp add: over_rel_def starts_at_def empty_log_def)
  then obtain inst' h' where r: "foldR (run_op cfg (rp_driver chip)) ops ([OK], inst, h1) = Inr ([OK] @ replicate (length ops) OK, inst', h')"
    "over_rel cfg arr b (arr h) inst' (session_log ops) h'"
    using over.client_ops [OF ops(1), of b "arr h" inst empty_log h1 "[OK]"] ops(2) by (auto simp: session_log_def)
  have "session cfg pf (rp_driver chip) ops h = Inr (all_ok ops, Some inst', h')"
    using m(1) r(1) by (simp add: session_def all_ok_def)
  then show ?thesis using r(2) by (auto simp: over_rel_def)
qed

end

section \<open>Any number of sessions\<close>

text \<open>The pages of session after session, each from the first page of the block.\<close>

definition over_all :: "nat \<Rightarrow> client_op list list \<Rightarrow> flash_image \<Rightarrow> flash_image" where
  "over_all b opss f = fold (\<lambda>ops f. written_over b f (log_pages (session_log ops))) opss f"

lemma over_all_Nil [simp]: "over_all b [] f = f"
  by (simp add: over_all_def)

lemma over_all_Cons [simp]: "over_all b (ops # opss) f = over_all b opss (written_over b f (log_pages (session_log ops)))"
  by (simp add: over_all_def)

lemma over_all_cong: "same_flash f g \<Longrightarrow> b < BLOCK_COUNT \<Longrightarrow> same_flash (over_all b opss f) (over_all b opss g)"
  by (induction opss arbitrary: f g) (simp_all add: written_over_cong)

definition reads_nothing :: "'d driver \<Rightarrow> 'd \<Rightarrow> nat \<times> nat \<Rightarrow> bool" where
  "reads_nothing drv d pos \<longleftrightarrow> (\<forall>layer tr n buf page0.
     (unat (tr_block tr), unat (tr_page tr)) = pos \<longrightarrow> n \<noteq> 0 \<longrightarrow> length page0 = PAGE_SIZE \<longrightarrow>
     (\<exists>d'. mxfs_read drv d layer (Some buf) n tr (Some page0) = Inr (0, Some buf, d')))"

context flash_driver
begin

lemma no_magic_reads_nothing:
  assumes rd: "ready d" and v: "valid_pos b p" and m: "le_word (take 4 (img d b p)) \<noteq> MAGIC"
  shows "reads_nothing drv d (b, p)"
  unfolding reads_nothing_def
proof (intro allI impI)
  fix layer :: byte and tr :: timerange and n :: u16 and buf page0 :: "byte list"
  assume pos: "(unat (tr_block tr), unat (tr_page tr)) = (b, p)" and n: "n \<noteq> 0" and l: "length page0 = PAGE_SIZE"
  have len: "length (img d b p) = PAGE_SIZE" by (rule img_length [OF rd v])
  obtain d' where "drv_read drv d (tr_block tr) (tr_page tr) page0 (of_nat PAGE_SIZE) = Inr (OK, img d b p, d')"
    using read_law [OF rd, of "tr_block tr" "tr_page tr" "of_nat PAGE_SIZE" page0] pos v l len by auto
  from read_any_page [OF this _ _ len _ n, of "[]" "img d b p"]
  show "\<exists>d'. mxfs_read drv d layer (Some buf) n tr (Some page0) = Inr (0, Some buf, d')"
    using m len by (auto simp: enc_chunks_def)
qed

end

context rp_nand
begin

lemma sessions_over:
  assumes cfg: "good_build cfg" and pf: "mount_good pf = mount_good_flash" "find_current pf = find_flash data_blocks 0"
    and b: "b \<in> set data_blocks"
  shows "list_all (list_all (op_ok cfg)) opss \<Longrightarrow> list_all (\<lambda>ops. length (log_pages (session_log ops)) < PAGE_COUNT) opss \<Longrightarrow> bus_ok h \<Longrightarrow>
    torn_head (arr h b 0) \<Longrightarrow> (\<forall>k \<in> set data_blocks. k < b \<longrightarrow> \<not> free_block (arr h) k) \<Longrightarrow>
    \<exists>h'. foldR (next_session cfg pf (rp_driver chip)) opss (retss, h) = Inr (retss @ map all_ok opss, h') \<and>
      (opss \<noteq> [] \<longrightarrow> rp_ready h') \<and> same_flash (arr h') (over_all b opss (arr h)) \<and> torn_head (arr h' b 0)"
proof (induction opss arbitrary: retss h)
  case Nil
  then show ?case by simp
next
  case (Cons ops opss)
  have lt: "b < BLOCK_COUNT" using b by simp
  obtain inst h1 where s: "session cfg pf (rp_driver chip) ops h = Inr (all_ok ops, Some inst, h1)" "rp_ready h1"
    "same_flash (arr h1) (written_over b (arr h) (log_pages (session_log ops)))" "list_all page_ok (log_pages (session_log ops))"
    using session_over [OF cfg pf _ _ Cons.prems(3) b torn_head_free [where f = "arr h", OF Cons.prems(4)], of ops] Cons.prems(1,2,5) by auto
  have t: "torn_head (arr h1 b 0)"
    using torn_written_over [of "arr h", OF Cons.prems(4) s(4)] same_flashD [OF s(3), of b 0] lt by simp
  have "same_outside {b} (arr h1) (arr h)"
    by (rule same_outside_trans [OF same_flash_outside [OF s(3), of "{b}"] written_over_outside]) simp_all
  then have "block_head (arr h1) k = block_head (arr h) k" if "k \<in> set data_blocks" "k < b" for k
    using that by (intro block_head_cong) (simp add: same_outside_def)
  then have low: "\<forall>k \<in> set data_blocks. k < b \<longrightarrow> \<not> free_block (arr h1) k"
    using Cons.prems(5) by (simp add: free_block_def)
  have ok: "bus_ok h1" using s(2) by (simp add: rp_ready_def)
  obtain h' where r: "foldR (next_session cfg pf (rp_driver chip)) opss (retss @ [all_ok ops], h1) =
      Inr ((retss @ [all_ok ops]) @ map all_ok opss, h')" "opss \<noteq> [] \<longrightarrow> rp_ready h'"
    "same_flash (arr h') (over_all b opss (arr h1))" "torn_head (arr h' b 0)"
    using Cons.IH [OF _ _ ok t low, of "retss @ [all_ok ops]"] Cons.prems(1,2) by auto
  have "next_session cfg pf (rp_driver chip) ops (retss, h) = Inr (retss @ [all_ok ops], h1)"
    using s(1) by (simp add: next_session_def)
  moreover have "rp_ready h'" using r(1,2) s(2) by (cases opss) simp_all
  moreover have "same_flash (arr h') (over_all b (ops # opss) (arr h))"
    using same_flash_trans [OF r(3) over_all_cong [OF s(3) lt]] by simp
  ultimately show ?case using r(1,4) by auto
qed

end

end
