(* ===== verification/Session_Ranges.thy ===== *)
theory Session_Ranges
  imports Mxfs_Restart
begin

text \<open>
  What \<open>mxfs_timerange\<close> reports after a session. The flags of a page are known for the pages of the session itself, so these are
  reported exactly for the layers they hold samples of. Of the pages of earlier sessions the mount knows nothing: it sets
  all flags of every page, so each page that starts with a header is reported for every layer.
\<close>

section \<open>The flags of the pages of a log\<close>

definition page_marks :: "nat \<Rightarrow> pending list \<Rightarrow> nat \<times> nat \<Rightarrow> byte" where
  "page_marks s H = fold (\<lambda>i g. g(log_pos s i := ucast (page_mask (H ! i)))) [0..<length H] (\<lambda>pos. 0xFF)"

lemma page_marks_Nil [simp]: "page_marks s [] pos = 0xFF"
  by (simp add: page_marks_def)

lemma page_marks_snoc: "page_marks s (H @ [P]) = (page_marks s H)(log_pos s (length H) := ucast (page_mask P))"
proof -
  have "fold (\<lambda>i g. g(log_pos s i := ucast (page_mask ((H @ [P]) ! i)))) [0..<length H] g0 =
      fold (\<lambda>i g. g(log_pos s i := ucast (page_mask (H ! i)))) [0..<length H] g0" for g0 :: "nat \<times> nat \<Rightarrow> byte"
    by (rule fold_cong) (simp_all add: nth_append)
  then show ?thesis by (simp add: page_marks_def)
qed

text \<open>Later pages come to the place of an earlier one only after it was recycled.\<close>

lemma page_marks_kept:
  "log_low (length H) \<le> i \<Longrightarrow> i < length H \<Longrightarrow> page_marks s H (log_pos s i) = ucast (page_mask (H ! i))"
proof (induction H rule: rev_induct)
  case (snoc P H)
  show ?case
  proof (cases "i = length H")
    case False
    then have i: "i < length H" and low: "log_low (Suc (length H)) \<le> i" using snoc.prems by simp_all
    have "log_pos s i \<noteq> log_pos s (length H)" using log_pos_inj [of i "length H" s] log_low_lap [OF low] i by auto
    moreover have "log_low (length H) \<le> i" using log_low_mono [of "length H"] low by simp
    ultimately show ?thesis using snoc.IH i by (simp add: page_marks_snoc nth_append)
  qed (simp add: page_marks_snoc)
qed simp

lemma page_marks_other: "(\<And>i. i < length H \<Longrightarrow> log_pos s i \<noteq> pos) \<Longrightarrow> page_marks s H pos = 0xFF"
  by (induction H rule: rev_induct) (auto simp: page_marks_snoc less_Suc_eq)

lemma page_mask_cong: "(\<And>l. l < LAYER_MAX \<Longrightarrow> P l = Q l) \<Longrightarrow> page_mask P = page_mask Q"
  unfolding page_mask_def by (rule fold_cong) auto

section \<open>What a flush and the mount do to them\<close>

lemma flush_erase_pages: "flush_erase drv inst d = Inr (r, inst', d') \<Longrightarrow> bs_pages (blocks inst' b) = bs_pages (blocks inst b)"
  by (auto simp: flush_erase_def Let_def bindR_eq_Inr split: if_splits)

lemma advance_pages: "bs_pages (blocks (advance inst) b) = bs_pages (blocks inst b)"
  by (simp add: advance_def Let_def)

lemma flush_marks:
  assumes inv: "inst_inv cfg inst" and ne: "page_len (counts_of inst) \<noteq> 0" and fl: "mxfs_flush cfg drv inst d = Inr (OK, inst', d')"
  shows "bs_pages (blocks inst' b) p = (if (b, p) = position inst
    then mark_page cfg (page_mask (pending_of inst)) (start_tmm (encoded (pending_of inst))) (last_tmm (encoded (pending_of inst)))
    else bs_pages (blocks inst b) p)"
proof -
  obtain inst2 d2 where er: "flush_erase drv (clear_all inst) d = Inr (OK, inst2, d2)"
    and i: "inst' = advance (mark_written cfg (encoded (pending_of inst)) inst2)"
    using fl by (auto simp: mxfs_flush_unfold [OF inv ne] bindR_eq_Inr split: if_splits)
  have pos: "unat (mxfs_current_block inst2) = fst (position inst)" "unat (mxfs_current_page inst2) = snd (position inst)"
    using flush_erase_inst(4) [OF er] by (simp_all add: position_def)
  show ?thesis
    by (auto simp: i advance_pages mark_written_def Let_def pos flush_erase_pages [OF er] encoded_def prod_eq_iff)
qed

context flash_driver
begin

lemma create_marks:
  assumes pf: "mount_good pf = mount_good_flash" "find_current pf = find_flash data_blocks 0"
    and drv: "drv_create_gpio drv d = Inr (OK, d1)" "drv_create_spi drv d1 = Inr (OK, d2)" "ready d2"
    and c: "mxfs_create_instance cfg pf drv (\<lambda>n. True) None \<lparr>singleton = 0, singleton_locked = False, device = d\<rparr> = Inr (OK, Some inst, sys)"
    and b: "b \<in> set data_blocks"
  shows "bs_pages (blocks inst b) p = 0xFF"
proof -
  obtain d' where "create_setup cfg pf drv (\<lambda>n. True) None d = Inr (find_current pf (mounted pf (img d2) (fresh_inst cfg pf)), d')"
    using create_setup_ok [of "\<lambda>n. True" d d1 d2 cfg pf, OF _ drv] by blast
  then have "inst = find_current pf (mounted pf (img d2) (fresh_inst cfg pf))"
    using c by (simp add: mxfs_create_instance_def Let_def)
  then show ?thesis using b by (simp add: pf(2) mounted_flash(1) [OF pf(1)])
qed

end

section \<open>A session\<close>

definition marked_log :: "byte build \<Rightarrow> ('d \<Rightarrow> flash_image) \<Rightarrow> ('d \<Rightarrow> bool) \<Rightarrow> nat \<Rightarrow> flash_image \<Rightarrow> byte mxfs_inst \<Rightarrow> mxfs_log \<Rightarrow> 'd \<Rightarrow> bool" where
  "marked_log cfg img ready s f inst L d \<longleftrightarrow> log_since cfg img ready s 0 f inst L d \<and> mark_page cfg = (\<lambda>flags start last. ucast flags) \<and>
     (\<forall>P \<in> set (log_pages L). pending_len P \<noteq> 0) \<and>
     (\<forall>b \<in> set data_blocks. \<forall>p. bs_pages (blocks inst b) p = page_marks s (log_pages L) (b, p))"

sublocale flash_driver \<subseteq> marks: log_client cfg drv "marked_log cfg img ready s f" "\<lambda>n. True" for cfg s f
proof
  fix inst L d
  assume r: "marked_log cfg img ready s f inst L d"
  then have since: "log_since cfg img ready s 0 f inst L d" by (simp add: marked_log_def)
  have inv: "inst_inv cfg inst" and pend: "\<And>l. l < LAYER_MAX \<Longrightarrow> pending_of inst l = log_pending L l"
    using log.good [OF since] by simp_all
  have len: "page_len (counts_of inst) = pending_len (log_pending L)" by (rule log.client_len [OF since])
  show "good_build cfg \<and> inst_inv cfg inst \<and> (\<forall>l<LAYER_MAX. pending_of inst l = log_pending L l)"
    by (rule log.good [OF since])
  obtain inst' d' where fl: "mxfs_flush cfg drv inst d = Inr (OK, inst', d')" "log_since cfg img ready s 0 f inst' (log_flush L) d'"
    using log.flushed [OF since] by blast
  have "marked_log cfg img ready s f inst' (log_flush L) d'"
  proof (cases "pending_len (log_pending L) = 0")
    case True
    then have "inst' = inst" using fl(1) len by (simp add: mxfs_flush_nothing [OF inv])
    then show ?thesis using r fl(2) True by (simp add: marked_log_def log_flush_def)
  next
    case False
    have pos: "position inst = log_pos s (length (log_pages L))" using since by (simp add: log_since_def log_rel_def)
    have "page_mask (pending_of inst) = page_mask (log_pending L)" by (rule page_mask_cong) (rule pend)
    then show ?thesis
      using r fl(2) False flush_marks [OF inv _ fl(1)] len
      by (auto simp: marked_log_def log_flush_def page_marks_snoc pos)
  qed
  then show "\<exists>inst' d'. mxfs_flush cfg drv inst d = Inr (OK, inst', d') \<and> marked_log cfg img ready s f inst' (log_flush L) d'"
    using fl(1) by blast
  fix inst' P
  assume "inst_inv cfg inst'" "position inst' = position inst" "blocks inst' = blocks inst"
    and "\<And>l. l < LAYER_MAX \<Longrightarrow> pending_of inst' l = P l"
  then show "marked_log cfg img ready s f inst' (L\<lparr>log_pending := P\<rparr>) d"
    using r log.stored [OF since] by (simp add: marked_log_def)
qed simp
text \<open>Behind the pages that a session kept, the blocks it used are blank.\<close>

lemma not_kept_blank:
  assumes rel: "log_rel cfg f s inst L" and b: "b \<in> touched s 0 (length (log_pages L))" and p: "p < PAGE_COUNT"
    and no: "\<And>i. log_kept L i \<Longrightarrow> log_pos s i \<noteq> (b, p)"
  shows "f b p = blank_page"
proof -
  let ?n = "length (log_pages L)"
  obtain i where i: "log_low ?n \<le> i" "i < ?n" "log_pos s i = (b, 0)" using touched_first_page [OF b] by blast
  have pos: "log_pos s (i + p) = (b, p)" using i(3) p by (auto simp: log_pos_def)
  have ge: "\<not> i + p < ?n" using no [of "i + p"] pos i(1) by (auto simp: log_kept_def)
  have "64 dvd i" using i(3) by (simp add: log_pos_def dvd_eq_mod_eq_0)
  then obtain k where k: "i = 64 * k" by (rule dvdE)
  have "?n div 64 = k" by (rule div_nat_eqI) (use i(2) ge p k in simp_all)
  moreover from this have "?n mod 64 = ?n - 64 * k" using minus_mult_div_eq_mod [of ?n 64] by simp
  ultimately have nk: "?n div 64 = k" "?n mod 64 = ?n - 64 * k" "?n mod 64 \<noteq> 0" using i(2) k by simp_all
  have at: "position inst = (b, ?n mod 64)" using rel i(3) by (simp add: log_rel_def log_pos_def nk(1) k)
  have tail: "tail_ok f inst" using rel by (simp add: log_rel_def)
  show ?thesis
    by (rule tail_ok_position(2) [OF tail at _ _ p]) (use nk ge k tail_ok_position(1) [OF tail at] in auto)
qed

text \<open>The pages reported after a session that started at block \<open>s\<close> on the flash \<open>f\<close> and has the log \<open>L\<close>.\<close>

definition session_hit :: "flash_image \<Rightarrow> nat \<Rightarrow> mxfs_log \<Rightarrow> nat \<Rightarrow> nat \<times> nat \<Rightarrow> bool" where
  "session_hit f s L layer pos \<longleftrightarrow>
     (\<exists>i. log_kept L i \<and> log_pos s i = pos \<and> (log_pages L ! i) layer \<noteq> []) \<or>
     (fst pos \<notin> touched s 0 (length (log_pages L)) \<and> cp_magic (compress_of (take 16 (f (fst pos) (snd pos)))) = MAGIC)"

lemma kept_touched: "log_kept L i \<Longrightarrow> fst (log_pos s i) \<in> touched s 0 (length (log_pages L))"
  by (auto simp: log_kept_def touched_def)

lemma kept_unique:
  assumes "log_kept L i" and "log_kept L j" and "log_pos s i = log_pos s j"
  shows "i = j"
proof -
  have "a = b" if "log_kept L a" "log_kept L b" "log_pos s a = log_pos s b" "a \<le> b" for a b
  proof -
    have "0 < length (log_pages L)" using that(1) unfolding log_kept_def by linarith
    then obtain n where n: "length (log_pages L) = Suc n" by (cases "length (log_pages L)") simp_all
    have "b div 64 \<le> n div 64" by (rule div_le_mono) (use that(2) n in \<open>simp add: log_kept_def\<close>)
    moreover have "n div 64 < a div 64 + 1023" using log_low_lap [of n a] that(1) n by (simp add: log_kept_def)
    ultimately show ?thesis using log_pos_inj [OF that(4) _ that(3)] by simp
  qed
  then show ?thesis using assms by (metis nle_le)
qed

lemma hit_is_session_hit:
  assumes m: "marked_log cfg img ready s f inst L d" and l: "layer < LAYER_MAX" and pos: "pos \<in> set data_pages"
  shows "hit_flash (img d) inst layer pos \<longleftrightarrow> session_hit f s L layer pos"
proof -
  let ?n = "length (log_pages L)"
  obtain b p where bp: "pos = (b, p)" by (cases pos)
  have b: "b \<in> set data_blocks" and p: "p < PAGE_COUNT" and v: "valid_pos b p" using pos by (auto simp: bp data_pages_mem)
  have rel: "log_rel cfg (img d) s inst L" and out: "same_outside (touched s 0 ?n) (img d) f"
    using m by (simp_all add: marked_log_def log_since_def)
  have mk: "bs_pages (blocks inst b) p = page_marks s (log_pages L) (b, p)" using m b by (simp add: marked_log_def)
  have all: "(ucast (0xFF :: byte) :: u32) AND (page_flags_array ! layer) \<noteq> 0"
  proof -
    have "layer = 0 \<or> layer = 1 \<or> layer = 2 \<or> layer = 3 \<or> layer = 4 \<or> layer = 5" using l by linarith
    then show ?thesis by (elim disjE) (simp_all add: page_flags_array_def)
  qed
  consider (kept) i where "log_kept L i" "log_pos s i = (b, p)" | (blank) "b \<in> touched s 0 ?n" "\<And>i. log_kept L i \<Longrightarrow> log_pos s i \<noteq> (b, p)"
    | (old) "b \<notin> touched s 0 ?n" by blast
  then show ?thesis
  proof cases
    case kept
    let ?P = "log_pages L ! i"
    have h: "page_ok ?P" "holds_page (img d b p) ?P" using rel kept by (auto simp: log_rel_def pages_ok_def log_kept_def)
    have "?P \<in> set (log_pages L)" using kept(1) by (simp add: log_kept_def)
    then have "pending_len ?P \<noteq> 0" using m by (simp add: marked_log_def)
    from page_head [OF h(1) this h(2)] have "cp_magic (compress_of (take 16 (img d b p))) = MAGIC" by simp
    moreover have "page_marks s (log_pages L) (b, p) = ucast (page_mask ?P)"
      using page_marks_kept [of "log_pages L" i s] kept by (simp add: log_kept_def)
    ultimately have "hit_flash (img d) inst layer pos \<longleftrightarrow> ?P layer \<noteq> []"
      using page_mask_bits(2) [OF l, of ?P] by (simp add: hit_flash_def bp mk)
    moreover have "session_hit f s L layer pos \<longleftrightarrow> ?P layer \<noteq> []"
    proof -
      have "b \<in> touched s 0 ?n" using kept_touched [OF kept(1), of s] kept(2) by simp
      moreover have "(\<exists>j. log_kept L j \<and> log_pos s j = (b, p) \<and> (log_pages L ! j) layer \<noteq> []) \<longleftrightarrow> ?P layer \<noteq> []"
        using kept kept_unique [OF _ kept(1)] by metis
      ultimately show ?thesis by (simp add: session_hit_def bp)
    qed
    ultimately show ?thesis by simp
  next
    case blank
    have "img d b p = blank_page" by (rule not_kept_blank [OF rel blank(1) p blank(2)])
    then show ?thesis using blank blank_head by (auto simp: hit_flash_def session_hit_def bp)
  next
    case old
    have "page_marks s (log_pages L) (b, p) = 0xFF" by (rule page_marks_other) (use old in \<open>force simp: touched_def\<close>)
    moreover have "img d b p = f b p" using out old v by (simp add: same_outside_def)
    moreover have "\<not> (log_kept L i \<and> log_pos s i = (b, p))" for i using kept_touched [of L i s] old by auto
    ultimately show ?thesis using old all by (simp add: hit_flash_def session_hit_def bp mk) blast
  qed
qed

context restartable
begin

lemma session_ranges:
  assumes cfg: "good_build cfg" "mark_page cfg = (\<lambda>flags start last. ucast flags)"
    and pf: "mount_good pf = mount_good_flash" "find_current pf = find_flash data_blocks 0"
    and ops: "ops_good cfg ops" and d: "alive d" and f: "flash_ok (img d)"
    and l: "unat layer < LAYER_MAX" and n: "n \<noteq> 0" "unat n \<le> length tr"
  shows "\<exists>s inst d1 d2. session cfg pf drv ops d = Inr (all_ok ops, Some inst, d1) \<and> chosen_block (img d) s \<and>
    mxfs_timerange drv inst d1 layer (Some tr) n = Inr (range_result (scan_outcome (unat n) 0
      (map (\<lambda>pos. set_range pos 0 0) (filter (session_hit (img d) s (session_log ops) (unat layer)) data_pages)) tr d2))"
proof -
  let ?sys = "\<lparr>singleton = 0, singleton_locked = False, device = d\<rparr>"
  obtain inst d1 where m: "mxfs_create_instance cfg pf drv (\<lambda>n. True) None ?sys =
      Inr (OK, Some inst, \<lparr>singleton = 1, singleton_locked = False, device = d1\<rparr>)" "ready d1" "same_flash (img d1) (img d)"
    "chosen_block (img d) (fst (position inst))" "log_rel cfg (img d1) (fst (position inst)) inst empty_log"
    using mount_runs [OF cfg(1) pf d f] by blast
  let ?s = "fst (position inst)" and ?L = "session_log ops"
  obtain e1 e2 where "drv_create_gpio drv d = Inr (OK, e1)" "drv_create_spi drv e1 = Inr (OK, e2)" "ready e2"
    using restart [OF d] by blast
  note marks = create_marks [OF pf this m(1)]
  have "marked_log cfg img ready ?s (img d) inst empty_log d1"
    using m(2,5) cfg marks same_flash_outside [OF m(3), of "{}"]
    by (simp add: marked_log_def log_since_def empty_log_def)
  then obtain inst' d' where r: "foldR (run_op cfg drv) ops ([OK], inst, d1) = Inr ([OK] @ replicate (length ops) OK, inst', d')"
    "marked_log cfg img ready ?s (img d) inst' ?L d'"
    using marks.client_ops [of cfg ops ?s "img d" inst empty_log d1 "[OK]"] ops by (auto simp: ops_good_def session_log_def)
  have s: "session cfg pf drv ops d = Inr (all_ok ops, Some inst', d')" using m(1) r(1) by (simp add: session_def all_ok_def)
  have "ready d'" using r(2) by (simp add: marked_log_def log_since_def)
  then obtain d2 where "mxfs_timerange drv inst' d' layer (Some tr) n = Inr (range_result (scan_outcome (unat n) 0
      (map (\<lambda>pos. set_range pos 0 0) (filter (hit_flash (img d') inst' (unat layer)) data_pages)) tr d2))"
    using timerange_spec [OF l _ n] by blast
  moreover have "filter (hit_flash (img d') inst' (unat layer)) data_pages = filter (session_hit (img d) ?s ?L (unat layer)) data_pages"
    by (rule filter_cong) (simp_all add: hit_is_session_hit [OF r(2) l])
  ultimately show ?thesis using s m(4) by (intro exI [of _ ?s] exI [of _ inst'] exI [of _ d'] exI [of _ d2]) simp
qed

end

end
