(* ===== verification/Mount_Trace.thy ===== *)
theory Mount_Trace
  imports Mxfs_Restart
begin

text \<open>
  What the creation of an instance sends to the chip on the RP2040: the reset and identification, the release of the protection,
  and then a page read of the first page of each data block, whatever these pages hold.
\<close>

lemma rp_gpio_trace:
  assumes "bus_ok h"
  shows "\<exists>h'. rp_create_gpio h = Inr (OK, h') \<and> bus_ok h' \<and> commands h' = commands h"
proof -
  let ?es = "[Hw ''gpio_init'' [17], Hw ''gpio_set_dir'' [17, 1], Cs True,
       Hw ''gpio_init'' [14], Hw ''gpio_set_dir'' [14, 1], Hw ''gpio_put'' [14, 0],
       Hw ''gpio_init'' [15], Hw ''gpio_set_dir'' [15, 1], Hw ''gpio_put'' [15, 1]]"
  obtain es where "rp_create_gpio h = Inr (OK, h @ es)" "list_all set_up_event es"
    by (rule that [of "?es @ drop (length h) (rp_blink 100 h)"]) (simp_all add: rp_create_gpio_def rp_blink_def list_all_iff)
  then show ?thesis using set_up_ok [OF assms] set_up_commands by auto
qed

lemma rp_spi_trace:
  assumes c: "rp_create_spi chip h = Inr (ret, h')" and ok: "bus_ok h"
  shows "bus_ok h' \<and> commands h' = commands h @ [[DEVICE_RESET], [JEDEC_ID, 0], [WRITE_STATUS_REGISTER_L, STATUS_REGISTER_1_ADDR, 0], [WRITE_ENABLE]]"
proof -
  let ?un = "[WRITE_STATUS_REGISTER_L, STATUS_REGISTER_1_ADDR, 0] :: byte list"
  let ?es = "[Hw ''spi_init'' [8000000], Hw ''spi_set_slave'' [0], Hw ''spi_set_format'' [8, 0, 0],
            Hw ''gpio_set_function'' [18], Hw ''gpio_set_function'' [19], Hw ''gpio_set_function'' [16]]"
  define h1 where "h1 = rp_blink 200 (h @ ?es)"
  obtain es where es: "h1 = h @ es" "list_all set_up_event es"
    by (rule that [of "?es @ drop (length h) (rp_blink 200 h)"]) (simp_all add: h1_def rp_blink_def list_all_iff)
  have h1: "bus_ok h1" "commands h1 = commands h" using set_up_ok [OF ok es(2)] set_up_commands [OF es(2)] by (simp_all add: es(1))
  obtain jid h5 where q: "rp_query chip [JEDEC_ID, 0] 3 k = (jid k, h5 k)" for k
    by (rule that [of "\<lambda>k. fst (rp_query chip [JEDEC_ID, 0] 3 k)" "\<lambda>k. snd (rp_query chip [JEDEC_ID, 0] 3 k)"]) simp
  obtain s2 h2 s4 h4 s6 h6 s8 where
    w2: "rp_wait not_busy chip (0xFF, h1) = Inr (s2, h2)"
    and w4: "rp_wait not_busy chip (s2, instr [DEVICE_RESET] h2 @ [Delay 1000]) = Inr (s4, h4)"
    and w6: "rp_wait not_busy chip (s4, instr ?un (h5 h4)) = Inr (s6, h6)"
    and w8: "rp_wait write_enabled chip (s6, instr [WRITE_ENABLE] h6) = Inr (s8, h')"
    using c by (auto simp: rp_create_spi_def Let_def h1_def [symmetric] q bindR_eq_Inr split: if_splits)
  note a2 = rp_wait_result [OF w2 h1(1)]
  note c2 = instr_ok [of h2 "[DEVICE_RESET]"]
  note a4 = rp_wait_result [OF w4]
  note c4 = rp_query_ok [OF _ _ q, of h4]
  note a6 = rp_wait_result [OF w6]
  note c6 = instr_ok [of "h5 h4" ?un]
  note a8 = rp_wait_result [OF w8]
  note c8 = instr_ok [of h6 "[WRITE_ENABLE]"]
  show ?thesis using h1(2) a2 c2 a4 c4 a6 c6 a8 c8 by simp
qed

lemma mount_trace:
  "foldR (mount_block pf (rp_driver chip) None) bs (inst, h) = Inr (inst', h') \<Longrightarrow> bus_ok h \<Longrightarrow>
   bus_ok h' \<and> (\<exists>css. list_all2 (\<lambda>b cs. \<exists>p. cs = read_commands (of_nat b) 0 p) bs css \<and> commands h' = commands h @ concat css)"
proof (induction bs arbitrary: inst h)
  case Nil
  then show ?case by simp
next
  case (Cons b bs)
  from Cons.prems(1) obtain inst1 h1 where m: "mount_block pf (rp_driver chip) None b (inst, h) = Inr (inst1, h1)"
    and r: "foldR (mount_block pf (rp_driver chip) None) bs (inst1, h1) = Inr (inst', h')"
    by (auto simp: bindR_eq_Inr)
  from m obtain ret buf where "rp_read chip h (of_nat b) 0 (replicate 16 0) 16 = Inr (ret, buf, h1)"
    by (auto simp: mount_block_def rp_driver_def bindR_eq_Inr Let_def split: if_splits)
  from rp_read_trace [OF this Cons.prems(2)] obtain p where 1: "bus_ok h1" "commands h1 = commands h @ read_commands (of_nat b) 0 p"
    by blast
  from Cons.IH [OF r 1(1)] obtain css where "bus_ok h'" "list_all2 (\<lambda>b cs. \<exists>p. cs = read_commands (of_nat b) 0 p) bs css"
    "commands h' = commands h1 @ concat css" by blast
  then show ?case using 1(2) by (intro conjI exI [of _ "read_commands (of_nat b) 0 p # css"]) auto
qed

context rp_nand
begin

lemma create_trace:
  assumes ok: "bus_ok h"
  shows "\<exists>inst h' css. mxfs_create_instance cfg pf (rp_driver chip) (\<lambda>n. True) None \<lparr>singleton = 0, singleton_locked = False, device = h\<rparr> =
      Inr (OK, Some inst, \<lparr>singleton = 1, singleton_locked = False, device = h'\<rparr>) \<and> same_flash (arr h') (arr h) \<and>
    list_all2 (\<lambda>b cs. \<exists>p. cs = read_commands (of_nat b) 0 p) data_blocks css \<and>
    commands h' = commands h @ [[DEVICE_RESET], [JEDEC_ID, 0], [WRITE_STATUS_REGISTER_L, STATUS_REGISTER_1_ADDR, 0], [WRITE_ENABLE]] @ concat css"
proof -
  obtain d1 d2 where c: "rp_create_gpio h = Inr (OK, d1)" "rp_create_spi chip d1 = Inr (OK, d2)" "rp_ready d2" "same_flash (arr d2) (arr h)"
    using rp_create_ready [OF ok] by blast
  have d: "drv_create_gpio (rp_driver chip) h = Inr (OK, d1)" "drv_create_spi (rp_driver chip) d1 = Inr (OK, d2)"
    using c by (simp_all add: rp_driver_def)
  have ok1: "bus_ok d1" "commands d1 = commands h" using rp_gpio_trace [OF ok] c(1) by simp_all
  note s = rp_spi_trace [OF c(2) ok1(1)]
  obtain h' where m: "create_setup cfg pf (rp_driver chip) (\<lambda>n. True) None h =
      Inr (find_current pf (mounted pf (arr d2) (fresh_inst cfg pf)), h')" "same_flash (arr h') (arr d2)"
    using rp_flash.create_setup_ok [of "\<lambda>n. True" h d1 d2 cfg pf, OF _ d c(3)] by blast
  then obtain inst where "foldR (mount_block pf (rp_driver chip) None) data_blocks (fresh_inst cfg pf, d2) = Inr (inst, h')"
    using d by (auto simp: create_setup_def bindR_eq_Inr list_all_iff)
  from mount_trace [OF this] s ok1(2) obtain css where
    "list_all2 (\<lambda>b cs. \<exists>p. cs = read_commands (of_nat b) 0 p) data_blocks css"
    "commands h' = commands h @ [[DEVICE_RESET], [JEDEC_ID, 0], [WRITE_STATUS_REGISTER_L, STATUS_REGISTER_1_ADDR, 0], [WRITE_ENABLE]] @ concat css"
    by auto
  moreover have "mxfs_create_instance cfg pf (rp_driver chip) (\<lambda>n. True) None \<lparr>singleton = 0, singleton_locked = False, device = h\<rparr> =
      Inr (OK, Some (find_current pf (mounted pf (arr d2) (fresh_inst cfg pf))), \<lparr>singleton = 1, singleton_locked = False, device = h'\<rparr>)"
    using m(1) by (simp add: mxfs_create_instance_def Let_def)
  ultimately show ?thesis using same_flash_trans [OF m(2) c(4)] by blast
qed

end

end
