(* ===== verification/Spec2Isabelle.thy ===== *)
theory Spec2Isabelle
  imports Simulated_Chip Whole_Life Parent_Safe Power_Loss Torn_Block Session_Ranges Mount_Trace
begin

text \<open>
  MXFS is a small log-structured file system for sensor records on a W25N01G SPI NAND chip: a library on the
  recording device (the child, \<open>sw/child\<close>, with one driver per platform) and a command line tool on a Raspberry Pi
  (the parent, \<open>sw/parent\<close>). This library models both, down to the bytes on the SPI bus.

  \<^bold>\<open>The program.\<close> The child buffers samples by layer (\<open>mxfs_append\<close>: a 64-bit timestamp and a fixed-size record).
  When the page they would make comes near 2048 bytes, or on request, \<open>mxfs_flush\<close> encodes all layers into one page of
  chunks (a 16-byte header \<open>compress_t\<close> and a payload), erases the current block where it is marked, writes the page, and
  advances the write position through the ring of the 1023 data blocks. \<open>mxfs_read\<close> decodes one layer of a page,
  \<open>mxfs_timerange\<close> reports the pages that hold a layer, \<open>mxfs_write\<close> puts a raw record, \<open>mxfs_create_instance\<close> scans the
  first page of every block and picks where to go on. All of them reach the flash through the table of functions \<open>mxfs_driver_*\<close>
  that a platform provides: an array in memory (macOS), the SPI bus with busy-waiting (RP2040, BCM2711). The parent drives
  the same chip by step machines that its commands repeat until they are done, and decodes pages for \<open>csv\<close> and \<open>search\<close>.

  \<^bold>\<open>Theories, in the order of the code.\<close>
  \<^item> \<open>Mxfs_Prelude\<close>: machine types, outcomes of calls (\<open>fault\<close>: an access out of bounds, a division by zero, a loop that
    never ends, an abort, \<open>exit(1)\<close>), checked memory, little-endian integers, bit fields.
  \<^item> \<open>Mxfs_Types\<close> (\<open>mxfs_def.h\<close>): header, status, instance, build configurations. \<open>Flash_Driver\<close> (\<open>drivers_def.h\<close>): the
    driver table and the locale \<open>flash_driver\<close>, what the file system needs of it; \<open>Driver_Fake\<close> (\<open>drivers/macos\<close>) meets it.
  \<^item> \<open>Mxfs_Flush\<close>, \<open>Mxfs_Append\<close>, \<open>Mxfs_Read\<close>, \<open>Mxfs_Timerange\<close>, \<open>Mxfs_Instance\<close>: the files of \<open>sw/child/src\<close> of those
    names (read, write and erase together), one definition per function or loop, over an arbitrary driver.
  \<^item> \<open>Page_Format\<close>: samples, chunks, and the locale \<open>page_walker\<close>, the contract of the loops that walk over a page (\<open>mxfs_read\<close>,
    \<open>mxfs_timerange_by_block\<close>, \<open>csv\<close>). \<open>Flush_Spec\<close>: the reference page of the pending samples, which the encoding loops are shown to compute.
    \<open>Mxfs_Invariant\<close>: the invariant, the step relation of a client and reachability. \<open>Mxfs_Log\<close>: the abstract specification, a log of pages with
    pending samples, and its relation to instance and flash. \<open>Page_Content\<close>, \<open>Mxfs_Refine\<close>: what a page gives back, and that
    the operations refine the log; the locale \<open>log_client\<close> there derives appends and runs of operations from what a flush keeps. \<open>Mxfs_Restart\<close>: several lives of the child on one chip, and the locale \<open>restartable\<close>, a driver whose creation
    leaves the pages alone. \<open>Power_Loss\<close>: lives of the child that end while a page is being programmed
    or a block erased. \<open>Torn_Block\<close>: the one state this leaves that the program does not repair.
    \<open>Session_Ranges\<close>: which pages a time range query finds after a session. \<open>Mount_Trace\<close>: what the creation sends
    to the chip on the RP2040.
  \<^item> \<open>Spi_Bus\<close>: the history of the bus, the instruction set, busy-waiting, framing and guarding of instructions, chips that become ready.
    \<open>Driver_Rp2040\<close>, \<open>Driver_Bcm2711\<close>: the drivers of these names. \<open>Nand_Chip\<close>: the locale \<open>nand_chip\<close>, what the data
    sheet promises for the instructions sent. \<open>Rp2040_Flash\<close>: the RP2040 driver over such a chip is a \<open>flash_driver\<close>. \<open>Bcm2711_Flash\<close>: the BCM2711
    driver is not, and what its writes leave behind a short page.
  \<^item> \<open>Parent_Nand\<close> (\<open>spi.cc\<close>, \<open>read.cc\<close>, \<open>write.cc\<close>, \<open>erase.cc\<close>): transfers, step machines and their loops. \<open>Parent_Csv\<close>
    and \<open>Parent_Tool\<close> (\<open>format.cc\<close>): the decoding of pages, then options, set-up, the eight commands and \<open>main\<close>.
    \<open>Parent_Flash\<close>: the locale \<open>parent_nand\<close>, what the loops do to the array of a \<open>nand_chip\<close>. \<open>Parent_Commands\<close> and
    \<open>Parent_Search\<close>: what the commands do to it and print of it. \<open>Parent_Safe\<close>: what holds of them on any chip. \<open>Whole_Life\<close>: the parent tool
    and the sessions of the child one after the other on one chip.
  \<^item> \<open>Simulated_Chip\<close>: an executable chip that meets all contracts, on which the three of them are interpreted.

  \<^bold>\<open>How state corresponds.\<close> A C struct is a record with the members' names; arrays indexed by layer, block or page are functions,
  guarded where the code does not bound the index; buffers are byte lists of their exact size, and every access to one is checked.
  Integers keep their width, so sums and shifts wrap as in the code. A call takes the device state and returns the next. A chip is
  a function from the history of the bus to its answers; pointers that may be \<open>NULL\<close> and allocations that may fail are options.

  \<^bold>\<open>What the properties show.\<close> In the order of this theory: the file system as a whole, on the array in memory and on the RP2040
  over a NAND chip (whatever valid operations follow the creation, all return \<open>OK\<close> and every page not recycled reads
  back), over any number of restarts and power losses, and through the parent tool's format, configuration and \<open>csv\<close>; the parent tool on any chip at
  all; the parts of that (refinement of the log, the reference page, the invariant over any driver, faults, the exact estimate,
  where an append stalls); positions, pages, losses and round trips; the time ranges; the creation; the
  drivers on the bus; the step machines of the parent; and its commands on a whole chip, together with the child that wrote or reads it.

  \<^bold>\<open>Bounds.\<close> A page image is at most 2000 bytes, because an append flushes when the estimate exceeds 2048 - 64 with the record
  included; the layer buffers of 16 KiB have room for such a page in every layer, the 8 KiB of the RP2040 do not for
  temperatures: 819 of them stall the layer. A log position is the page number modulo the 65472 pages of the ring; sessions that follow one
  another on a blank chip keep everything while they fill fewer than 1023 blocks, and records must be dated after the first second of the epoch, since the mount
  takes a time of zero for no time. Loops
  over a page are recursive functions that end as the offset grows; busy-waits (\<open>poll\<close>) and the loops of the parent (\<open>repeat_until\<close>) are
  partial functions: they return where the chip's operations end (\<open>live\<close>), which is a hypothesis, and that they do is proved.

  \<^bold>\<open>What is assumed.\<close> The chip, the operating system's answers (\<open>bcm_env\<close>), the results of \<open>getopt\<close>, and whether allocations and
  transfers succeed are arguments. The laws of \<open>nand_chip\<close> are those of the data sheet for the instructions sent; programming
  clears bits, and reading is only assumed in buffer mode. \<open>Simulated_Chip\<close> shows they can hold.

  \<^bold>\<open>Not modelled.\<close> Tests and benchmarks; the configuration headers of TinyUSB and lwIP; build files; the hardware
  description. Of the modelled code: log messages and the formatting of printed lines (a line is a value), the signal handler and the
  release of descriptors at the end of the parent tool, lines printed before a fault, and the lock of the singleton beyond whether it is held.
  A process ends between two operations of its client or during the program of a page or the erase of a block; the device left then is any one with
  that page or block changed, and what one instruction does while the power falls is not looked into further.
\<close>

section \<open>An instance for concrete runs\<close>

text \<open>A fresh instance that has \<open>n\<close> temperature samples of all ones buffered, and the blank fake device.\<close>

definition temp_inst :: "'p build \<Rightarrow> 'p platform \<Rightarrow> nat \<Rightarrow> 'p mxfs_inst" where
  "temp_inst cfg pf n = (fresh_inst cfg pf)
     \<lparr>mxfs_length := (\<lambda>l. if l = 5 then of_nat (n * 10) else 0), mxfs_count := (\<lambda>l. if l = 5 then of_nat n else 0)\<rparr>"

definition blank_fake :: fakeflashmem where
  "blank_fake = Some (\<lambda>b p. blank_page)"

lemma blank_fake_ready: "fake_ready blank_fake"
  by (simp add: blank_fake_def fake_ready_def)

lemma good_builds: "good_build build_rp2040" "good_build build_macos" "good_build build_linux"
  by (simp_all add: good_build_def build_rp2040_def build_macos_def build_linux_def)

lemma big_builds: "8192 \<le> MXFS_BUFFER_SIZE build_rp2040" "MXFS_BUFFER_SIZE build_rp2040 = 8192"
  "MXFS_BUFFER_SIZE build_macos = 16384" "MXFS_BUFFER_SIZE build_linux = 16384"
  by (simp_all add: build_rp2040_def build_macos_def build_linux_def)

text \<open>A device whose writes never come back.\<close>

definition stuck_driver :: "fakeflashmem driver" where
  "stuck_driver = (fake_driver True)\<lparr>drv_write := (\<lambda>d b p bs n. Inl Spins)\<rparr>"

lemma temp_inst_current: "mxfs_current_block (temp_inst cfg pf n) = 1" "mxfs_current_page (temp_inst cfg pf n) = 0"
  by (simp_all add: temp_inst_def fresh_inst_def)

lemma temp_inst_flags: "bs_flags (blocks (temp_inst cfg pf n) b) = 0"
  by (simp add: temp_inst_def fresh_inst_def)

lemma temp_inst_counts: "n < 2 ^ 16 \<Longrightarrow> counts_of (temp_inst cfg pf n) l = (if l = 5 then n else 0)"
  by (simp add: counts_of_def temp_inst_def unat_of_nat_small)

lemma temp_inst_inv:
  assumes "n * 10 \<le> MXFS_BUFFER_SIZE cfg" and "n \<le> 992"
  shows "inst_inv cfg (temp_inst cfg pf n)"
proof -
  have "layer_ok cfg (temp_inst cfg pf n) l" for l
    using assms by (auto simp: layer_ok_def temp_inst_def fresh_inst_def unat_of_nat_small unat_word_ariths)
  moreover have "page_len (counts_of (temp_inst cfg pf n)) \<le> 2000"
    using assms(2) by (simp add: page_len_def temp_inst_counts)
  moreover have "position_ok (temp_inst cfg pf n)" by (simp add: position_ok_def temp_inst_current)
  ultimately show ?thesis by (simp add: inst_inv_def buffers_ok_def list_all_iff)
qed

lemma temp_inst_log:
  assumes "n * 10 \<le> MXFS_BUFFER_SIZE cfg" and "n \<le> 992"
  shows "log_rel cfg (fake_img blank_fake) 1 (temp_inst cfg pf n)
    \<lparr>log_pages = [], log_pending = pending_of (temp_inst cfg pf n)\<rparr>"
  using temp_inst_inv [OF assms]
  by (simp add: log_rel_def position_def temp_inst_current log_pos_def pages_ok_def tail_ok_def fake_img_def blank_fake_def)




lemma empty_bus: "bus_ok []"
  by (simp add: bus_ok_def)

text \<open>A host on which everything opens, a chip whose pages are all zero, and some arguments.\<close>

definition host :: bcm_env where
  "host = \<lparr>open_gpio = 3, open_spi = 4, mmap_ok = True, setup_ioctls = [0, 0, 0, 0, 0, 0]\<rparr>"

lemma host_ok: "env_ok host"
  by (simp add: env_ok_def host_def)

definition zero_image :: flash_image where
  "zero_image = (\<lambda>b p. replicate PAGE_SIZE 0)"

lemma zero_image_parent: "parent_nand (sim_chip zero_image) (\<lambda>h. s_arr (sim_after zero_image h)) (\<lambda>h. s_cache (sim_after zero_image h))"
  by (rule sim_is_parent) (simp add: good_image_def zero_image_def)

definition no_range :: timerange where
  "no_range = \<lparr>tr_start_time = 0, tr_last_time = 0, tr_block = 0, tr_page = 0, tr_record_count = 0\<rparr>"



section \<open>The file system as a whole\<close>

text \<open>C1. On the fake device: after \<open>mxfs_create_instance\<close>, any sequence of valid appends and flushes returns
\<open>OK\<close> throughout, the log then holds exactly the appended samples in order, and for every page
not recycled since \<open>mxfs_read\<close> returns the bodies of the asked layer's samples, in order.\<close>

theorem end_to_end:
  assumes "singleton sys = 0" and "\<not> singleton_locked sys" and ops: "list_all (op_ok build_macos) ops"
  shows "\<exists>inst d inst' d' L.
    mxfs_create_instance build_macos platform_macos (fake_driver True) (\<lambda>n. True) None sys =
      Inr (OK, Some inst, \<lparr>singleton = 1, singleton_locked = False, device = d\<rparr>) \<and>
    foldR (run_op build_macos (fake_driver True)) ops ([], inst, d) = Inr (replicate (length ops) OK, inst', d') \<and>
    (\<forall>l<LAYER_MAX. log_samples L l = concat (map (op_samples l) ops)) \<and>
    (\<forall>l<LAYER_MAX. pending_of inst' l = log_pending L l) \<and>
    (\<forall>i layer tr n buf page0. log_kept L i \<longrightarrow> unat layer < LAYER_MAX \<longrightarrow>
      (unat (tr_block tr), unat (tr_page tr)) = log_pos 1 i \<longrightarrow> n \<noteq> 0 \<longrightarrow> length page0 = PAGE_SIZE \<longrightarrow>
      length (bodies ((log_pages L ! i) (unat layer))) \<le> length buf \<longrightarrow>
      (\<exists>d''. mxfs_read (fake_driver True) d' layer (Some buf) n tr (Some page0) =
        Inr (int (length (bodies ((log_pages L ! i) (unat layer)))),
          Some (bodies ((log_pages L ! i) (unat layer)) @
            drop (length (bodies ((log_pages L ! i) (unat layer)))) buf), d'')))"
proof -
  have cfg: "good_build build_macos" by (simp add: good_build_def build_macos_def)
  let ?L = "fold log_op ops empty_log"
  obtain inst d where c: "mxfs_create_instance build_macos platform_macos (fake_driver True) (\<lambda>n. True) None sys =
      Inr (OK, Some inst, \<lparr>singleton = 1, singleton_locked = False, device = d\<rparr>)" "fake_ready d"
    "log_rel build_macos (fake_img d) 1 inst empty_log"
    using fake_create_starts_log [OF cfg _ _ assms(1,2), of platform_macos] by (auto simp: platform_macos_def)
  obtain inst' d' where r: "foldR (run_op build_macos (fake_driver True)) ops ([], inst, d) =
      Inr (replicate (length ops) OK, inst', d')" "fake_ready d'" "log_rel build_macos (fake_img d') 1 inst' ?L"
    using fake.ops_refine [OF cfg ops c(2,3), of True "[]"] by auto
  have "log_samples ?L l = concat (map (op_samples l) ops)" if "l < LAYER_MAX" for l
    using log_samples_ops [OF that, of ops empty_log] by (simp add: log_samples_def empty_log_def)
  moreover have "\<forall>l<LAYER_MAX. pending_of inst' l = log_pending ?L l" using r(3) by (simp add: log_rel_def)
  ultimately show ?thesis
    using c(1) r(1) fake.read_refines [OF r(2,3)] by (intro exI [of _ inst] exI [of _ d] exI [of _ inst'] exI [of _ d'] exI [of _ ?L]) blast
qed

theorem end_to_end_witness:
  "\<exists>inst d inst' d'.
    mxfs_create_instance build_macos platform_macos (fake_driver True) (\<lambda>n. True) None
      \<lparr>singleton = 0, singleton_locked = False, device = None\<rparr> =
      Inr (OK, Some inst, \<lparr>singleton = 1, singleton_locked = False, device = d\<rparr>) \<and>
    foldR (run_op build_macos (fake_driver True)) [Append 5 1000 [1, 2], Flush] ([], inst, d) = Inr ([OK, OK], inst', d')"
proof -
  have ops: "list_all (op_ok build_macos) [Append 5 1000 [1, 2], Flush]"
    by (simp add: op_ok_def layer_room_def build_macos_def)
  show ?thesis
    using end_to_end [OF _ _ ops, of "\<lparr>singleton = 0, singleton_locked = False, device = None\<rparr>"]
    by (auto simp: numeral_2_eq_2)
qed



section \<open>The file system across restarts\<close>



















section \<open>Everything together\<close>



text \<open>C8. The parent tool on any chip and in any environment, with answers that mean nothing and transfers that fail: options it does not know
make it exit; otherwise, where it returns, its buffer has 2112 bytes, the step machines are at rest and what it printed is well formed, and
where it does not, it either waits for the chip for ever, exits on its own, or decodes past a page (\<open>csv\<close>, \<open>search\<close>), prints from
an offset given with \<open>-p\<close>, or copies a configuration of 2097 to 2107 characters. No other command leaves its memory.\<close>

theorem parent_tool_is_safe:
  "case parse_options args of
     Inl e \<Rightarrow> parent_main chip env args h = Some (Inl Exits)
   | Inr o1 \<Rightarrow> run_all (may_fault o1) output_typed (parent_main chip env args h)"
  by (rule parent_main_all)

section \<open>The log\<close>



text \<open>C10. Over every driver that meets the contract, \<open>mxfs_flush\<close> returns \<open>OK\<close> and is \<open>log_flush\<close>: the pending samples
become the next page of the ring, at its place, and every page not recycled is still there.\<close>

theorem flush_refines_log:
  assumes "flash_driver drv img ready" and "good_build cfg" and "ready d" and "log_rel cfg (img d) s inst L"
  shows "\<exists>inst' d'. mxfs_flush cfg drv inst d = Inr (OK, inst', d') \<and> ready d' \<and>
    log_rel cfg (img d') s inst' (log_flush L)"
  by (rule flash_driver.flush_refines [OF assms])

theorem flush_refines_log_witness:
  "\<exists>inst' d'. mxfs_flush build_macos (fake_driver True) (temp_inst build_macos platform_macos 2) blank_fake =
      Inr (OK, inst', d') \<and> fake_ready d' \<and>
    log_rel build_macos (fake_img d') 1 inst'
      (log_flush \<lparr>log_pages = [], log_pending = pending_of (temp_inst build_macos platform_macos 2)\<rparr>)"
  using flush_refines_log [OF fake.flash_driver_axioms good_builds(2) blank_fake_ready
      temp_inst_log [of 2 build_macos platform_macos], of True]
  by (simp add: big_builds)

text \<open>C11. Over any driver, with something buffered under the invariant: a flush erases the block where it is marked,
writes exactly the reference page of the pending samples at the write position, and only then advances.\<close>

theorem flush_writes_page_image:
  assumes "inst_inv cfg inst" and "page_len (counts_of inst) \<noteq> 0"
  shows "mxfs_flush cfg drv inst d =
    bindR (flush_erase drv (clear_all inst) d) (\<lambda>(r, inst2, d2).
      if r \<noteq> OK then Inr (ERR, inst2, d2)
      else bindR (drv_write drv d2 (mxfs_current_block inst) (mxfs_current_page inst)
                   (page_image (pending_of inst)) (of_nat (page_len (counts_of inst)))) (\<lambda>(ret, d3).
           if ret = OK then Inr (ret, advance (mark_written cfg (encoded (pending_of inst)) inst2), d3)
           else Inr (ret, inst2, d3)))"
  by (rule mxfs_flush_unfold [OF assms])

theorem flush_writes_page_image_witness:
  "mxfs_flush build_macos (fake_driver True) (temp_inst build_macos platform_macos 1) None = Inr
     (ERR, clear_all (temp_inst build_macos platform_macos 1), None)"
  using flush_writes_page_image [OF temp_inst_inv [of 1 build_macos platform_macos], of "fake_driver True" None]
    temp_inst_counts [of 1 build_macos platform_macos]
  by (simp add: big_builds page_len_def flush_erase_simps(2) [where cb = 1] temp_inst_current marked_def temp_inst_flags
      fake_driver_def fake_write_def)

text \<open>C12. The invariant of an instance holds in every reachable state, over any driver, whatever that driver returns:
whole samples in the layer buffers, a page that fits, a write position inside the data area.\<close>

theorem invariant_reachable:
  assumes "good_build cfg" and "mxfs_reachable cfg drv s0 s" and "inst_inv cfg (fst s0)"
  shows "inst_inv cfg (fst s)"
  by (rule mxfs_reachable_inv [OF assms])

theorem invariant_reachable_witness:
  "inst_inv build_macos (clear_all (temp_inst build_macos platform_macos 1))"
proof -
  have "mxfs_flush build_macos (fake_driver True) (temp_inst build_macos platform_macos 1) None =
      Inr (ERR, clear_all (temp_inst build_macos platform_macos 1), None)"
    using mxfs_flush_unfold [OF temp_inst_inv [of 1 build_macos platform_macos], of "fake_driver True" None]
      temp_inst_counts [of 1 build_macos platform_macos]
    by (simp add: big_builds page_len_def flush_erase_simps(2) [where cb = 1] temp_inst_current marked_def temp_inst_flags
        fake_driver_def fake_write_def)
  then have "mxfs_reachable build_macos (fake_driver True) (temp_inst build_macos platform_macos 1, None)
      (clear_all (temp_inst build_macos platform_macos 1), None)"
    by (blast intro: mxfs_reachable.intros mxfs_step.flush)
  from invariant_reachable [OF good_builds(2) this] show ?thesis by (simp add: temp_inst_inv big_builds)
qed

text \<open>C13. Under the invariant \<open>mxfs_append\<close> makes no access outside a buffer, divides by no zero and never spins
itself: where it faults, the driver's erase or write of the current block did.\<close>

theorem append_faults_only_in_driver:
  assumes "inst_inv cfg inst" and "good_build cfg" and "unat n \<le> length buffer"
    and "mxfs_append cfg drv inst d layer t buffer n = Inl e"
  shows "(\<exists>d1. drv_erase drv d1 (mxfs_current_block inst) = Inl e) \<or>
    (\<exists>d1. drv_write drv d1 (mxfs_current_block inst) (mxfs_current_page inst)
       (page_image (pending_of inst)) (of_nat (page_len (counts_of inst))) = Inl e)"
  by (rule mxfs_append_fault [OF assms])

theorem append_faults_only_in_driver_witness:
  "mxfs_append build_macos stuck_driver (temp_inst build_macos platform_macos 984) blank_fake 5 7 [1, 2] 2 = Inl Spins \<and>
    ((\<exists>d1. drv_erase stuck_driver d1 1 = Inl Spins) \<or>
     (\<exists>d1. drv_write stuck_driver d1 1 0 (page_image (pending_of (temp_inst build_macos platform_macos 984))) 1984 = Inl Spins))"
proof -
  let ?i = "temp_inst build_macos platform_macos 984"
  have inv: "inst_inv build_macos ?i" by (rule temp_inst_inv) (simp_all add: big_builds)
  have c: "page_len (counts_of ?i) = 1984" by (simp add: page_len_def temp_inst_counts)
  have "mxfs_flush build_macos stuck_driver ?i blank_fake = Inl Spins"
    using mxfs_flush_unfold [OF inv, of stuck_driver blank_fake] c
    by (simp add: flush_erase_simps(2) [where cb = 1] temp_inst_current marked_def temp_inst_flags stuck_driver_def)
  then have ap: "mxfs_append build_macos stuck_driver ?i blank_fake 5 7 [1, 2] 2 = Inl Spins"
    using mxfs_append_unfold [OF inv, of 5 2 stuck_driver blank_fake 7 "[1, 2]"] c
    by (simp add: append_prepare_def)
  from append_faults_only_in_driver [OF inv good_builds(2) _ this] this show ?thesis
    by (simp add: c temp_inst_current)
qed

text \<open>C14. The estimate that \<open>mxfs_append\<close> computes in 16 bits is the exact length of the page the buffered samples make.\<close>

theorem estimate_is_exact:
  assumes "inst_inv cfg inst"
  shows "unat (append_estimate inst) = length (page_image (pending_of inst))"
  using append_estimate_unat [of inst] inst_invD(2) [OF assms] length_pending_image [OF assms] by simp

theorem estimate_is_exact_witness:
  "unat (append_estimate (temp_inst build_macos platform_macos 984)) =
     length (page_image (pending_of (temp_inst build_macos platform_macos 984)))"
  by (rule estimate_is_exact [OF temp_inst_inv]) (simp_all add: big_builds)

text \<open>C15. Where the layer buffer has room for a page's worth of samples (every layer of the 16 KiB builds, all but the
temperature of the RP2040 build), a valid append never asks for more buffer, over any driver: it returns \<open>OK\<close> with the
record last in its layer, behind the samples already there or, after an implicit flush, alone.\<close>

theorem append_always_stores:
  assumes "inst_inv cfg inst" and "good_build cfg" and "unat layer < LAYER_MAX"
    and "layer_room cfg (unat layer)" and "unat n = rsz (unat layer)" and "unat n \<le> length buffer"
    and "mxfs_append cfg drv inst d layer t buffer n = Inr (ret, inst', d')"
  shows "ret = OK \<and> (\<exists>ss. pending_of inst' (unat layer) = ss @ [(t, take (rsz (unat layer)) buffer)] \<and>
    (ss = pending_of inst (unat layer) \<or> ss = []))"
  by (rule append_stores [OF assms])

theorem append_always_stores_witness:
  "\<exists>ret inst' d'. mxfs_append build_macos (fake_driver True) (temp_inst build_macos platform_macos 2) blank_fake
      5 7 [1, 2] 2 = Inr (ret, inst', d') \<and> ret = OK"
proof -
  have inv: "inst_inv build_macos (temp_inst build_macos platform_macos 2)" by (rule temp_inst_inv) (simp_all add: big_builds)
  obtain inst' d' where ap: "mxfs_append build_macos (fake_driver True) (temp_inst build_macos platform_macos 2)
      blank_fake 5 7 [1, 2] 2 = Inr (OK, inst', d')"
    using fake.append_refines [where layer = 5 and n = 2 and buffer = "[1, 2]" and t = 7 and malloc_ok = True,
        OF good_builds(2) _ blank_fake_ready temp_inst_log [of 2 build_macos platform_macos]]
    by (auto simp: layer_room_builds big_builds)
  from append_always_stores [OF inv good_builds(2) _ _ _ _ this] ap show ?thesis
    by (auto simp: layer_room_builds)
qed

text \<open>C16. On the RP2040 build, 819 buffered temperature samples that do not fill a page stall the layer: every further
temperature append returns \<open>NEED_MORE_BUFFER\<close> and changes nothing, whatever the driver, until someone flushes.\<close>

theorem rp2040_temperature_stall:
  assumes "inst_inv build_rp2040 inst" and "counts_of inst LAYER_TEMPERATURE = 819"
    and "page_len (counts_of inst) + 2 \<le> PAGE_SIZE - 64" and "unat layer = LAYER_TEMPERATURE" and "unat n = 2"
  shows "mxfs_append build_rp2040 drv inst d layer t buffer n = Inr (NEED_MORE_BUFFER, inst, d)"
  by (rule append_stalls [OF assms])

theorem rp2040_temperature_stall_witness:
  "mxfs_append build_rp2040 (fake_driver True) (temp_inst build_rp2040 platform_rp2040 819) blank_fake 5 7 [1, 2] 2 =
     Inr (NEED_MORE_BUFFER, temp_inst build_rp2040 platform_rp2040 819, blank_fake)"
  by (rule rp2040_temperature_stall)
    (simp_all add: temp_inst_counts page_len_def temp_inst_inv big_builds)

section \<open>Positions, pages and losses\<close>

text \<open>C17. The write position walks a ring of all 65472 data pages: from a valid position, \<open>n\<close> advances come back to it
exactly when 65472 divides \<open>n\<close>, and every position on the way is valid.\<close>

theorem write_position_ring:
  assumes "position_ok inst"
  shows "(position ((advance ^^ n) inst) = position inst \<longleftrightarrow> 65472 dvd n) \<and> position_ok ((advance ^^ n) inst)"
  using advance_period [OF assms] advance_iter [OF assms] by blast

theorem write_position_ring_witness:
  "position ((advance ^^ 65472) (temp_inst build_macos platform_macos 1)) = position (temp_inst build_macos platform_macos 1)"
  using write_position_ring [of "temp_inst build_macos platform_macos 1" 65472]
  by (simp add: position_ok_def temp_inst_current)

text \<open>C18. \<open>mxfs_read\<close> of any page that is a sequence of well-formed sensor chunks, then no magic number, returns the
payloads of the asked layer in page order; where they exceed the caller's buffer it writes outside it, whatever
\<open>bufferlen\<close> says.\<close>

theorem read_selects_layer:
  assumes "drv_read drv d (tr_block tr) (tr_page tr) page0 (of_nat PAGE_SIZE) = Inr (OK, page, d')"
    and "\<forall>ck \<in> set cks. sensor_chunk ck" and "page = enc_chunks cks @ fill" and "length page = PAGE_SIZE"
    and "fill = [] \<or> 4 \<le> length fill \<and> le_word (take 4 fill) \<noteq> MAGIC" and "n \<noteq> 0"
  shows "mxfs_read drv d layer (Some buf) n tr (Some page0) =
    (let bs = layer_payload (unat layer) cks in
     if length bs \<le> length buf then Inr (int (length bs), Some (bs @ drop (length bs) buf), d') else Inl Out_of_bounds)"
  by (rule read_any_page [OF assms])

definition page_with :: "chunk \<Rightarrow> byte list" where
  "page_with ck = enc_chunks [ck] @ replicate (PAGE_SIZE - length (enc_chunks [ck])) 0xFF"

theorem read_selects_layer_witness:
  "mxfs_read (fake_driver True) (Some (\<lambda>b p. page_with (ant_chunk 2 (1000, replicate 18 7)))) 2 (Some [0, 0, 0]) 3
      \<lparr>tr_start_time = 0, tr_last_time = 0, tr_block = 1, tr_page = 0, tr_record_count = 0\<rparr> (Some (replicate PAGE_SIZE 0))
     = Inl Out_of_bounds"
proof -
  let ?ck = "ant_chunk 2 (1000, replicate 18 7)"
  let ?tr = "\<lparr>tr_start_time = 0, tr_last_time = 0, tr_block = 1, tr_page = 0, tr_record_count = 0\<rparr>"
  have len: "length (enc_chunks [?ck]) = 34" by (simp add: ant_chunk_def)
  have pl: "length (page_with ?ck) = PAGE_SIZE" unfolding page_with_def length_append length_replicate len by simp
  have ck: "\<forall>ck \<in> set [?ck]. sensor_chunk ck" by (simp add: sensor_ant)
  have rd: "drv_read (fake_driver True) (Some (\<lambda>b p. page_with ?ck)) (tr_block ?tr) (tr_page ?tr)
      (replicate PAGE_SIZE 0) (of_nat PAGE_SIZE) = Inr (OK, page_with ?ck, Some (\<lambda>b p. page_with ?ck))"
    by (simp add: fake_driver_def fake_read_def mem_read_def mem_write_def pl)
  have "layer_payload 2 [?ck] = replicate 18 7" by (simp add: layer_payload_def) (simp add: ant_chunk_def)
  moreover have "replicate (PAGE_SIZE - length (enc_chunks [?ck])) 0xFF = [] \<or>
      4 \<le> length (replicate (PAGE_SIZE - length (enc_chunks [?ck])) (0xFF :: byte)) \<and>
      le_word (take 4 (replicate (PAGE_SIZE - length (enc_chunks [?ck])) 0xFF)) \<noteq> MAGIC"
    unfolding len by simp
  ultimately show ?thesis
    using read_selects_layer [OF rd ck page_with_def pl, of 3 2 "[0, 0, 0]"] by simp
qed

text \<open>C19. A direct write of at most 2032 bytes to a blank page and the read of that page give the bytes back, cut to the
length the reader asks for, whatever the write buffer held before.\<close>

theorem direct_write_read:
  assumes "flash_driver drv img ready" and "ready d" and "valid_pos (unat (tr_block tr)) (unat (tr_page tr))"
    and "img d (unat (tr_block tr)) (unat (tr_page tr)) = blank_page"
    and "0 < length data" and "length data + 16 \<le> PAGE_SIZE" and "unat layer = LAYER_DIRECT"
    and "length wbf = PAGE_SIZE" and "length page0 = PAGE_SIZE"
    and "m \<noteq> 0" and "min (length data) (unat m) \<le> length buf"
  shows "\<exists>d1 d2. mxfs_write drv d layer (Some data) (of_nat (length data)) tr (Some wbf) = Inr (OK, d1) \<and>
    mxfs_read drv d1 layer (Some buf) m tr (Some page0) =
      Inr (int (min (length data) (unat m)),
        Some (take (unat m) data @ drop (min (length data) (unat m)) buf), d2) \<and> ready d2"
  by (rule flash_driver.direct_roundtrip [OF assms])

theorem direct_write_read_witness:
  "\<exists>d1 d2. mxfs_write (fake_driver True) blank_fake 6 (Some [1, 2, 3]) 3
      \<lparr>tr_start_time = 0, tr_last_time = 0, tr_block = 0, tr_page = 0, tr_record_count = 0\<rparr> (Some (replicate PAGE_SIZE 9)) = Inr (OK, d1) \<and>
    mxfs_read (fake_driver True) d1 6 (Some [0, 0, 0, 0]) 4
      \<lparr>tr_start_time = 0, tr_last_time = 0, tr_block = 0, tr_page = 0, tr_record_count = 0\<rparr> (Some (replicate PAGE_SIZE 0)) =
      Inr (3, Some [1, 2, 3, 0], d2)"
  using direct_write_read [where data = "[1, 2, 3]" and layer = 6 and m = 4 and buf = "[0, 0, 0, 0]"
      and wbf = "replicate PAGE_SIZE 9" and ?page0.0 = "replicate PAGE_SIZE 0"
      and tr = "\<lparr>tr_start_time = 0, tr_last_time = 0, tr_block = 0, tr_page = 0, tr_record_count = 0\<rparr>",
      OF fake.flash_driver_axioms blank_fake_ready, of True]
  by (auto simp: fake_img_def blank_fake_def)

text \<open>C20. A flush whose write fails returns the driver's error with the write position where it was, and every buffered
sample gone: the layers are emptied before the driver is called.\<close>

theorem failed_write_loses_samples:
  assumes "inst_inv cfg inst" and "page_len (counts_of inst) \<noteq> 0"
    and "\<not> marked inst (unat (mxfs_current_block inst))"
    and "\<And>bs k. drv_write drv d (mxfs_current_block inst) (mxfs_current_page inst) bs k = Inr (r, d1)" and "r \<noteq> OK"
  shows "\<exists>inst'. mxfs_flush cfg drv inst d = Inr (r, inst', d1) \<and> position inst' = position inst \<and>
    (\<forall>l<LAYER_MAX. pending_of inst' l = [])"
  by (rule failed_write_loses [OF assms])

theorem failed_write_loses_samples_witness:
  "\<exists>inst'. mxfs_flush build_linux (fake_driver True) (temp_inst build_linux platform_linux 3) None = Inr (ERR, inst', None) \<and>
    (\<forall>l<LAYER_MAX. pending_of inst' l = [])"
proof -
  let ?i = "temp_inst build_linux platform_linux 3"
  have "\<exists>inst'. mxfs_flush build_linux (fake_driver True) ?i None = Inr (ERR, inst', None) \<and> position inst' = position ?i \<and>
      (\<forall>l<LAYER_MAX. pending_of inst' l = [])"
    by (rule failed_write_loses_samples)
      (simp_all add: temp_inst_inv big_builds page_len_def temp_inst_counts marked_def temp_inst_flags fake_driver_def fake_write_def)
  then show ?thesis by blast
qed

text \<open>C21. A flush whose erase fails returns \<open>ERR\<close> but leaves the block unmarked, so that the next flush will write to it
without an erase; the buffered samples are gone too.\<close>

theorem failed_erase_not_retried:
  assumes "inst_inv cfg inst" and "page_len (counts_of inst) \<noteq> 0"
    and "marked inst (unat (mxfs_current_block inst))"
    and "drv_erase drv d (mxfs_current_block inst) = Inr (r, d1)" and "r \<noteq> OK"
  shows "\<exists>inst'. mxfs_flush cfg drv inst d = Inr (ERR, inst', d1) \<and> position inst' = position inst \<and>
    \<not> marked inst' (unat (mxfs_current_block inst)) \<and> (\<forall>l<LAYER_MAX. pending_of inst' l = [])"
  by (rule failed_erase_unmarks [OF assms])

definition mark_first :: "'p mxfs_inst \<Rightarrow> 'p mxfs_inst" where
  "mark_first inst = inst\<lparr>blocks := (blocks inst)(1 := (blocks inst 1)\<lparr>bs_flags := BLOCK_INVALID\<rparr>)\<rparr>"

theorem failed_erase_not_retried_witness:
  "\<exists>inst'. mxfs_flush build_linux (fake_driver True) (mark_first (temp_inst build_linux platform_linux 3)) None =
      Inr (ERR, inst', None) \<and> \<not> marked inst' 1"
proof -
  let ?t = "temp_inst build_linux platform_linux 3"
  let ?i = "mark_first ?t"
  have same: "mxfs_buffer ?i = mxfs_buffer ?t" "mxfs_length ?i = mxfs_length ?t" "mxfs_count ?i = mxfs_count ?t"
    and cur: "mxfs_current_block ?i = 1" "mxfs_current_page ?i = 0"
    by (simp_all add: mark_first_def temp_inst_current)
  have inv: "inst_inv build_linux ?i"
    using temp_inst_inv [of 3 build_linux platform_linux] same_buffers [OF same]
    by (simp add: inst_inv_def position_ok_def cur big_builds)
  have "\<exists>inst'. mxfs_flush build_linux (fake_driver True) ?i None = Inr (ERR, inst', None) \<and> position inst' = position ?i \<and>
    \<not> marked inst' (unat (mxfs_current_block ?i)) \<and> (\<forall>l<LAYER_MAX. pending_of inst' l = [])"
    by (rule failed_erase_not_retried [where r = ERR, OF inv])
      (simp_all add: same_buffers(3) [OF same] page_len_def temp_inst_counts cur, simp_all add: marked_def mark_first_def fake_driver_def fake_erase_def)
  then show ?thesis by (auto simp: cur)
qed

section \<open>Headers, time ranges and the mount\<close>

text \<open>C22. A header survives its bytes: what \<open>mxfs_flush\<close> packs for a gyro or accelerometer run reads back with the
layer, the number of samples, the saturated step and, modulo \<open>2 ^ 32\<close> milliseconds, the time of the first sample.\<close>

theorem run_header_roundtrip:
  assumes "l < 32" and "k < 2 ^ 11"
  shows "let cp = compress_of (compress_bytes (gyro_header l t u k)) in
    cp_magic cp = MAGIC \<and> unat (cp_type cp) = l \<and> unat (gyr_count cp) = k \<and> cp_step cp = sample_step t u k \<and>
    cp_comp cp = 1 \<and> gyr_dim cp = 3 \<and> time32 cp = ucast (ucast t :: u32)"
  using gyro_header_roundtrip [OF assms(1,2)] by (simp add: run_headers)

theorem run_header_roundtrip_witness:
  "unat (gyr_count (compress_of (compress_bytes (gyro_header 3 1700000000123 1700000000323 21)))) = 21"
  using run_header_roundtrip [of 3 21 1700000000123 1700000000323] by (simp add: Let_def)



text \<open>C24. The Linux branch of \<open>mxfs_timerange\<close> reports exactly the data pages whose status has the layer's flag, in position
order, each with its start time as both times.\<close>

theorem timerange_linux_reports_hits:
  assumes "unat layer < LAYER_MAX" and "unat n \<le> length tr" and "n \<noteq> 0"
  shows "mxfs_timerange_linux inst layer (Some tr) n =
    Inr (range_result (scan_outcome (unat n) 0
      (map (upd_linux inst) (filter (hit_linux inst (unat layer)) data_pages)) tr ()))"
  by (rule timerange_linux_spec [OF assms])

theorem timerange_linux_reports_hits_witness:
  "mxfs_timerange_linux (temp_inst build_linux platform_linux 0) 3 (Some [no_range]) 1 = Inr (0, Some [no_range], ())"
proof -
  have "\<not> hit_linux (temp_inst build_linux platform_linux 0) l pos" for l pos
    by (simp add: hit_linux_def temp_inst_def fresh_inst_def platform_linux_def)
  then show ?thesis
    using timerange_linux_reports_hits [of 3 1 "[no_range]" "temp_inst build_linux platform_linux 0"]
    by (simp add: range_result_def scan_outcome_def)
qed

text \<open>C25. \<open>mxfs_timerange_by_block\<close> of a marked block whose pages were written by flushes (or are blank) reports each page that
holds samples of the layer, with their number and times: for the ANT+ layers the first nonzero and the last
timestamp, for the others the first timestamp modulo \<open>2 ^ 32\<close> and that plus the step times the number.\<close>

theorem by_block_reports_pages:
  assumes "flash_driver_spare drv img ready" and "unat layer < LAYER_MAX" and "1 \<le> unat block" and "unat block < BLOCK_COUNT"
    and "marked inst (unat block)" and "ready d"
    and "\<And>p. p < PAGE_COUNT \<Longrightarrow> page_ok (Q p) \<and> holds_page (img d (unat block) p) (Q p)"
    and "\<And>p. unat layer \<le> 2 \<Longrightarrow> p < PAGE_COUNT \<Longrightarrow> times_ok (Q p (unat layer))"
    and "n \<noteq> 0" and "unat n \<le> length tr"
  shows "\<exists>d'. ready d' \<and> same_flash (img d') (img d) \<and>
    mxfs_timerange_by_block False drv inst d layer block (Some tr) n =
      Inr (range_result (scan_outcome (unat n) 0
        (map (block_range Q (unat layer) (unat block)) (filter (\<lambda>p. Q p (unat layer) \<noteq> []) [0..<PAGE_COUNT])) tr d'))"
  by (rule flash_driver_spare.by_block_spec [OF assms])

theorem by_block_reports_pages_witness:
  "\<exists>d'. mxfs_timerange_by_block False (fake_driver True) (mark_first (temp_inst build_macos platform_macos 0)) blank_fake 3 1
      (Some [no_range]) 1 = Inr (0, Some [no_range], d')"
proof -
  have "holds_page blank_page (\<lambda>l. [])"
    unfolding holds_page_def
    by (rule exI [of _ "0xFF"])
      (simp add: idle_byte_def page_image_def page_chunks_def gyro_chunks_def temp_chunks_def enc_chunks_def programmed_def blank_page_def)
  then have pages: "page_ok (\<lambda>l. []) \<and> holds_page (fake_img blank_fake (unat (1::u16)) p) (\<lambda>l. [])" for p
    by (simp add: fake_img_def blank_fake_def page_ok_def)
  have m: "marked (mark_first (temp_inst build_macos platform_macos 0)) (unat (1::u16))"
    by (simp add: marked_def mark_first_def)
  show ?thesis
    using by_block_reports_pages [where Q = "\<lambda>p l. []" and layer = 3 and block = 1 and n = 1 and tr = "[no_range]",
        OF fake_spare.flash_driver_spare_axioms _ _ _ m blank_fake_ready, of True] pages
    by (auto simp: range_result_def scan_outcome_def times_ok_def)
qed

text \<open>C26. On Linux the mount never finds the current block: whatever the flash holds, writing starts at block 1, page 0.\<close>

theorem linux_mount_ignores_flash:
  assumes "create_setup cfg platform_linux drv malloc_ok None d = Inr (inst, d')"
  shows "mxfs_current_block inst = 1 \<and> mxfs_current_page inst = 0"
  by (rule linux_mount_first_block [OF assms])

theorem linux_mount_ignores_flash_witness:
  "\<exists>inst d'. create_setup build_linux platform_linux (fake_driver True) (\<lambda>n. True) None None = Inr (inst, d') \<and>
     mxfs_current_block inst = 1"
proof -
  have "\<exists>d'. create_setup build_linux platform_linux (fake_driver True) (\<lambda>n. True) None None =
      Inr (find_current platform_linux (mounted platform_linux (fake_img blank_fake) (fresh_inst build_linux platform_linux)), d') \<and>
      fake_ready d' \<and> same_flash (fake_img d') (fake_img blank_fake)"
    by (rule fake.create_setup_ok [where ?d1.0 = None])
      (simp_all add: blank_fake_ready, simp_all add: fake_driver_def fake_gpio_def fake_create_spi_def blank_fake_def blank_page_def)
  then obtain i d' where c: "create_setup build_linux platform_linux (fake_driver True) (\<lambda>n. True) None None = Inr (i, d')"
    by blast
  with linux_mount_ignores_flash [OF c] show ?thesis by blast
qed



section \<open>The drivers on the SPI bus and the parent tool\<close>

text \<open>A chip that is always ready and write enabled.\<close>

definition quick_chip :: chip where
  "quick_chip = \<lparr>rx_byte = (\<lambda>h i. 2), tx_ok = (\<lambda>h. True), rx_ok = (\<lambda>h. True)\<rparr>"

lemma quick_status:
  "rp_status quick_chip st h = (2, h @ [Cs False, Tx [0x0F, 0xC0], Rx [2], Cs True])"
  "bcm_status quick_chip st h = (2, h @ [Cs False, Tx [0x0F, 0xC0], Rx [2], Cs True])"
  "fst (par_status quick_chip h) = 2" "fst (erase_status quick_chip h) = 2"
  by (simp_all add: rp_status_eq Let_def rx_bytes_def quick_chip_def bcm_status_def bcm_read_registers_def bcm_register_def
      bcm_query_def bcm_rx_def bcm_tx_def par_status_def erase_status_def par_bcm)

lemma quick_reader: "(\<And>st h. fst (rd st h) = 2) \<Longrightarrow> live gap rd"
  unfolding live_def eventually_ready_def
  by (intro allI impI conjI exI [where x = 0]) (simp_all add: not_busy_def write_enabled_def)

lemma quick_live:
  "live gap (rp_status quick_chip)" "live gap (bcm_status quick_chip)"
  "live gap (\<lambda>st. par_status quick_chip)" "live gap (\<lambda>st. erase_status quick_chip)"
  by (rule quick_reader; simp add: quick_status)+

lemma quick_reliable: "reliable quick_chip"
  by (simp add: reliable_def quick_chip_def)

text \<open>C28. On the RP2040, a write of at most 2109 bytes to a chip whose operations end returns \<open>OK\<close>, after the five instructions of a
page program, each between two changes of the chip select, where the execute is sent right after a status read that is not
busy and write enabled. The program load carries the first 2048 bytes, padded with zeros.\<close>

theorem rp2040_write_sequence:
  assumes "live (sleeping 1000) (rp_status chip)" and "bus_ok h" and "unat n \<le> PAGE_SIZE + 61" and "unat n \<le> length buffer"
  shows "\<exists>h'. drv_write (rp_driver chip) h block page buffer n = Inr (OK, h') \<and> bus_ok h' \<and>
    commands h' = commands h @ [[0x1F, 0xA0, 0], [0x06],
      [0x84, 0, 0] @ take PAGE_SIZE (take (unat n) buffer @ replicate PAGE_SIZE 0), [0x06], 0x10 # row_bytes block page]"
proof -
  obtain ret h' where w: "rp_write chip h block page buffer n = Inr (ret, h')" using rp_write_returns [OF assms] by (metis prod.exhaust)
  have "rp_load data = [0x84, 0, 0] @ take PAGE_SIZE (data @ replicate PAGE_SIZE 0)" if "length data \<le> PAGE_SIZE + 61" for data
    using that by (simp add: rp_load_def min_def)
  then show ?thesis using rp_write_trace [OF w assms(2,3)] w assms(3) by (simp add: rp_driver_def write_commands_def)
qed

theorem rp2040_write_sequence_witness:
  "\<exists>h'. drv_write (rp_driver quick_chip) [] 5 9 (replicate 100 7) 100 = Inr (OK, h') \<and> bus_ok h' \<and> length (commands h') = 5"
  using rp2040_write_sequence [OF quick_live(1) empty_bus, of 100 "replicate 100 7" 5 9] by auto

text \<open>C29. On the RP2040, an erase on a chip whose operations end returns \<open>OK\<close> after write-enable, unprotect, write-enable and the
block erase, the last one right after a status read that is not busy and write enabled.\<close>

theorem rp2040_erase_sequence:
  assumes "live (sleeping 1000) (rp_status chip)" and "bus_ok h"
  shows "\<exists>h'. drv_erase (rp_driver chip) h block = Inr (OK, h') \<and> bus_ok h' \<and>
    commands h' = commands h @ [[0x06], [0x1F, 0xA0, 0], [0x06], 0xD8 # row_bytes block 0]"
proof -
  obtain ret h' where "rp_erase chip h block = Inr (ret, h')" using rp_erase_returns [OF assms] by (metis prod.exhaust)
  then show ?thesis using rp_erase_trace [OF _ assms(2)] by (simp add: rp_driver_def erase_commands_def)
qed

theorem rp2040_erase_sequence_witness:
  "\<exists>h'. drv_erase (rp_driver quick_chip) [] 5 = Inr (OK, h') \<and> bus_ok h' \<and> length (commands h') = 4"
  using rp2040_erase_sequence [OF quick_live(1) empty_bus, of 5] by auto

text \<open>C30. On the RP2040 over a NAND chip, the creation of an instance succeeds and sends: the reset, the identification, the release of
the protection, a write-enable, and then for each of the 1023 data blocks in order the read of its first page (read mode, page read, data
read), whatever the pages hold. So the mount takes a page read per block, also of a blank chip, and leaves the array as it was.\<close>

theorem rp2040_mount_sequence:
  assumes "rp_nand chip arr cache" and "bus_ok h"
  shows "\<exists>inst h' css. mxfs_create_instance cfg pf (rp_driver chip) (\<lambda>n. True) None
        \<lparr>singleton = 0, singleton_locked = False, device = h\<rparr> =
      Inr (OK, Some inst, \<lparr>singleton = 1, singleton_locked = False, device = h'\<rparr>) \<and> same_flash (arr h') (arr h) \<and>
    list_all2 (\<lambda>b cs. \<exists>p. cs = [[0x1F, 0xB0, read_mode p], 0x13 # row_bytes (of_nat b) 0, [0x03, 0, 0, 0]]) [1..<1024] css \<and>
    commands h' = commands h @ [[0xFF], [0x9F, 0], [0x1F, 0xA0, 0], [0x06]] @ concat css"
  using rp_nand.create_trace [OF assms] by (simp add: read_commands_def)

theorem rp2040_mount_sequence_witness:
  "\<exists>inst h'. mxfs_create_instance build_rp2040 platform_rp2040 (rp_driver (sim_chip (\<lambda>b p. blank_page))) (\<lambda>n. True) None
      \<lparr>singleton = 0, singleton_locked = False, device = []\<rparr> = Inr (OK, Some inst, \<lparr>singleton = 1, singleton_locked = False, device = h'\<rparr>) \<and>
    length (commands h') = 4 + 3 * 1023"
proof -
  obtain inst h' css where r: "mxfs_create_instance build_rp2040 platform_rp2040 (rp_driver (sim_chip (\<lambda>b p. blank_page))) (\<lambda>n. True) None
      \<lparr>singleton = 0, singleton_locked = False, device = []\<rparr> = Inr (OK, Some inst, \<lparr>singleton = 1, singleton_locked = False, device = h'\<rparr>)"
    "list_all2 (\<lambda>b cs. \<exists>p. cs = [[0x1F, 0xB0, read_mode p], 0x13 # row_bytes (of_nat b) 0, [0x03, 0, 0, 0]]) [1..<1024] css"
    "commands h' = commands [] @ [[0xFF], [0x9F, 0], [0x1F, 0xA0, 0], [0x06]] @ concat css"
    using rp2040_mount_sequence [OF sim.rp_nand_axioms empty_bus] by blast
  have "length cs = 3" if "cs \<in> set css" for cs using r(2) that by (force simp: list_all2_conv_all_nth in_set_conv_nth)
  then have "length (concat css) = 3 * length css" by (induction css) auto
  then show ?thesis using r list_all2_lengthD [OF r(2)] by (intro exI [of _ inst] exI [of _ h']) simp
qed

text \<open>C31. On the BCM2711, when no transfer fails and the chip's operations end, write (of at most 2109 bytes), erase and read return
\<open>OK\<close> after their instruction sequences, with the array changed only right after a status that is not busy and
write enabled.\<close>

theorem bcm2711_sequences:
  assumes "reliable chip" and "live (sleeping 10) (bcm_status chip)" and "bus_ok (bcm_bus d)" and "unat n \<le> 2109" and "unat n \<le> length buffer"
  shows "(\<exists>h'. drv_write (bcm_driver chip env) d block page buffer n = Inr (OK, d\<lparr>bcm_bus := h'\<rparr>) \<and> bus_ok h' \<and>
      commands h' = commands (bcm_bus d) @ [[0x1F, 0xA0, 0], [0x06], [0x84, 0, 0] @ take (unat n) buffer, [0x06], 0x10 # row_bytes block page]) \<and>
    (\<exists>h'. drv_erase (bcm_driver chip env) d block = Inr (OK, d\<lparr>bcm_bus := h'\<rparr>) \<and> bus_ok h' \<and>
      commands h' = commands (bcm_bus d) @ [[0x1F, 0xA0, 0], [0x06], 0xD8 # row_bytes block 0]) \<and>
    (\<exists>bs h' p. drv_read (bcm_driver chip env) d block page buffer n = Inr (OK, bs @ drop (unat n) buffer, d\<lparr>bcm_bus := h'\<rparr>) \<and>
      length bs = unat n \<and> bus_ok h' \<and>
      commands h' = commands (bcm_bus d) @ [[0x1F, 0xB0, read_mode p], 0x13 # row_bytes block page, [0x03, 0, 0, 0]])"
proof (intro conjI)
  obtain r1 h1 where w: "bcm_write_bus chip (bcm_bus d) block page buffer n = Inr (r1, h1)"
    using bcm_write_returns [OF assms] by (metis prod.exhaust)
  then show "\<exists>h'. drv_write (bcm_driver chip env) d block page buffer n = Inr (OK, d\<lparr>bcm_bus := h'\<rparr>) \<and> bus_ok h' \<and>
      commands h' = commands (bcm_bus d) @ [[0x1F, 0xA0, 0], [0x06], [0x84, 0, 0] @ take (unat n) buffer, [0x06], 0x10 # row_bytes block page]"
    using bcm_write_trace [OF assms(1) w assms(3,4)] by (auto simp: bcm_driver_def on_bus_def bcm_write_commands_def)
  obtain r2 h2 where e: "bcm_erase_bus chip (bcm_bus d) block = Inr (r2, h2)"
    using bcm_erase_returns [OF assms(1-3)] by (metis prod.exhaust)
  then show "\<exists>h'. drv_erase (bcm_driver chip env) d block = Inr (OK, d\<lparr>bcm_bus := h'\<rparr>) \<and> bus_ok h' \<and>
      commands h' = commands (bcm_bus d) @ [[0x1F, 0xA0, 0], [0x06], 0xD8 # row_bytes block 0]"
    using bcm_erase_trace [OF assms(1) e assms(3)] by (auto simp: bcm_driver_def on_bus_def bcm_erase_commands_def)
  obtain r3 b h3 where r: "bcm_read_bus chip (bcm_bus d) block page buffer n = Inr (r3, b, h3)"
    using bcm_read_returns [OF assms(1-3,5)] by (metis prod.exhaust)
  from bcm_read_trace [OF assms(1) r assms(3)] obtain p bs where "r3 = OK" "bus_ok h3" "length bs = unat n"
    "b = bs @ drop (unat n) buffer" "commands h3 = commands (bcm_bus d) @ read_commands block page p" by blast
  with r show "\<exists>bs h' p. drv_read (bcm_driver chip env) d block page buffer n = Inr (OK, bs @ drop (unat n) buffer, d\<lparr>bcm_bus := h'\<rparr>) \<and>
      length bs = unat n \<and> bus_ok h' \<and>
      commands h' = commands (bcm_bus d) @ [[0x1F, 0xB0, read_mode p], 0x13 # row_bytes block page, [0x03, 0, 0, 0]]"
    by (intro exI [of _ bs] exI [of _ h3] exI [of _ p]) (simp add: bcm_driver_def read_commands_def)
qed

theorem bcm2711_sequences_witness:
  "\<exists>h'. drv_write (bcm_driver quick_chip \<lparr>open_gpio = 3, open_spi = 4, mmap_ok = True, setup_ioctls = [0, 0, 0, 0, 0, 0]\<rparr>)
      \<lparr>bcm_bus = [], spi_fd = 4, gpio_fd = 3\<rparr> 5 9 (replicate 100 7) 100 = Inr (OK, \<lparr>bcm_bus = h', spi_fd = 4, gpio_fd = 3\<rparr>) \<and>
    length (commands h') = 5"
proof -
  let ?d = "\<lparr>bcm_bus = [], spi_fd = 4, gpio_fd = 3\<rparr>" and ?b = "replicate 100 (7 :: byte)"
  have "bus_ok (bcm_bus ?d)" "unat (100 :: u16) \<le> 2109" "unat (100 :: u16) \<le> length ?b" by (simp_all add: empty_bus)
  note conjunct1 [OF bcm2711_sequences [OF quick_reliable quick_live(2) this,
      of "\<lparr>open_gpio = 3, open_spi = 4, mmap_ok = True, setup_ioctls = [0, 0, 0, 0, 0, 0]\<rparr>" 5 9]]
  then show ?thesis by auto
qed

text \<open>C32. A write through the BCM2711 driver stores only the bytes given: the program load it uses leaves the rest of the chip's
buffer alone, so that after a read of one page, a shorter write to a blank page also stores the rest of the page read.\<close>

theorem bcm2711_write_stores_stale_bytes:
  assumes "bcm_nand chip arr cache" and "bus_ok (bcm_bus d)" and "unprotected (bcm_bus d)"
    and "valid_pos (unat b1) (unat p1)" and "valid_pos (unat b2) (unat p2)"
    and "unat k \<le> PAGE_SIZE" and "unat k \<le> length buf" and "unat n \<le> PAGE_SIZE" and "unat n \<le> length data"
    and "arr (bcm_bus d) (unat b2) (unat p2) = blank_page"
  shows "\<exists>bs d1 d2. drv_read (bcm_driver chip env) d b1 p1 buf k = Inr (OK, bs, d1) \<and>
    drv_write (bcm_driver chip env) d1 b2 p2 data n = Inr (OK, d2) \<and>
    arr (bcm_bus d2) (unat b2) (unat p2) = take (unat n) data @ drop (unat n) (arr (bcm_bus d) (unat b1) (unat p1))"
proof -
  obtain bs h1 h2 where "bcm_read_bus chip (bcm_bus d) b1 p1 buf k = Inr (OK, bs, h1)" "bcm_write_bus chip h1 b2 p2 data n = Inr (OK, h2)"
    "arr h2 (unat b2) (unat p2) = take (unat n) data @ drop (unat n) (arr (bcm_bus d) (unat b1) (unat p1))"
    using bcm_nand.read_then_write [OF assms] by blast
  then show ?thesis
    by (intro exI [of _ bs] exI [of _ "d\<lparr>bcm_bus := h1\<rparr>"] exI [of _ "d\<lparr>bcm_bus := h2\<rparr>"]) (simp add: bcm_driver_def on_bus_def)
qed

theorem bcm2711_write_stores_stale_bytes_witness:
  "\<exists>f env d bs d1 d2. drv_read (bcm_driver (sim_chip f) env) d 1 0 (replicate 16 0) 16 = Inr (OK, bs, d1) \<and>
    drv_write (bcm_driver (sim_chip f) env) d1 1 1 [5] 1 = Inr (OK, d2) \<and>
    s_arr (sim_after f (bcm_bus d2)) 1 1 = 5 # replicate 2047 7"
proof -
  let ?f = "\<lambda>b p. if p = 0 then replicate 2048 7 else blank_page"
  let ?d = "\<lparr>bcm_bus = instr [0x1F, 0xA0, 0] [], spi_fd = 4, gpio_fd = 3\<rparr>"
  let ?env = "\<lparr>open_gpio = 3, open_spi = 4, mmap_ok = True, setup_ioctls = [0, 0, 0, 0, 0, 0]\<rparr>"
  have "bus_ok (bcm_bus ?d)" using instr_ok [OF empty_bus, of "[0x1F, 0xA0, 0]"] by simp
  moreover have "unprotected (bcm_bus ?d)" by (simp add: unprotected_def register_write_def)
  moreover have a: "s_arr (sim_after ?f (bcm_bus ?d)) = ?f"
    by (simp add: sim_after_instr sim_instr_def) (simp add: sim_after_def power_on_def)
  ultimately show ?thesis
    using bcm2711_write_stores_stale_bytes [OF sim_is_bcm [of ?f], of ?d 1 0 1 1 16 "replicate 16 0" 1 "[5]" ?env]
    by (intro exI [of _ ?f] exI [of _ ?env] exI [of _ ?d]) (auto simp: good_image_def a)
qed

text \<open>C33. On the BCM2711, when every receive fails (as on a descriptor that could not be opened) the failure is not noticed: the status
variable keeps its initial \<open>0xFF\<close>, which reads as busy, and no read, write or erase returns.\<close>

theorem bcm2711_dead_bus_spins:
  assumes "\<And>h. \<not> rx_ok chip h"
  shows "drv_read (bcm_driver chip env) d block page buffer n = Inl Spins \<and>
    drv_write (bcm_driver chip env) d block page buffer n = Inl Spins \<and> drv_erase (bcm_driver chip env) d block = Inl Spins"
  using bcm_dead_bus [OF assms, of "bcm_bus d" block page buffer n] by (simp add: bcm_driver_def on_bus_def)

theorem bcm2711_dead_bus_spins_witness:
  "drv_erase (bcm_driver \<lparr>rx_byte = (\<lambda>h i. 0), tx_ok = (\<lambda>h. True), rx_ok = (\<lambda>h. False)\<rparr>
      \<lparr>open_gpio = 3, open_spi = 0, mmap_ok = True, setup_ioctls = []\<rparr>) \<lparr>bcm_bus = [], spi_fd = 0, gpio_fd = 3\<rparr> 1 = Inl Spins"
  using bcm2711_dead_bus_spins [of "\<lparr>rx_byte = (\<lambda>h i. 0), tx_ok = (\<lambda>h. True), rx_ok = (\<lambda>h. False)\<rparr>"] by simp

text \<open>C34. The parent's write loop, started with status \<open>DEVICE_RESET\<close> on a chip whose transfers succeed and whose operations end,
returns for at most 2109 bytes, after the five instructions of a page program with the execute guarded as
in the drivers, and leaves the status at \<open>DEVICE_RESET\<close> for the next page.\<close>

theorem parent_write_sequence:
  assumes "reliable chip" and "live (sleeping 1000) (\<lambda>st. par_status chip)" and "bus_ok h"
    and "unat n \<le> 2109" and "unat n \<le> length wbf"
  shows "\<exists>h'. write_page chip block page wbf n (0xFF, h) = Some (Inr (0xFF, h')) \<and> bus_ok h' \<and>
    commands h' = commands h @ [[0x1F, 0xA0, 0], [0x06], [0x84, 0, 0] @ take (unat n) wbf, [0x06], 0x10 # row_bytes block page]"
proof -
  obtain s h' where "write_page chip block page wbf n (0xFF, h) = Some (Inr (s, h'))" using write_page_returns [OF assms] by (metis prod.exhaust)
  then show ?thesis using write_page_sends [OF assms(1,4,3)] by (auto simp: completed_def bcm_write_commands_def)
qed

theorem parent_write_sequence_witness:
  "\<exists>h'. write_page quick_chip 5 9 (replicate 100 7) 100 (0xFF, []) = Some (Inr (0xFF, h')) \<and> length (commands h') = 5"
  using parent_write_sequence [OF quick_reliable quick_live(3) empty_bus, of 100 "replicate 100 7" 5 9] by auto

text \<open>C35. The parent's erase loop returns after unprotect, write-enable and the block erase, guarded, and leaves the status at
\<open>DEVICE_RESET\<close>.\<close>

theorem parent_erase_sequence:
  assumes "reliable chip" and "live id (\<lambda>st. erase_status chip)" and "bus_ok h"
  shows "\<exists>h'. erase_one chip block (0xFF, h) = Some (Inr (0xFF, h')) \<and> bus_ok h' \<and>
    commands h' = commands h @ [[0x1F, 0xA0, 0], [0x06], 0xD8 # row_bytes block 0]"
proof -
  obtain s h' where "erase_one chip block (0xFF, h) = Some (Inr (s, h'))" using erase_one_returns [OF assms] by (metis prod.exhaust)
  then show ?thesis using erase_one_sends [OF assms(1,3)] by (auto simp: completed_def bcm_erase_commands_def)
qed

theorem parent_erase_sequence_witness:
  "\<exists>h'. erase_one quick_chip 5 (0xFF, []) = Some (Inr (0xFF, h')) \<and> length (commands h') = 3"
  using parent_erase_sequence [OF quick_reliable quick_live(4) empty_bus, of 5] by auto

text \<open>C36. The parent's read loop returns with a full buffer after the read mode, page read and data read instructions, and leaves
the status at \<open>DEVICE_RESET\<close>.\<close>

theorem parent_read_sequence:
  assumes "reliable chip" and "live id (\<lambda>st. par_status chip)" and "bus_ok h"
  shows "\<exists>bs h' p. read_page chip block page (rbf, 0xFF, h) = Some (Inr (bs, 0xFF, h')) \<and> length bs = length rbf \<and> bus_ok h' \<and>
    commands h' = commands h @ [[0x1F, 0xB0, read_mode p], 0x13 # row_bytes block page, [0x03, 0, 0, 0]]"
proof -
  obtain bs s h' where "read_page chip block page (rbf, 0xFF, h) = Some (Inr (bs, s, h'))" using read_page_returns [OF assms] by fastforce
  then show ?thesis using read_page_sends [OF assms(1,3)] by (fastforce simp: was_read_def completed_def read_commands_def)
qed

theorem parent_read_sequence_witness:
  "\<exists>bs h'. read_page quick_chip 5 9 (replicate 16 0, 0xFF, []) = Some (Inr (bs, 0xFF, h')) \<and> length bs = 16"
  using parent_read_sequence [OF quick_reliable quick_live(3) empty_bus, of 5 9 "replicate 16 0"] by auto

section \<open>The parent tool on a whole chip\<close>

text \<open>C37. \<open>-t format\<close>, started on any history of the bus and any contents of the array, returns after all 1024 blocks and
leaves every page blank, on a chip that keeps the laws of its data sheet, whose transfers do not fail and whose operations end.\<close>

theorem parent_format_blanks:
  assumes "parent_nand chip arr cache" and "env_ok env" and "bus_ok h"
  shows "\<exists>t. parent_main chip env [(CHR ''t'', Some ''format'')] h = Some (Inr (map Block_done [0..<BLOCK_COUNT], t)) \<and>
    same_flash (arr (snd (snd t))) (\<lambda>b p. blank_page)"
  using parent_nand.format_main [OF assms] parent_nand.tool_ok_bus [OF assms(1)] by blast

theorem parent_format_blanks_witness:
  "\<exists>t. parent_main (sim_chip zero_image) host [(CHR ''t'', Some ''format'')] [] = Some (Inr (map Block_done [0..<1024], t)) \<and>
    s_arr (sim_after zero_image (snd (snd t))) 5 3 = blank_page"
  using parent_format_blanks [OF zero_image_parent host_ok empty_bus] by (auto simp: same_flash_def simp del: upt_Suc)















end
